(* ===== verification/Prelude.thy ===== *)
theory Prelude
  imports Main "HOL-Library.Word"
begin

text \<open>
  Shared types, C level faults, list (memory block) lemmas and word lemmas of the development.

  \<^item> Machine integers are words: \<open>u32\<close> is \<open>uint32_t\<close>/\<open>atomic_uint\<close>, \<open>u64\<close> is
    \<open>uint64_t\<close>/\<open>atomic_ullong\<close>; \<open>+\<close> and \<open>-\<close> wrap as in C. A C \<open>int\<close> that only carries a
    file descriptor or a return code is an \<open>int\<close>.
  \<^item> A result of type \<open>'a res\<close> is \<open>Inl\<close> of the fault (undefined behaviour of the C code) or
    \<open>Inr\<close> of the value; \<open>rbind\<close> sequences two steps.
  \<^item> A memory block (a C array) is a list; \<open>blit\<close> is \<open>memcpy\<close> into a block at an offset
    and \<open>slice\<close> reads a range of a block.
\<close>

unbundle bit_operations_syntax

type_synonym u8 = "8 word"
type_synonym u32 = "32 word"
type_synonym u64 = "64 word"
type_synonym addr = nat
type_synonym fd = int

section \<open>Faults\<close>

datatype fault = UseAfterFree | OutOfBounds | DoubleFree | Uninitialised | NullDeref | Diverges

type_synonym 'a res = "fault + 'a"

named_theorems model_defs \<open>definitions that a run of a model on concrete values unfolds\<close>

fun rbind :: "'a res \<Rightarrow> ('a \<Rightarrow> 'b res) \<Rightarrow> 'b res" where
  "rbind (Inl e) f = Inl e"
| "rbind (Inr x) f = f x"

lemma rbind_eq_Inr: "rbind m f = Inr y \<longleftrightarrow> (\<exists>x. m = Inr x \<and> f x = Inr y)"
  by (cases m) auto

lemma rbind_Inr_E:
  assumes "rbind m f = Inr y"
  obtains x where "m = Inr x" and "f x = Inr y"
  using assms by (auto simp: rbind_eq_Inr)

lemma rbind_eq_Inl:
  "rbind m f = Inl e \<longleftrightarrow> m = Inl e \<or> (\<exists>x. m = Inr x \<and> f x = Inl e)"
  by (cases m) auto

text \<open>A computation that may also not return: \<open>None\<close>.\<close>

fun xbind :: "'a res option \<Rightarrow> ('a \<Rightarrow> 'b res option) \<Rightarrow> 'b res option" where
  "xbind None f = None"
| "xbind (Some (Inl e)) f = Some (Inl e)"
| "xbind (Some (Inr x)) f = f x"

text \<open>Stepping through a fault-free run: a postcondition \<open>P\<close> that holds of the value.\<close>

definition succeeds :: "'a res \<Rightarrow> ('a \<Rightarrow> bool) \<Rightarrow> bool" where
  "succeeds m P \<longleftrightarrow> (\<exists>x. m = Inr x \<and> P x)"

lemma succeeds_Inr [simp]: "succeeds (Inr x) P \<longleftrightarrow> P x"
  by (simp add: succeeds_def)

lemma succeeds_Inl [simp]: "\<not> succeeds (Inl e) P"
  by (simp add: succeeds_def)

lemma succeeds_rbind:
  "succeeds m P \<Longrightarrow> (\<And>x. P x \<Longrightarrow> succeeds (f x) Q) \<Longrightarrow> succeeds (rbind m f) Q"
  by (auto simp: succeeds_def)

lemma succeeds_mono: "succeeds m P \<Longrightarrow> (\<And>x. P x \<Longrightarrow> Q x) \<Longrightarrow> succeeds m Q"
  by (auto simp: succeeds_def)

lemma succeedsE:
  assumes "succeeds m P"
  obtains x where "m = Inr x" and "P x"
  using assms by (auto simp: succeeds_def)

section \<open>Pointers\<close>

text \<open>A pointer argument that the code compares with \<open>NULL\<close>; what it points to is the value.\<close>

datatype 'a ptr = NULL | Ptr (deref: 'a)

section \<open>Memory blocks\<close>

text \<open>\<open>memcpy(dst + i, xs, length xs)\<close>, and the range of \<open>n\<close> cells from \<open>i\<close>.\<close>

definition blit :: "nat \<Rightarrow> 'a list \<Rightarrow> 'a list \<Rightarrow> 'a list" where
  "blit i xs dst = take i dst @ xs @ drop (i + length xs) dst"

definition slice :: "nat \<Rightarrow> nat \<Rightarrow> 'a list \<Rightarrow> 'a list" where
  "slice i n xs = take n (drop i xs)"

text \<open>A checked \<open>memcpy\<close>: writing past the end of the block is a fault.\<close>

definition memcpy :: "nat \<Rightarrow> 'a list \<Rightarrow> 'a list \<Rightarrow> 'a list res" where
  "memcpy i xs dst =
     (if i + length xs \<le> length dst then Inr (blit i xs dst) else Inl OutOfBounds)"

text \<open>A checked read of \<open>n\<close> cells from \<open>i\<close>.\<close>

definition mem_read :: "nat \<Rightarrow> nat \<Rightarrow> 'a list \<Rightarrow> 'a list res" where
  "mem_read i n xs = (if i + n \<le> length xs then Inr (slice i n xs) else Inl OutOfBounds)"

lemma mem_read_ok [simp]: "i + n \<le> length xs \<Longrightarrow> mem_read i n xs = Inr (slice i n xs)"
  by (simp add: mem_read_def)

lemma length_blit [simp]: "i + length xs \<le> length dst \<Longrightarrow> length (blit i xs dst) = length dst"
  by (simp add: blit_def)

lemma memcpy_ok [simp]: "i + length xs \<le> length dst \<Longrightarrow> memcpy i xs dst = Inr (blit i xs dst)"
  by (simp add: memcpy_def)

lemma nth_blit:
  "i + length xs \<le> length dst \<Longrightarrow> j < length dst \<Longrightarrow>
   blit i xs dst ! j = (if i \<le> j \<and> j < i + length xs then xs ! (j - i) else dst ! j)"
  by (auto simp: blit_def nth_append min_def)

lemma length_slice [simp]: "length (slice i n xs) = min n (length xs - i)"
  by (simp add: slice_def)

lemma nth_slice [simp]: "j < n \<Longrightarrow> i + j < length xs \<Longrightarrow> slice i n xs ! j = xs ! (i + j)"
  by (simp add: slice_def)

lemma slice_0 [simp]: "slice i 0 xs = []"
  by (simp add: slice_def)

lemma slice_blit_same [simp]:
  "i + length xs \<le> length dst \<Longrightarrow> slice i (length xs) (blit i xs dst) = xs"
  by (simp add: slice_def blit_def)

lemma take_blit [simp]:
  "i + length xs \<le> length dst \<Longrightarrow> take (i + length xs) (blit i xs dst) = take i dst @ xs"
  by (simp add: blit_def)

lemma slice_append:
  "slice i (m + n) xs = slice i m xs @ slice (i + m) n xs"
  by (simp add: slice_def take_add add.commute)

lemma slice_from_0 [simp]: "slice 0 n xs = take n xs"
  by (simp add: slice_def)

lemma take_slice: "take m (slice i n xs) = slice i (min m n) xs"
  by (simp add: slice_def)

lemma drop_slice: "drop m (slice i n xs) = slice (i + m) (n - m) xs"
  by (simp add: slice_def drop_take add.commute)

section \<open>Words\<close>

lemma unat_add_no_wrap:
  "unat (a::u32) + unat b < 2 ^ 32 \<Longrightarrow> unat (a + b) = unat a + unat b"
  by (simp add: unat_word_ariths)

lemma unat_sub_no_wrap: "(b::u32) \<le> a \<Longrightarrow> unat (a - b) = unat a - unat b"
  by (simp add: unat_sub)

lemma unat_of_nat_u32: "n < 2 ^ 32 \<Longrightarrow> unat (of_nat n :: u32) = n"
  by (simp add: unat_of_nat take_bit_nat_eq_self)

lemma unat_lt_u32: "unat (a::u32) < 4294967296"
  using unsigned_less [of a] by simp

end
