(* ===== verification/Fifo.thy ===== *)
theory Fifo
  imports Prelude
begin

text \<open>
  The contract of a bounded first-in first-out queue, as a locale, with the lemmas a client needs
  proved once. \<open>fifo_step\<close> is the abstract queue: a list with a capacity. \<open>RingQueue\<close>
  interprets the locale on the ring buffer of \<open>ring_queue.c\<close>.
\<close>

datatype 'a qop = Enq 'a | Deq

datatype 'a qout = Accepted | Rejected | Got 'a | Nothing

text \<open>The abstract machine: a list of at most \<open>cap\<close> elements.\<close>

fun fifo_step :: "nat \<Rightarrow> 'a list \<Rightarrow> 'a qop \<Rightarrow> 'a qout \<times> 'a list" where
  "fifo_step cap xs (Enq x) =
     (if length xs < cap then (Accepted, xs @ [x]) else (Rejected, xs))"
| "fifo_step cap [] Deq = (Nothing, [])"
| "fifo_step cap (x # xs) Deq = (Got x, xs)"

text \<open>Running a list of operations with a step function: the outputs and the final state.\<close>

fun run_ops :: "('s \<Rightarrow> 'a qop \<Rightarrow> 'a qout \<times> 's) \<Rightarrow> 's \<Rightarrow> 'a qop list \<Rightarrow> 'a qout list \<times> 's" where
  "run_ops step s [] = ([], s)"
| "run_ops step s (e # es) =
     (let (r, s') = step s e; (rs, s'') = run_ops step s' es in (r # rs, s''))"

text \<open>What went in (the accepted arguments) and what came out.\<close>

fun accepted :: "'a qop list \<Rightarrow> 'a qout list \<Rightarrow> 'a list" where
  "accepted (Enq x # es) (Accepted # rs) = x # accepted es rs"
| "accepted (e # es) (r # rs) = accepted es rs"
| "accepted _ _ = []"

fun delivered :: "'a qout list \<Rightarrow> 'a list" where
  "delivered (Got x # rs) = x # delivered rs"
| "delivered (_ # rs) = delivered rs"
| "delivered [] = []"

lemma fifo_order:
  "run_ops (fifo_step cap) xs es = (rs, ys) \<Longrightarrow> xs @ accepted es rs = delivered rs @ ys"
proof (induction es arbitrary: xs rs)
  case Nil
  then show ?case by simp
next
  case (Cons e es)
  obtain r zs where step: "fifo_step cap xs e = (r, zs)" by force
  obtain rs' where rest: "run_ops (fifo_step cap) zs es = (rs', ys)" and rs: "rs = r # rs'"
    using Cons.prems step by (auto split: prod.splits)
  have IH: "zs @ accepted es rs' = delivered rs' @ ys" by (rule Cons.IH [OF rest])
  show ?case
    using step IH rs
    by (cases e; cases xs) (auto split: if_splits)
qed

lemma fifo_bounded:
  "run_ops (fifo_step cap) xs es = (rs, ys) \<Longrightarrow> length xs \<le> cap \<Longrightarrow> length ys \<le> cap"
proof (induction es arbitrary: xs rs)
  case Nil
  then show ?case by simp
next
  case (Cons e es)
  obtain r zs where step: "fifo_step cap xs e = (r, zs)" by force
  then have "length zs \<le> cap"
    using Cons.prems(2) by (cases e; cases xs) (auto split: if_splits)
  then show ?case
    using Cons step by (auto split: prod.splits)
qed

section \<open>The contract\<close>

locale bounded_fifo =
  fixes invar :: "'q \<Rightarrow> bool"
    and contents :: "'q \<Rightarrow> 'a list"
    and cap :: nat
    and enq :: "'q \<Rightarrow> 'a \<Rightarrow> bool \<times> 'q"
    and deq :: "'q \<Rightarrow> 'a option \<times> 'q"
  assumes bounded: "invar q \<Longrightarrow> length (contents q) \<le> cap"
    and enq_room: "invar q \<Longrightarrow> length (contents q) < cap \<Longrightarrow> enq q x = (b, q') \<Longrightarrow>
      b \<and> contents q' = contents q @ [x]"
    and enq_full: "invar q \<Longrightarrow> length (contents q) = cap \<Longrightarrow> enq q x = (b, q') \<Longrightarrow>
      \<not> b \<and> contents q' = contents q"
    and deq_nonempty: "invar q \<Longrightarrow> contents q = x # xs \<Longrightarrow> deq q = (r, q') \<Longrightarrow>
      r = Some x \<and> contents q' = xs"
    and deq_none: "invar q \<Longrightarrow> contents q = [] \<Longrightarrow> deq q = (r, q') \<Longrightarrow>
      r = None \<and> contents q' = []"
    and invar_enq: "invar q \<Longrightarrow> enq q x = (b, q') \<Longrightarrow> invar q'"
    and invar_deq: "invar q \<Longrightarrow> deq q = (r, q') \<Longrightarrow> invar q'"
begin

definition impl_step :: "'q \<Rightarrow> 'a qop \<Rightarrow> 'a qout \<times> 'q" where
  "impl_step q e = (case e of
     Enq x \<Rightarrow> (case enq q x of (b, q') \<Rightarrow> (if b then Accepted else Rejected, q'))
   | Deq \<Rightarrow> (case deq q of (r, q') \<Rightarrow> ((case r of None \<Rightarrow> Nothing | Some x \<Rightarrow> Got x), q')))"

lemma impl_step_refines:
  assumes inv: "invar q" and step: "impl_step q e = (r, q')"
  shows "fifo_step cap (contents q) e = (r, contents q') \<and> invar q'"
proof (cases e)
  case (Enq x)
  obtain b q2 where enq: "enq q x = (b, q2)" by force
  with Enq step have r: "r = (if b then Accepted else Rejected)" and q2: "q2 = q'"
    by (auto simp: impl_step_def)
  show ?thesis
  proof (cases "length (contents q) < cap")
    case True
    from enq_room [OF inv True enq] True r q2 Enq invar_enq [OF inv enq] show ?thesis by simp
  next
    case False
    with bounded [OF inv] have full: "length (contents q) = cap" by simp
    from enq_full [OF inv full enq] full r q2 Enq invar_enq [OF inv enq] show ?thesis by simp
  qed
next
  case Deq
  obtain o' q2 where deq: "deq q = (o', q2)" by force
  with Deq step have r: "r = (case o' of None \<Rightarrow> Nothing | Some x \<Rightarrow> Got x)" and q2: "q2 = q'"
    by (auto simp: impl_step_def)
  show ?thesis
  proof (cases "contents q")
    case Nil
    from deq_none [OF inv Nil deq] r q2 Deq Nil invar_deq [OF inv deq] show ?thesis by simp
  next
    case (Cons x xs)
    from deq_nonempty [OF inv Cons deq] r q2 Deq Cons invar_deq [OF inv deq] show ?thesis by simp
  qed
qed

lemma run_refines:
  "invar q \<Longrightarrow> run_ops impl_step q es = (rs, q') \<Longrightarrow>
   run_ops (fifo_step cap) (contents q) es = (rs, contents q') \<and> invar q'"
proof (induction es arbitrary: q rs)
  case Nil
  then show ?case by simp
next
  case (Cons e es)
  obtain r q1 where step: "impl_step q e = (r, q1)" by force
  obtain rs' where rest: "run_ops impl_step q1 es = (rs', q')" and rs: "rs = r # rs'"
    using Cons.prems(2) step by (auto split: prod.splits)
  from impl_step_refines [OF Cons.prems(1) step]
  have abs: "fifo_step cap (contents q) e = (r, contents q1)" and inv: "invar q1" by auto
  from Cons.IH [OF inv rest] abs rs show ?case by simp
qed

lemma run_order:
  "invar q \<Longrightarrow> run_ops impl_step q es = (rs, q') \<Longrightarrow>
   contents q @ accepted es rs = delivered rs @ contents q'"
  by (meson fifo_order run_refines)

lemma run_bounded:
  "invar q \<Longrightarrow> run_ops impl_step q es = (rs, q') \<Longrightarrow> length (contents q') \<le> cap"
  by (meson bounded run_refines)

end

end
