(* ===== verification/RingQueue.thy ===== *)
theory RingQueue
  imports Fifo
begin

text \<open>
  \<open>codes/network/reactor/ring_queue.c\<close>: the ring buffer between the accepting thread and a
  reactor thread, as one thread running alone sees it (\<open>RingConc\<close> has the interleavings).

  \<^item> \<open>ring_queue\<close> is \<open>ring_queue_t\<close>; the two indices are free-running \<open>u32\<close> counters that
    wrap at \<open>2 ^ 32\<close>, the cell of an index is its low 16 bits.
  \<^item> A weak compare-and-swap may fail although nobody else wrote: \<open>spur i\<close> says that the
    \<open>i\<close>-th attempt does. The retry loops may then run for ever, so they are
    \<^theory_text>\<open>partial_function (option)\<close>, \<open>None\<close> for a call that does not return.
  \<^item> \<open>rq_contents\<close> is the abstraction: the queued elements, oldest first.
\<close>

section \<open>State and operations\<close>

record ring_queue =
  head :: u32
  tail :: u32
  buffer :: "int list"
  push_count :: u64
  pop_count :: u64
  push_fail_count :: u64

definition RING_QUEUE_SIZE :: u32 where
  "RING_QUEUE_SIZE = 65536"

definition RING_QUEUE_MASK :: u32 where
  "RING_QUEUE_MASK = RING_QUEUE_SIZE - 1"

definition ring_queue_init :: "ring_queue ptr \<Rightarrow> ring_queue ptr" where
  "ring_queue_init p = (case p of
     NULL \<Rightarrow> NULL
   | Ptr q \<Rightarrow> Ptr (q\<lparr>head := 0, tail := 0, push_count := 0, pop_count := 0, push_fail_count := 0,
                     buffer := replicate (length (buffer q)) 0\<rparr>))"

definition ring_queue_empty :: "ring_queue ptr \<Rightarrow> bool" where
  "ring_queue_empty p = (case p of NULL \<Rightarrow> True | Ptr q \<Rightarrow> head q = tail q)"

definition ring_queue_full :: "ring_queue ptr \<Rightarrow> bool" where
  "ring_queue_full p = (case p of NULL \<Rightarrow> True | Ptr q \<Rightarrow> RING_QUEUE_SIZE \<le> tail q - head q)"

definition ring_queue_size :: "ring_queue ptr \<Rightarrow> u32" where
  "ring_queue_size p = (case p of NULL \<Rightarrow> 0 | Ptr q \<Rightarrow> tail q - head q)"

text \<open>The cell an index selects: \<open>index & RING_QUEUE_MASK\<close>.\<close>

definition cell :: "u32 \<Rightarrow> nat" where
  "cell i = unat (i AND RING_QUEUE_MASK)"

text \<open>The loop of \<open>ring_queue_push\<close>, at attempt \<open>i\<close>.\<close>

partial_function (option) push_loop ::
  "(nat \<Rightarrow> bool) \<Rightarrow> nat \<Rightarrow> ring_queue \<Rightarrow> int \<Rightarrow> (bool \<times> ring_queue) option" where
  "push_loop spur i q item =
     (if RING_QUEUE_SIZE \<le> tail q - head q
      then Some (False, q\<lparr>push_fail_count := push_fail_count q + 1\<rparr>)
      else if \<not> spur i
      then Some (True, q\<lparr>tail := tail q + 1,
                          buffer := (buffer q)[cell (tail q) := item],
                          push_count := push_count q + 1\<rparr>)
      else push_loop spur (Suc i) q item)"

definition ring_queue_push ::
  "(nat \<Rightarrow> bool) \<Rightarrow> ring_queue ptr \<Rightarrow> int \<Rightarrow> (bool \<times> ring_queue ptr) option" where
  "ring_queue_push spur p item = (case p of
     NULL \<Rightarrow> Some (False, NULL)
   | Ptr q \<Rightarrow> map_option (\<lambda>(b, q'). (b, Ptr q')) (push_loop spur 0 q item))"

text \<open>The loop of \<open>ring_queue_pop\<close>; \<open>*item\<close> is written before the swap is tried.\<close>

partial_function (option) pop_loop ::
  "(nat \<Rightarrow> bool) \<Rightarrow> nat \<Rightarrow> ring_queue \<Rightarrow> int \<Rightarrow> (bool \<times> ring_queue \<times> int) option" where
  "pop_loop spur i q item =
     (if head q = tail q then Some (False, q, item)
      else if \<not> spur i
      then Some (True, q\<lparr>head := head q + 1, pop_count := pop_count q + 1\<rparr>,
                 buffer q ! cell (head q))
      else pop_loop spur (Suc i) q (buffer q ! cell (head q)))"

definition ring_queue_pop ::
  "(nat \<Rightarrow> bool) \<Rightarrow> ring_queue ptr \<Rightarrow> int ptr \<Rightarrow> (bool \<times> ring_queue ptr \<times> int ptr) option" where
  "ring_queue_pop spur p item = (case p of
     NULL \<Rightarrow> Some (False, NULL, item)
   | Ptr q \<Rightarrow> (case item of
       NULL \<Rightarrow> Some (False, p, NULL)
     | Ptr v \<Rightarrow> map_option (\<lambda>(b, q', v'). (b, Ptr q', Ptr v')) (pop_loop spur 0 q v)))"

text \<open>The copy of \<open>n\<close> elements from \<open>items\<close> into the ring at \<open>index\<close>, in one or two parts.\<close>

definition ring_write :: "u32 \<Rightarrow> u32 \<Rightarrow> int list \<Rightarrow> int list \<Rightarrow> int list res" where
  "ring_write index n items buf =
     (let first_chunk = RING_QUEUE_SIZE - index in
      if n \<le> first_chunk
      then rbind (mem_read 0 (unat n) items) (\<lambda>xs. memcpy (unat index) xs buf)
      else rbind (mem_read 0 (unat first_chunk) items) (\<lambda>xs.
           rbind (memcpy (unat index) xs buf) (\<lambda>buf'.
           rbind (mem_read (unat first_chunk) (unat (n - first_chunk)) items) (\<lambda>ys.
           memcpy 0 ys buf'))))"

definition ring_queue_push_batch ::
  "bool \<Rightarrow> ring_queue ptr \<Rightarrow> int list ptr \<Rightarrow> u32 \<Rightarrow> (u32 \<times> ring_queue ptr) res" where
  "ring_queue_push_batch spur p items count = (case p of
     NULL \<Rightarrow> Inr (0, NULL)
   | Ptr q \<Rightarrow> (case items of
       NULL \<Rightarrow> Inr (0, p)
     | Ptr xs \<Rightarrow>
        if count = 0 then Inr (0, p) else
        let free_space = RING_QUEUE_SIZE - (tail q - head q);
            actual_count = (if count < free_space then count else free_space) in
        if actual_count = 0
        then Inr (0, Ptr (q\<lparr>push_fail_count := push_fail_count q + 1\<rparr>))
        else if spur then Inr (0, p)
        else rbind (ring_write (tail q AND RING_QUEUE_MASK) actual_count xs (buffer q)) (\<lambda>buf.
          Inr (actual_count, Ptr (q\<lparr>tail := tail q + actual_count, buffer := buf,
                                   push_count := push_count q + ucast actual_count\<rparr>)))))"

text \<open>The copy of \<open>n\<close> elements from the ring at \<open>index\<close> into \<open>items\<close>, in one or two parts.\<close>

definition ring_read :: "u32 \<Rightarrow> u32 \<Rightarrow> int list \<Rightarrow> int list \<Rightarrow> int list res" where
  "ring_read index n buf items =
     (let first_chunk = RING_QUEUE_SIZE - index in
      if n \<le> first_chunk
      then rbind (mem_read (unat index) (unat n) buf) (\<lambda>xs. memcpy 0 xs items)
      else rbind (mem_read (unat index) (unat first_chunk) buf) (\<lambda>xs.
           rbind (memcpy 0 xs items) (\<lambda>items'.
           rbind (mem_read 0 (unat (n - first_chunk)) buf) (\<lambda>ys.
           memcpy (unat first_chunk) ys items'))))"

definition ring_queue_pop_batch ::
  "bool \<Rightarrow> ring_queue ptr \<Rightarrow> int list ptr \<Rightarrow> u32 \<Rightarrow> (u32 \<times> ring_queue ptr \<times> int list ptr) res" where
  "ring_queue_pop_batch spur p items count = (case p of
     NULL \<Rightarrow> Inr (0, NULL, items)
   | Ptr q \<Rightarrow> (case items of
       NULL \<Rightarrow> Inr (0, p, NULL)
     | Ptr xs \<Rightarrow>
        if count = 0 then Inr (0, p, items) else
        let queue_size = tail q - head q in
        if queue_size = 0 then Inr (0, p, items) else
        let actual_count = (if count < queue_size then count else queue_size) in
        if spur then Inr (0, p, items)
        else rbind (ring_read (head q AND RING_QUEUE_MASK) actual_count (buffer q) xs) (\<lambda>xs'.
          Inr (actual_count, Ptr (q\<lparr>head := head q + actual_count,
                                   pop_count := pop_count q + ucast actual_count\<rparr>), Ptr xs'))))"

section \<open>Abstraction and invariant\<close>

text \<open>\<open>n\<close> cells of a ring of \<open>N\<close> cells from position \<open>s\<close>.\<close>

definition window :: "nat \<Rightarrow> 'a list \<Rightarrow> nat \<Rightarrow> nat \<Rightarrow> 'a list" where
  "window N b s n = map (\<lambda>i. b ! ((s + i) mod N)) [0..<n]"

definition rq_len :: "ring_queue \<Rightarrow> nat" where
  "rq_len q = unat (tail q - head q)"

definition rq_contents :: "ring_queue \<Rightarrow> int list" where
  "rq_contents q = window 65536 (buffer q) (unat (head q)) (rq_len q)"

definition rq_wf :: "ring_queue \<Rightarrow> bool" where
  "rq_wf q \<longleftrightarrow> length (buffer q) = 65536 \<and> rq_len q \<le> 65536"

lemma length_window [simp]: "length (window N b s n) = n"
  by (simp add: window_def)

lemma nth_window [simp]: "i < n \<Longrightarrow> window N b s n ! i = b ! ((s + i) mod N)"
  by (simp add: window_def)

lemma window_0 [simp]: "window N b s 0 = []"
  by (simp add: window_def)

lemma window_append: "window N b s (m + n) = window N b s m @ window N b (s + m) n"
  by (rule nth_equalityI) (auto simp: nth_append add.assoc)

lemma window_Suc: "window N b s (Suc n) = window N b s n @ [b ! ((s + n) mod N)]"
  by (simp add: window_def)

lemma window_mod: "window N b (s mod N) n = window N b s n"
  by (rule nth_equalityI) (auto simp: mod_add_left_eq)

lemma window_hd: "0 < n \<Longrightarrow> window N b s n = b ! (s mod N) # window N b (s + 1) (n - 1)"
  using window_append [of N b s 1 "n - 1"] by (simp add: window_def)

lemma window_cong:
  "(\<And>i. i < n \<Longrightarrow> b ! ((s + i) mod N) = b' ! ((s + i) mod N)) \<Longrightarrow> window N b s n = window N b' s n"
  by (simp add: window_def)

lemma length_rq_contents [simp]: "length (rq_contents q) = rq_len q"
  by (simp add: rq_contents_def)

text \<open>Masking is remainder, and the wrap of the 32-bit counters does not disturb it.\<close>

lemma cell_mod: "cell i = unat i mod 65536"
proof -
  have "i AND RING_QUEUE_MASK = take_bit 16 i"
    by (simp add: RING_QUEUE_MASK_def RING_QUEUE_SIZE_def take_bit_eq_mask mask_eq_exp_minus_1)
  then show ?thesis by (simp add: cell_def take_bit_eq_mod unat_mod)
qed

lemma cell_bound: "cell i < 65536"
  by (simp add: cell_mod)

lemma mod_u32_cell: "(n mod 2 ^ 32) mod 65536 = n mod (65536::nat)"
  by (simp add: mod_mod_cancel)

lemma cell_add: "cell (i + j) = (unat i + unat j) mod 65536"
  by (simp add: cell_mod unat_word_ariths mod_mod_cancel)

lemma cell_tail: "cell (tail q) = (unat (head q) + rq_len q) mod 65536"
  using cell_add [of "head q" "tail q - head q"] by (simp add: rq_len_def)

lemma unat_head_step: "unat (head q + n) mod 65536 = (unat (head q) + unat n) mod 65536"
  using cell_add [of "head q" n] by (simp add: cell_mod)

section \<open>Single element operations\<close>

lemma not_full_iff: "\<not> RING_QUEUE_SIZE \<le> tail q - head q \<longleftrightarrow> rq_len q < 65536"
  by (simp add: rq_len_def RING_QUEUE_SIZE_def not_le word_less_nat_alt)

lemma empty_iff: "head q = tail q \<longleftrightarrow> rq_len q = 0"
  by (auto simp: rq_len_def unat_eq_0)

text \<open>What a push and a pop come to once the swap is not disturbed.\<close>

definition push_result :: "ring_queue \<Rightarrow> int \<Rightarrow> bool \<times> ring_queue" where
  "push_result q x =
     (if rq_len q < 65536
      then (True, q\<lparr>tail := tail q + 1, buffer := (buffer q)[cell (tail q) := x],
                    push_count := push_count q + 1\<rparr>)
      else (False, q\<lparr>push_fail_count := push_fail_count q + 1\<rparr>))"

definition pop_result :: "ring_queue \<Rightarrow> int \<Rightarrow> bool \<times> ring_queue \<times> int" where
  "pop_result q v =
     (if rq_len q = 0 then (False, q, v)
      else (True, q\<lparr>head := head q + 1, pop_count := pop_count q + 1\<rparr>, buffer q ! cell (head q)))"

lemma push_loop_returns:
  "\<not> spur (i + k) \<Longrightarrow> push_loop spur i q x = Some (push_result q x)"
proof (induction k arbitrary: i)
  case 0
  then show ?case
    by (subst push_loop.simps) (auto simp: push_result_def not_full_iff [symmetric])
next
  case (Suc k)
  then have "push_loop spur (Suc i) q x = Some (push_result q x)" by simp
  then show ?case
    by (subst push_loop.simps) (auto simp: push_result_def not_full_iff [symmetric])
qed

lemma pop_loop_nonempty:
  "\<not> spur (i + k) \<Longrightarrow> rq_len q \<noteq> 0 \<Longrightarrow> pop_loop spur i q v = Some (pop_result q v)"
proof (induction k arbitrary: i v)
  case 0
  then show ?case
    by (subst pop_loop.simps) (auto simp: pop_result_def empty_iff)
next
  case (Suc k)
  then have "pop_loop spur (Suc i) q (buffer q ! cell (head q))
      = Some (pop_result q (buffer q ! cell (head q)))" by simp
  then show ?case
    using Suc.prems(2) by (subst pop_loop.simps) (auto simp: pop_result_def empty_iff)
qed

lemma pop_loop_returns:
  "\<not> spur (i + k) \<Longrightarrow> pop_loop spur i q v = Some (pop_result q v)"
proof (cases "rq_len q = 0")
  case True
  then show ?thesis by (subst pop_loop.simps) (simp add: pop_result_def empty_iff)
next
  case False
  then show "\<not> spur (i + k) \<Longrightarrow> ?thesis" by (rule pop_loop_nonempty [rotated])
qed

lemma rq_len_push: "rq_len q < 65536 \<Longrightarrow> rq_len (q\<lparr>tail := tail q + 1, buffer := b, push_count := c\<rparr>) = Suc (rq_len q)"
proof -
  assume len: "rq_len q < 65536"
  have "unat (tail q - head q + 1) = Suc (unat (tail q - head q))"
    using len by (simp add: rq_len_def unat_word_ariths)
  then show ?thesis by (simp add: rq_len_def algebra_simps)
qed

lemma push_result_contents:
  assumes wf: "rq_wf q" and room: "rq_len q < 65536"
  shows "rq_contents (snd (push_result q x)) = rq_contents q @ [x]"
proof -
  let ?p = "(unat (head q) + rq_len q) mod 65536"
  have other: "(unat (head q) + i) mod 65536 \<noteq> ?p" if "i < rq_len q" for i
  proof
    assume "(unat (head q) + i) mod 65536 = ?p"
    then have "(unat (head q) + rq_len q - (unat (head q) + i)) mod 65536 = 0"
      using that by (metis mod_eq_dvd_iff_nat add_le_cancel_left dvd_imp_mod_0 less_imp_le_nat)
    then show False using that room by simp
  qed
  have keep: "window 65536 ((buffer q)[?p := x]) (unat (head q)) (rq_len q)
      = window 65536 (buffer q) (unat (head q)) (rq_len q)"
    by (rule window_cong) (simp add: other [symmetric])
  show ?thesis
    using room wf
    by (simp add: rq_contents_def push_result_def rq_len_push window_Suc keep cell_tail rq_wf_def)
qed

lemma push_result_wf: "rq_wf q \<Longrightarrow> rq_wf (snd (push_result q x))"
  by (auto simp: push_result_def rq_wf_def rq_len_push) (simp add: rq_len_def)

lemma rq_len_pop: "rq_len q \<noteq> 0 \<Longrightarrow> rq_len (q\<lparr>head := head q + 1, pop_count := c\<rparr>) = rq_len q - 1"
proof -
  assume "rq_len q \<noteq> 0"
  then have "(1::u32) \<le> tail q - head q"
    by (simp add: rq_len_def word_le_nat_alt)
  then have "unat (tail q - head q - 1) = unat (tail q - head q) - 1"
    by (simp add: unat_sub)
  then show ?thesis by (simp add: rq_len_def algebra_simps)
qed

lemma pop_result_contents:
  assumes "rq_len q \<noteq> 0"
  shows "rq_contents q = snd (snd (pop_result q v)) # rq_contents (fst (snd (pop_result q v)))"
proof -
  have "window 65536 (buffer q) (unat (head q + 1)) n = window 65536 (buffer q) (unat (head q) + 1) n" for n
    using window_mod [of 65536 "buffer q" "unat (head q + 1)" n]
      window_mod [of 65536 "buffer q" "unat (head q) + 1" n] unat_head_step [of q 1] by simp
  with assms show ?thesis
    by (simp add: rq_contents_def pop_result_def rq_len_pop cell_mod window_hd [of "rq_len q"])
qed

lemma pop_result_wf: "rq_wf q \<Longrightarrow> rq_wf (fst (snd (pop_result q v)))"
  by (auto simp: pop_result_def rq_wf_def rq_len_pop)

section \<open>Batches\<close>

text \<open>\<open>b'\<close> is the ring \<open>b\<close> with \<open>xs\<close> written from position \<open>p\<close> on, and nothing else changed.\<close>

definition ring_written :: "nat \<Rightarrow> 'a list \<Rightarrow> 'a list \<Rightarrow> 'a list \<Rightarrow> bool" where
  "ring_written p xs b b' \<longleftrightarrow> length b' = length b
     \<and> (\<forall>i < length xs. b' ! ((p + i) mod length b) = xs ! i)
     \<and> (\<forall>j < length b. (\<forall>i < length xs. (p + i) mod length b \<noteq> j) \<longrightarrow> b' ! j = b ! j)"

lemma mod_shift_inj:
  assumes "i \<le> j" and "j - i < N" and "(p + i) mod N = (p + j) mod (N::nat)"
  shows "i = j"
proof -
  have "(p + j - (p + i)) mod N = 0"
    using assms by (metis mod_eq_dvd_iff_nat add_le_cancel_left dvd_imp_mod_0)
  then show ?thesis using assms(1,2) by simp
qed

lemma window_ring_written:
  assumes "ring_written ((s + n) mod length b) xs b b'" and "n + length xs \<le> length b" and "length b = N"
  shows "window N b' s (n + length xs) = window N b s n @ xs"
proof (rule nth_equalityI)
  show "length (window N b' s (n + length xs)) = length (window N b s n @ xs)" by simp
next
  fix i
  assume "i < length (window N b' s (n + length xs))"
  then have i: "i < n + length xs" by simp
  show "window N b' s (n + length xs) ! i = (window N b s n @ xs) ! i"
  proof (cases "i < n")
    case True
    have "(s + i) mod N \<noteq> ((s + n) mod N + k) mod N" if "k < length xs" for k
    proof
      assume "(s + i) mod N = ((s + n) mod N + k) mod N"
      then have "(s + i) mod N = (s + (n + k)) mod N"
        by (simp add: mod_add_left_eq add.assoc)
      then have "i = n + k"
        using mod_shift_inj [of i "n + k" N s] True that assms(2,3) by linarith
      with True show False by simp
    qed
    then have "b' ! ((s + i) mod N) = b ! ((s + i) mod N)"
      using assms i True unfolding ring_written_def
      by (metis add_leD1 le_zero_eq length_0_conv less_nat_zero_code mod_less_divisor not_gr_zero order_less_le_trans)
    with True i show ?thesis by (simp add: nth_append)
  next
    case False
    then obtain k where k: "i = n + k" by (metis le_Suc_ex not_less)
    then have "b' ! (((s + n) mod N + k) mod N) = xs ! k"
      using assms i unfolding ring_written_def by simp
    moreover have "((s + n) mod N + k) mod N = (s + i) mod N"
      using k by (simp add: mod_add_left_eq add.assoc)
    ultimately show ?thesis using k i by (simp add: nth_append)
  qed
qed

text \<open>Both parts of the copy together write the ring, whether or not it wraps.\<close>

lemma ring_write_one:
  assumes "p + length xs \<le> length b"
  shows "ring_written p xs b (blit p xs b)"
proof -
  have "\<exists>i < length xs. p + i = j" if "p \<le> j" and "j < p + length xs" for j
    using that by (intro exI [of _ "j - p"]) auto
  then show ?thesis
    using assms by (auto simp: ring_written_def nth_blit)
qed

lemma ring_write_two:
  assumes b: "length b = N" and p: "p < N" and xs: "length xs = N - p" and ys: "length ys \<le> p"
  shows "ring_written p (xs @ ys) b (blit 0 ys (blit p xs b))"
proof -
  have at: "blit 0 ys (blit p xs b) ! j =
      (if j < length ys then ys ! j else if p \<le> j then xs ! (j - p) else b ! j)" if "j < N" for j
    using that b p xs ys by (auto simp: nth_blit)
  have pos: "(p + i) mod N = (if i < length xs then p + i else i - length xs)"
    if "i < length xs + length ys" for i
    using that p xs ys by (auto simp: mod_if)
  have hit: "blit 0 ys (blit p xs b) ! ((p + i) mod N) = (xs @ ys) ! i"
    if "i < length (xs @ ys)" for i
    using that p xs ys by (auto simp: at pos nth_append)
  have miss: "blit 0 ys (blit p xs b) ! j = b ! j"
    if j: "j < N" and no: "\<forall>i < length (xs @ ys). (p + i) mod N \<noteq> j" for j
  proof -
    have "\<not> j < length ys"
    proof
      assume "j < length ys"
      then show False using no [rule_format, of "length xs + j"] pos [of "length xs + j"] by simp
    qed
    moreover have "\<not> p \<le> j"
    proof
      assume "p \<le> j"
      then have "j - p < length xs" and "(p + (j - p)) mod N = j" using j xs by auto
      then show False using no [rule_format, of "j - p"] by simp
    qed
    ultimately show ?thesis using at [OF j] by simp
  qed
  show ?thesis
    unfolding ring_written_def using b p xs ys hit miss by simp
qed

lemma ring_write_spec:
  assumes b: "length b = 65536" and idx: "unat index < 65536" and n: "unat n \<le> 65536"
    and items: "unat n \<le> length items"
  obtains b' where "ring_write index n items b = Inr b'"
    and "ring_written (unat index) (take (unat n) items) b b'"
proof -
  have fc: "unat (RING_QUEUE_SIZE - index) = 65536 - unat index"
    using idx by (simp add: RING_QUEUE_SIZE_def unat_sub word_le_nat_alt)
  show ?thesis
  proof (cases "n \<le> RING_QUEUE_SIZE - index")
    case True
    then have "unat index + unat n \<le> 65536" using fc idx by (simp add: word_le_nat_alt)
    then show ?thesis
      using that [of "blit (unat index) (take (unat n) items) b"] True b items
        ring_write_one [of "unat index" "take (unat n) items" b]
      by (simp add: ring_write_def)
  next
    case False
    let ?f = "65536 - unat index"
    have rest: "unat (n - (RING_QUEUE_SIZE - index)) = unat n - ?f"
      using False fc by (simp add: unat_sub word_le_nat_alt)
    have lt: "?f < unat n" using False fc by (simp add: word_le_nat_alt)
    have split: "take (unat n) items = take ?f items @ slice ?f (unat n - ?f) items"
      using lt slice_append [of 0 ?f "unat n - ?f" items] by simp
    have "ring_written (unat index) (take (unat n) items) b
        (blit 0 (slice ?f (unat n - ?f) items) (blit (unat index) (take ?f items) b))"
      unfolding split using b idx n lt items by (intro ring_write_two [where N = 65536]) auto
    then show ?thesis
      using that False b items n lt idx by (simp add: ring_write_def fc rest)
  qed
qed

lemma ring_read_spec:
  assumes b: "length b = 65536" and idx: "unat index < 65536" and n: "unat n \<le> 65536"
    and items: "unat n \<le> length items"
  shows "ring_read index n b items = Inr (window 65536 b (unat index) (unat n) @ drop (unat n) items)"
proof -
  have fc: "unat (RING_QUEUE_SIZE - index) = 65536 - unat index"
    using idx by (simp add: RING_QUEUE_SIZE_def unat_sub word_le_nat_alt)
  show ?thesis
  proof (cases "n \<le> RING_QUEUE_SIZE - index")
    case True
    then have le: "unat index + unat n \<le> 65536" using fc idx by (simp add: word_le_nat_alt)
    then have "slice (unat index) (unat n) b = window 65536 b (unat index) (unat n)"
      using b by (intro nth_equalityI) auto
    then show ?thesis
      using True b items le by (simp add: ring_read_def blit_def)
  next
    case False
    let ?f = "65536 - unat index"
    have rest: "unat (n - (RING_QUEUE_SIZE - index)) = unat n - ?f"
      using False fc by (simp add: unat_sub word_le_nat_alt)
    have lt: "?f < unat n" using False fc by (simp add: word_le_nat_alt)
    have "window 65536 b (unat index) (unat n)
        = slice (unat index) ?f b @ take (unat n - ?f) b"
      using b idx lt n by (intro nth_equalityI) (auto simp: nth_append mod_if add.commute)
    then show ?thesis
      using False b items n lt idx
      by (simp add: ring_read_def fc rest blit_def)
  qed
qed

lemma cell_eq: "unat (i AND RING_QUEUE_MASK) = cell i"
  by (simp add: cell_def)

text \<open>How many elements a batch moves: what was asked for, or what there is room for.\<close>

definition push_count_of :: "ring_queue \<Rightarrow> u32 \<Rightarrow> nat" where
  "push_count_of q count = min (unat count) (65536 - rq_len q)"

definition pop_count_of :: "ring_queue \<Rightarrow> u32 \<Rightarrow> nat" where
  "pop_count_of q count = min (unat count) (rq_len q)"

lemma free_space:
  "rq_len q \<le> 65536 \<Longrightarrow> unat (RING_QUEUE_SIZE - (tail q - head q)) = 65536 - rq_len q"
  by (simp add: rq_len_def RING_QUEUE_SIZE_def unat_sub word_le_nat_alt)

lemma unat_if_less: "unat (if a < b then a else b :: u32) = min (unat a) (unat b)"
  by (auto simp: word_less_nat_alt)

lemma push_batch_result:
  assumes wf: "rq_wf q" and items: "push_count_of q count \<le> length xs" and spur: "\<not> spur"
  obtains q' where "ring_queue_push_batch spur (Ptr q) (Ptr xs) count
      = Inr (of_nat (push_count_of q count), Ptr q')"
    and "rq_wf q'" and "rq_contents q' = rq_contents q @ take (push_count_of q count) xs"
    and "head q' = head q"
proof -
  let ?n = "if count < RING_QUEUE_SIZE - (tail q - head q) then count else RING_QUEUE_SIZE - (tail q - head q)"
  from wf have len: "length (buffer q) = 65536" and le: "rq_len q \<le> 65536" by (auto simp: rq_wf_def)
  have n: "unat ?n = push_count_of q count"
    by (simp only: unat_if_less free_space [OF le] push_count_of_def)
  have n_word: "?n = of_nat (push_count_of q count)"
    by (simp only: n [symmetric] of_nat_unat ucast_id)
  have room: "rq_len q + unat ?n \<le> 65536" using le n by (simp add: push_count_of_def)
  show ?thesis
  proof (cases "push_count_of q count = 0")
    case True
    then have zero: "?n = 0" using n by (simp only: unat_eq_0)
    show ?thesis
    proof (cases "count = 0")
      case True
      then show ?thesis
        using that [of q] wf by (simp add: ring_queue_push_batch_def push_count_of_def)
    next
      case False
      then show ?thesis
        using that [of "q\<lparr>push_fail_count := push_fail_count q + 1\<rparr>"] wf zero True
        by (simp add: ring_queue_push_batch_def Let_def rq_wf_def rq_contents_def rq_len_def)
    qed
  next
    case False
    then have nz: "?n \<noteq> 0" "count \<noteq> 0"
      using n by (auto simp: push_count_of_def)
    obtain b' where b': "ring_write (tail q AND RING_QUEUE_MASK) ?n xs (buffer q) = Inr b'"
      and written: "ring_written (cell (tail q)) (take (unat ?n) xs) (buffer q) b'"
      using ring_write_spec [of "buffer q" "tail q AND RING_QUEUE_MASK" ?n xs] len items n room
      by (auto simp: cell_eq cell_bound)
    let ?q = "q\<lparr>tail := tail q + ?n, buffer := b', push_count := push_count q + ucast ?n\<rparr>"
    have "unat (tail q - head q + ?n) = rq_len q + unat ?n"
      using room by (simp only: unat_word_ariths rq_len_def) simp
    then have len': "rq_len ?q = rq_len q + unat ?n"
      by (simp add: rq_len_def algebra_simps)
    have cont: "rq_contents ?q = rq_contents q @ take (unat ?n) xs"
      using window_ring_written [of "unat (head q)" "rq_len q" "buffer q" "take (unat ?n) xs" b' 65536]
        written len room items n len'
      by (simp add: rq_contents_def cell_tail)
    have "ring_queue_push_batch spur (Ptr q) (Ptr xs) count = Inr (?n, Ptr ?q)"
      using nz spur b' by (simp only: ring_queue_push_batch_def ptr.case Let_def if_False rbind.simps)
    then show ?thesis
      using that [of ?q] n n_word cont len' room written len
      by (simp add: rq_wf_def ring_written_def)
  qed
qed

lemma pop_batch_result:
  assumes wf: "rq_wf q" and items: "pop_count_of q count \<le> length xs" and spur: "\<not> spur"
  obtains q' where "ring_queue_pop_batch spur (Ptr q) (Ptr xs) count
      = Inr (of_nat (pop_count_of q count), Ptr q',
             Ptr (take (pop_count_of q count) (rq_contents q) @ drop (pop_count_of q count) xs))"
    and "rq_wf q'" and "rq_contents q' = drop (pop_count_of q count) (rq_contents q)"
    and "tail q' = tail q"
proof -
  let ?m = "pop_count_of q count"
  let ?n = "if count < tail q - head q then count else tail q - head q"
  from wf have len: "length (buffer q) = 65536" and le: "rq_len q \<le> 65536" by (auto simp: rq_wf_def)
  have n: "unat ?n = ?m"
    by (simp only: unat_if_less rq_len_def [symmetric] pop_count_of_def)
  have n_word: "?n = of_nat ?m"
    by (simp only: n [symmetric] of_nat_unat ucast_id)
  have m_le: "?m \<le> rq_len q" by (simp add: pop_count_of_def)
  show ?thesis
  proof (cases "?m = 0")
    case True
    then have "count = 0 \<or> tail q - head q = 0"
      by (auto simp: pop_count_of_def rq_len_def unat_eq_0 min_def split: if_splits)
    then show ?thesis
      using that [of q] wf True by (auto simp: ring_queue_pop_batch_def)
  next
    case False
    then have nz: "count \<noteq> 0" "tail q - head q \<noteq> 0"
      by (auto simp: pop_count_of_def rq_len_def unat_eq_0)
    have window: "window 65536 (buffer q) (cell (head q)) k = window 65536 (buffer q) (unat (head q)) k" for k
      by (simp add: cell_mod window_mod)
    have take: "window 65536 (buffer q) (unat (head q)) ?m = take ?m (rq_contents q)"
      using m_le by (intro nth_equalityI) (auto simp: rq_contents_def)
    have read: "ring_read (head q AND RING_QUEUE_MASK) ?n (buffer q) xs
        = Inr (take ?m (rq_contents q) @ drop ?m xs)"
      using ring_read_spec [of "buffer q" "head q AND RING_QUEUE_MASK" ?n xs] len items n m_le le
      by (simp add: cell_eq cell_bound window take)
    let ?q = "q\<lparr>head := head q + ?n, pop_count := pop_count q + ucast ?n\<rparr>"
    have "unat (tail q - head q - ?n) = rq_len q - ?m"
      using m_le n by (subst unat_sub) (auto simp: word_le_nat_alt rq_len_def)
    then have len': "rq_len ?q = rq_len q - ?m"
      by (simp add: rq_len_def algebra_simps)
    have "window 65536 (buffer q) (unat (head q + ?n)) (rq_len q - ?m)
        = window 65536 (buffer q) (unat (head q) + ?m) (rq_len q - ?m)"
      by (metis n unat_head_step window_mod)
    then have cont: "rq_contents ?q = drop ?m (rq_contents q)"
      using m_le window_append [of 65536 "buffer q" "unat (head q)" ?m "rq_len q - ?m"]
      by (simp add: rq_contents_def len')
    have "ring_queue_pop_batch spur (Ptr q) (Ptr xs) count
        = Inr (?n, Ptr ?q, Ptr (take ?m (rq_contents q) @ drop ?m xs))"
      using nz spur read by (simp only: ring_queue_pop_batch_def ptr.case Let_def if_False rbind.simps)
    then show ?thesis
      using that [of ?q] n_word cont len' wf by (simp add: rq_wf_def le_diff_conv)
  qed
qed

section \<open>The ring queue is a bounded first-in first-out queue\<close>

text \<open>One operation, whatever swaps are disturbed on the way.\<close>

definition rq_enq :: "(nat \<Rightarrow> bool) \<Rightarrow> ring_queue \<Rightarrow> int \<Rightarrow> bool \<times> ring_queue" where
  "rq_enq spur q x = (case ring_queue_push spur (Ptr q) x of
     Some (b, Ptr q') \<Rightarrow> (b, q') | _ \<Rightarrow> (False, q))"

definition rq_deq :: "(nat \<Rightarrow> bool) \<Rightarrow> ring_queue \<Rightarrow> int option \<times> ring_queue" where
  "rq_deq spur q = (case ring_queue_pop spur (Ptr q) (Ptr 0) of
     Some (b, Ptr q', Ptr v) \<Rightarrow> (if b then Some v else None, q') | _ \<Rightarrow> (None, q))"

definition rq_step :: "(nat \<Rightarrow> bool) \<Rightarrow> ring_queue \<Rightarrow> int qop \<Rightarrow> int qout \<times> ring_queue" where
  "rq_step spur q e = (case e of
     Enq x \<Rightarrow> (case rq_enq spur q x of (b, q') \<Rightarrow> (if b then Accepted else Rejected, q'))
   | Deq \<Rightarrow> (case rq_deq spur q of (r, q') \<Rightarrow> ((case r of None \<Rightarrow> Nothing | Some x \<Rightarrow> Got x), q')))"

text \<open>What the retry loops rely on: not every attempt is disturbed.\<close>

locale weak_cas =
  fixes spur :: "nat \<Rightarrow> bool"
  assumes some_succeeds: "\<exists>i. \<not> spur i"
begin

lemma push_eq: "push_loop spur 0 q x = Some (push_result q x)"
  using some_succeeds push_loop_returns [of spur 0] by auto

lemma pop_eq: "pop_loop spur 0 q v = Some (pop_result q v)"
  using some_succeeds pop_loop_returns [of spur 0] by auto

lemma enq_eq: "rq_enq spur q x = push_result q x"
  by (simp add: rq_enq_def ring_queue_push_def push_eq split: prod.splits)

lemma deq_eq: "rq_deq spur q =
    (if rq_len q = 0 then None else Some (snd (snd (pop_result q 0))), fst (snd (pop_result q 0)))"
  by (simp add: rq_deq_def ring_queue_pop_def pop_eq pop_result_def)

end

sublocale weak_cas \<subseteq> rq: bounded_fifo rq_wf rq_contents 65536 "rq_enq spur" "rq_deq spur"
proof unfold_locales
  fix q x b q'
  assume wf: "rq_wf q" and enq: "rq_enq spur q x = (b, q')"
  show "rq_wf q'" using push_result_wf [OF wf, of x] enq by (simp add: enq_eq)
  show "b \<and> rq_contents q' = rq_contents q @ [x]" if "length (rq_contents q) < 65536"
    using that push_result_contents [OF wf, of x] enq by (auto simp: enq_eq push_result_def)
  show "\<not> b \<and> rq_contents q' = rq_contents q" if "length (rq_contents q) = 65536"
    using that enq by (auto simp: enq_eq push_result_def rq_contents_def rq_len_def)
next
  fix q r q'
  assume wf: "rq_wf q" and deq: "rq_deq spur q = (r, q')"
  show "rq_wf q'" using pop_result_wf [OF wf, of 0] deq by (simp add: deq_eq)
  show "r = Some x \<and> rq_contents q' = xs" if "rq_contents q = x # xs" for x xs
  proof -
    from that have "rq_len q \<noteq> 0" using length_rq_contents [of q] by auto
    with pop_result_contents [of q 0] deq that show ?thesis by (auto simp: deq_eq)
  qed
  show "r = None \<and> rq_contents q' = []" if "rq_contents q = []"
  proof -
    from that have "rq_len q = 0" using length_rq_contents [of q] by simp
    with deq that show ?thesis by (auto simp: deq_eq pop_result_def)
  qed
qed (simp add: rq_wf_def)

text \<open>On x86 the swap is \<open>lock cmpxchg\<close>, which never fails without reason.\<close>

interpretation strong: weak_cas "\<lambda>_. False"
  by unfold_locales simp

context weak_cas
begin

lemma step_eq: "rq.impl_step = rq_step spur"
  by (simp add: fun_eq_iff rq.impl_step_def rq_step_def)

lemmas ring_run_refines = rq.run_refines [unfolded step_eq]
lemmas ring_run_order = rq.run_order [unfolded step_eq]
lemmas ring_run_bounded = rq.run_bounded [unfolded step_eq]

end

end
