(* ===== verification/Kernel.thy ===== *)
theory Kernel
  imports Prelude "HOL-Library.AList"
begin

text \<open>
  The operating system as the three servers see it.

  \<^item> \<open>kernel\<close> holds the answers of the environment, each a function of the time of the call.
    Every definition that makes a system call takes a \<open>kernel\<close> argument, so a theorem holds for
    every behaviour of the environment that the answer types allow.
  \<^item> \<open>world\<close> is the part of the process that the calls change: the heap, the interest lists of
    the epoll instances and the trace of the calls made so far. The time of a call is the length
    of the trace, and every call adds one event, so no two calls share an answer.
  \<^item> Documented behaviour that is built in: \<open>read\<close> returns at most the bytes asked for and
    \<open>write\<close> takes at most the bytes offered; \<open>epoll_wait\<close> reports a registered descriptor
    at most once, with the data it was registered with and only events asked for (or
    \<open>EPOLLERR\<close>/\<open>EPOLLHUP\<close>); \<open>EPOLL_CTL_ADD\<close> of a registered descriptor and
    \<open>EPOLL_CTL_MOD\<close>/\<open>DEL\<close> of an unregistered one fail; \<open>close\<close> drops registrations.
  \<^item> Addresses are never reused, so that a use after \<open>free\<close> is a \<open>UseAfterFree\<close> fault.
\<close>

section \<open>Constants of the platform\<close>

type_synonym errno = int

abbreviation EINTR :: errno where "EINTR \<equiv> 4"
abbreviation EAGAIN :: errno where "EAGAIN \<equiv> 11"
abbreviation EWOULDBLOCK :: errno where "EWOULDBLOCK \<equiv> 11"
abbreviation EEXIST :: errno where "EEXIST \<equiv> 17"
abbreviation EINVAL :: errno where "EINVAL \<equiv> 22"
abbreviation EPIPE :: errno where "EPIPE \<equiv> 32"
abbreviation ENOENT :: errno where "ENOENT \<equiv> 2"

abbreviation EPOLLIN :: u32 where "EPOLLIN \<equiv> 1"
abbreviation EPOLLOUT :: u32 where "EPOLLOUT \<equiv> 4"
abbreviation EPOLLERR :: u32 where "EPOLLERR \<equiv> 8"
abbreviation EPOLLHUP :: u32 where "EPOLLHUP \<equiv> 16"
abbreviation EPOLLRDHUP :: u32 where "EPOLLRDHUP \<equiv> 8192"
abbreviation EPOLLET :: u32 where "EPOLLET \<equiv> 2147483648"

abbreviation O_NONBLOCK :: u32 where "O_NONBLOCK \<equiv> 2048"

section \<open>Answers, calls and the world\<close>

record kernel =
  k_alloc :: "nat \<Rightarrow> bool"
  k_ok :: "nat \<Rightarrow> errno option"
  k_flags :: "nat \<Rightarrow> errno + u32"
  k_newfd :: "nat \<Rightarrow> errno + nat"
  k_read :: "nat \<Rightarrow> errno + u8 list"
  k_write :: "nat \<Rightarrow> errno + nat"
  k_poll :: "nat \<Rightarrow> errno + (fd \<times> u32) list"
  k_clock :: "nat \<Rightarrow> u64 \<times> u64"
  k_spur :: "nat \<Rightarrow> bool"
  k_submit :: "nat \<Rightarrow> int"
  k_events :: "nat \<Rightarrow> errno + nat"

datatype sysev =
    SysAlloc "addr option"
  | SysFree addr
  | SysClose fd
  | SysEpollCreate "errno + nat"
  | SysEpollAdd fd fd u32 bool
  | SysEpollMod fd fd u32 bool
  | SysEpollDel fd fd bool
  | SysEpollWait fd
  | SysGetFlags fd bool
  | SysSetFlags fd u32 bool
  | SysRead fd "errno + u8 list"
  | SysWrite fd "errno + u8 list"
  | SysClock
  | SysCas bool
  | SysSocket "errno + nat"
  | SysSetsockopt fd bool
  | SysBind fd int bool
  | SysListen fd int bool
  | SysAccept fd "errno + nat"
  | SysThread bool
  | SysJoin
  | SysSleep
  | SysBlock bool
  | SysFreeBlock
  | SysEventfd "errno + nat"
  | SysNotify fd
  | SysIoSetup bool
  | SysIoDestroy
  | SysIoSubmit fd int
  | SysIoEvents
  | SysCancel

record ('o, 'd) world =
  heap :: "addr \<Rightarrow> 'o option"
  next_addr :: addr
  interest :: "fd \<Rightarrow> fd \<Rightarrow> ('d \<times> u32) option"
  trace :: "sysev list"

definition now :: "('o, 'd) world \<Rightarrow> nat" where
  "now w = length (trace w)"

definition emit :: "sysev \<Rightarrow> ('o, 'd) world \<Rightarrow> ('o, 'd) world" where
  "emit e w = w\<lparr>trace := trace w @ [e]\<rparr>"

section \<open>Memory\<close>

definition load :: "addr \<Rightarrow> ('o, 'd) world \<Rightarrow> 'o res" where
  "load a w = (case heap w a of None \<Rightarrow> Inl UseAfterFree | Some c \<Rightarrow> Inr c)"

definition store :: "addr \<Rightarrow> 'o \<Rightarrow> ('o, 'd) world \<Rightarrow> ('o, 'd) world res" where
  "store a c w = (case heap w a of
     None \<Rightarrow> Inl UseAfterFree | Some _ \<Rightarrow> Inr (w\<lparr>heap := (heap w)(a \<mapsto> c)\<rparr>))"

text \<open>\<open>calloc\<close>/\<open>malloc\<close> of a block that holds \<open>c\<close>: a fresh address, or \<open>NULL\<close>.\<close>

definition sys_alloc :: "kernel \<Rightarrow> 'o \<Rightarrow> ('o, 'd) world \<Rightarrow> addr ptr \<times> ('o, 'd) world" where
  "sys_alloc K c w =
     (if k_alloc K (now w)
      then (Ptr (next_addr w),
            emit (SysAlloc (Some (next_addr w)))
              (w\<lparr>heap := (heap w)(next_addr w \<mapsto> c), next_addr := next_addr w + 1\<rparr>))
      else (NULL, emit (SysAlloc None) w))"

definition sys_free :: "addr \<Rightarrow> ('o, 'd) world \<Rightarrow> ('o, 'd) world res" where
  "sys_free a w = (case heap w a of
     None \<Rightarrow> Inl DoubleFree
   | Some _ \<Rightarrow> Inr (emit (SysFree a) (w\<lparr>heap := (heap w)(a := None)\<rparr>)))"

text \<open>Allocation of a block that the model keeps as a value: only whether it succeeds.\<close>

definition sys_block :: "kernel \<Rightarrow> ('o, 'd) world \<Rightarrow> bool \<times> ('o, 'd) world" where
  "sys_block K w = (k_alloc K (now w), emit (SysBlock (k_alloc K (now w))) w)"

section \<open>Descriptors\<close>

definition sys_close :: "fd \<Rightarrow> ('o, 'd) world \<Rightarrow> ('o, 'd) world" where
  "sys_close f w = emit (SysClose f)
     (w\<lparr>interest := (\<lambda>ep g. if ep = f \<or> g = f then None else interest w ep g)\<rparr>)"

text \<open>A call that returns 0, or -1 with an \<open>errno\<close>.\<close>

definition sys_ok :: "kernel \<Rightarrow> (bool \<Rightarrow> sysev) \<Rightarrow> ('o, 'd) world \<Rightarrow> errno option \<times> ('o, 'd) world" where
  "sys_ok K ev w = (k_ok K (now w), emit (ev (k_ok K (now w) = None)) w)"

text \<open>A call that returns a new descriptor.\<close>

definition sys_newfd ::
  "kernel \<Rightarrow> (errno + nat \<Rightarrow> sysev) \<Rightarrow> ('o, 'd) world \<Rightarrow> (errno + fd) \<times> ('o, 'd) world" where
  "sys_newfd K ev w =
     ((case k_newfd K (now w) of Inl e \<Rightarrow> Inl e | Inr n \<Rightarrow> Inr (int n)), emit (ev (k_newfd K (now w))) w)"

definition sys_getfl :: "kernel \<Rightarrow> fd \<Rightarrow> ('o, 'd) world \<Rightarrow> (errno + u32) \<times> ('o, 'd) world" where
  "sys_getfl K f w = (k_flags K (now w), emit (SysGetFlags f (\<not> isl (k_flags K (now w)))) w)"

definition sys_setfl :: "kernel \<Rightarrow> fd \<Rightarrow> u32 \<Rightarrow> ('o, 'd) world \<Rightarrow> errno option \<times> ('o, 'd) world" where
  "sys_setfl K f fl = sys_ok K (SysSetFlags f fl)"

definition sys_read ::
  "kernel \<Rightarrow> fd \<Rightarrow> nat \<Rightarrow> ('o, 'd) world \<Rightarrow> (errno + u8 list) \<times> ('o, 'd) world" where
  "sys_read K f n w =
     (let r = (case k_read K (now w) of Inl e \<Rightarrow> Inl e | Inr bs \<Rightarrow> Inr (take n bs))
      in (r, emit (SysRead f r) w))"

text \<open>The trace keeps the bytes that \<open>write\<close> took.\<close>

definition sys_write ::
  "kernel \<Rightarrow> fd \<Rightarrow> u8 list \<Rightarrow> ('o, 'd) world \<Rightarrow> (errno + nat) \<times> ('o, 'd) world" where
  "sys_write K f bs w = (case k_write K (now w) of
     Inl e \<Rightarrow> (Inl e, emit (SysWrite f (Inl e)) w)
   | Inr n \<Rightarrow> (Inr (min n (length bs)), emit (SysWrite f (Inr (take n bs))) w))"

definition sys_clock :: "kernel \<Rightarrow> ('o, 'd) world \<Rightarrow> (u64 \<times> u64) \<times> ('o, 'd) world" where
  "sys_clock K w = (k_clock K (now w), emit SysClock w)"

definition sys_cas :: "kernel \<Rightarrow> ('o, 'd) world \<Rightarrow> bool \<times> ('o, 'd) world" where
  "sys_cas K w = (k_spur K (now w), emit (SysCas (k_spur K (now w))) w)"

section \<open>epoll\<close>

definition set_interest ::
  "fd \<Rightarrow> fd \<Rightarrow> ('d \<times> u32) option \<Rightarrow> ('o, 'd) world \<Rightarrow> ('o, 'd) world" where
  "set_interest ep f v w = w\<lparr>interest := (interest w)(ep := (interest w ep)(f := v))\<rparr>"

definition sys_epoll_add ::
  "kernel \<Rightarrow> fd \<Rightarrow> fd \<Rightarrow> 'd \<Rightarrow> u32 \<Rightarrow> ('o, 'd) world \<Rightarrow> errno option \<times> ('o, 'd) world" where
  "sys_epoll_add K ep f d ev w =
     (let err = (if interest w ep f \<noteq> None then Some EEXIST else k_ok K (now w));
          w' = emit (SysEpollAdd ep f ev (err = None)) w
      in (err, if err = None then set_interest ep f (Some (d, ev)) w' else w'))"

definition sys_epoll_mod ::
  "kernel \<Rightarrow> fd \<Rightarrow> fd \<Rightarrow> 'd \<Rightarrow> u32 \<Rightarrow> ('o, 'd) world \<Rightarrow> errno option \<times> ('o, 'd) world" where
  "sys_epoll_mod K ep f d ev w =
     (let err = (if interest w ep f = None then Some ENOENT else k_ok K (now w));
          w' = emit (SysEpollMod ep f ev (err = None)) w
      in (err, if err = None then set_interest ep f (Some (d, ev)) w' else w'))"

definition sys_epoll_del ::
  "kernel \<Rightarrow> fd \<Rightarrow> fd \<Rightarrow> ('o, 'd) world \<Rightarrow> errno option \<times> ('o, 'd) world" where
  "sys_epoll_del K ep f w =
     (let err = (if interest w ep f = None then Some ENOENT else k_ok K (now w));
          w' = emit (SysEpollDel ep f (err = None)) w
      in (err, if err = None then set_interest ep f None w' else w'))"

text \<open>The events of one descriptor that may be reported: those asked for, errors and hang-ups.\<close>

definition reported :: "u32 \<Rightarrow> u32 \<Rightarrow> u32" where
  "reported msk fl = fl AND (msk OR EPOLLERR OR EPOLLHUP) AND NOT EPOLLET"

definition ready ::
  "(fd \<Rightarrow> ('d \<times> u32) option) \<Rightarrow> (fd \<times> u32) list \<Rightarrow> (fd \<times> 'd \<times> u32) list" where
  "ready I evs = List.map_filter (\<lambda>(f, fl). case I f of
     None \<Rightarrow> None
   | Some (d, msk) \<Rightarrow> if reported msk fl = 0 then None else Some (f, d, reported msk fl))
     (AList.clearjunk evs)"

definition sys_epoll_wait ::
  "kernel \<Rightarrow> fd \<Rightarrow> nat \<Rightarrow> ('o, 'd) world \<Rightarrow> (errno + ('d \<times> u32) list) \<times> ('o, 'd) world" where
  "sys_epoll_wait K ep maxev w =
     ((case k_poll K (now w) of
        Inl e \<Rightarrow> Inl e
      | Inr evs \<Rightarrow> Inr (map snd (take maxev (ready (interest w ep) evs)))),
      emit (SysEpollWait ep) w)"

section \<open>Lemmas\<close>

lemma emit_simps [simp]:
  "heap (emit e w) = heap w" "next_addr (emit e w) = next_addr w"
  "interest (emit e w) = interest w" "trace (emit e w) = trace w @ [e]"
  by (simp_all add: emit_def)

lemma set_interest_simps [simp]:
  "heap (set_interest ep f v w) = heap w" "next_addr (set_interest ep f v w) = next_addr w"
  "trace (set_interest ep f v w) = trace w"
  "interest (set_interest ep f v w) = (interest w)(ep := (interest w ep)(f := v))"
  by (simp_all add: set_interest_def)

lemma load_Some [simp]: "heap w a = Some c \<Longrightarrow> load a w = Inr c"
  by (simp add: load_def)

lemma load_eq_Inr: "load a w = Inr c \<longleftrightarrow> heap w a = Some c"
  by (simp add: load_def split: option.splits)

text \<open>The world after a store that is allowed.\<close>

definition put :: "addr \<Rightarrow> 'o \<Rightarrow> ('o, 'd) world \<Rightarrow> ('o, 'd) world" where
  "put a c w = w\<lparr>heap := (heap w)(a \<mapsto> c)\<rparr>"

lemma put_simps [simp]:
  "heap (put a c w) = (heap w)(a \<mapsto> c)" "next_addr (put a c w) = next_addr w"
  "interest (put a c w) = interest w" "trace (put a c w) = trace w" "now (put a c w) = now w"
  by (simp_all add: put_def now_def)

lemma put_put [simp]: "put a c' (put a c w) = put a c' w"
  by (simp add: put_def)

lemma store_Some [simp]: "heap w a = Some c \<Longrightarrow> store a c' w = Inr (put a c' w)"
  by (simp add: store_def put_def)

lemma free_Some [simp]:
  "heap w a = Some c \<Longrightarrow> sys_free a w = Inr (emit (SysFree a) (w\<lparr>heap := (heap w)(a := None)\<rparr>))"
  by (simp add: sys_free_def)

lemma sys_close_simps [simp]:
  "heap (sys_close f w) = heap w" "next_addr (sys_close f w) = next_addr w"
  "trace (sys_close f w) = trace w @ [SysClose f]"
  "interest (sys_close f w) ep g = (if ep = f \<or> g = f then None else interest w ep g)"
  by (simp_all add: sys_close_def)

text \<open>What the bytes of a trace are, per descriptor.\<close>

fun received :: "fd \<Rightarrow> sysev list \<Rightarrow> u8 list" where
  "received f [] = []"
| "received f (SysRead g (Inr bs) # es) = (if f = g then bs else []) @ received f es"
| "received f (_ # es) = received f es"

fun sent :: "fd \<Rightarrow> sysev list \<Rightarrow> u8 list" where
  "sent f [] = []"
| "sent f (SysWrite g (Inr bs) # es) = (if f = g then bs else []) @ sent f es"
| "sent f (_ # es) = sent f es"

lemma received_append [simp]: "received f (xs @ ys) = received f xs @ received f ys"
  by (induction f xs rule: received.induct) auto

lemma sent_append [simp]: "sent f (xs @ ys) = sent f xs @ sent f ys"
  by (induction f xs rule: sent.induct) auto

text \<open>\<open>ready\<close> reports registered descriptors, each once.\<close>

lemma and_not_absorb: "(x AND y AND z) AND NOT y = (0 :: u32)"
  by (rule bit_eqI) (auto simp: bit_simps)

lemma reported_subset: "reported msk fl AND NOT (msk OR EPOLLERR OR EPOLLHUP) = 0"
  unfolding reported_def by (rule and_not_absorb)

lemma ready_registered:
  assumes "(f, d, fl) \<in> set (ready I evs)"
  obtains msk fl0 where "I f = Some (d, msk)" and "fl = reported msk fl0"
  using assms that by (auto simp: ready_def List.map_filter_def split: option.splits if_splits)

lemma distinct_fst_map_filter:
  "distinct (map fst xs) \<Longrightarrow> (\<And>x y. g x = Some y \<Longrightarrow> fst y = fst x) \<Longrightarrow>
   distinct (map fst (List.map_filter g xs))"
proof (induction xs)
  case Nil
  then show ?case by (simp add: List.map_filter_def)
next
  case (Cons x xs)
  have sub: "set (map fst (List.map_filter g xs)) \<subseteq> set (map fst xs)"
    using Cons.prems(2) by (force simp: List.map_filter_def)
  show ?case
    using Cons sub by (cases "g x") (auto simp: List.map_filter_def)
qed

lemma distinct_ready: "distinct (map fst (ready I evs))"
  unfolding ready_def
  by (rule distinct_fst_map_filter) (auto simp: distinct_clearjunk split: option.splits if_splits)

end
