(* ===== verification/ReactorConn.thy ===== *)
theory ReactorConn
  imports RingQueue Kernel "HOL-Library.Sublist"
begin

text \<open>
  \<open>codes/network/reactor/reactor.c\<close>, the connection handlers of one reactor thread: creating,
  registering, reading, echoing, writing and closing a connection.

  \<^item> \<open>connection\<close> is \<open>connection_t\<close>, \<open>reactor_thread\<close> is \<open>reactor_thread_t\<close>. Every handler of the
    source takes the thread by pointer, here it is part of the state that is passed on, with the
    \<open>world\<close>: \<open>rstate\<close>. A \<open>connection_t *\<close> is an address of the heap of the world.
  \<^item> \<open>conn_stream\<close> is what the connection still owes its peer: the unsent part of the write buffer,
    then the read buffer. The echo lemmas say that nothing else happens to the bytes.
  \<^item> The \<open>while (1)\<close> of \<open>handle_read_event\<close> is a \<^theory_text>\<open>partial_function\<close>; that it
    returns is a lemma.
\<close>

section \<open>State\<close>

definition BUFFER_SIZE :: u32 where "BUFFER_SIZE = 8192"
definition MAX_CONNECTIONS :: nat where "MAX_CONNECTIONS = 100000"

record connection =
  conn_fd :: fd
  conn_state :: int
  read_buf :: "u8 list"
  read_len :: u32
  write_buf :: "u8 list"
  write_len :: u32
  write_sent :: u32
  user_data :: "addr ptr"
  last_active_time :: u64
  conn_thread :: int

record reactor_thread =
  thread_id :: int
  thread_started :: bool
  running :: bool
  epoll_fd :: fd
  connections :: "nat \<Rightarrow> addr ptr"
  connection_count :: u32
  accept_queue :: ring_queue
  total_connections :: u64
  active_connections :: u64
  processed_events :: u64
  batch_processed :: u64

type_synonym rworld = "(connection, addr ptr) world"
type_synonym rstate = "reactor_thread \<times> rworld"

section \<open>Helpers of the source\<close>

definition set_nonblocking :: "kernel \<Rightarrow> fd \<Rightarrow> ('o, 'd) world \<Rightarrow> int \<times> ('o, 'd) world" where
  "set_nonblocking K f w = (case sys_getfl K f w of
     (Inl e, w1) \<Rightarrow> (-1, w1)
   | (Inr flags, w1) \<Rightarrow> (case sys_setfl K f (flags OR O_NONBLOCK) w1 of
       (None, w2) \<Rightarrow> (0, w2) | (Some e, w2) \<Rightarrow> (-1, w2)))"

definition get_current_time_ms :: "kernel \<Rightarrow> ('o, 'd) world \<Rightarrow> u64 \<times> ('o, 'd) world" where
  "get_current_time_ms K w = (case sys_clock K w of
     ((tv_sec, tv_nsec), w1) \<Rightarrow> (tv_sec * 1000 + tv_nsec div 1000000, w1))"

text \<open>The block that \<open>calloc(1, sizeof(connection_t))\<close> returns.\<close>

definition zero_connection :: connection where
  "zero_connection = \<lparr>conn_fd = 0, conn_state = 0, read_buf = replicate 8192 0, read_len = 0,
     write_buf = replicate 8192 0, write_len = 0, write_sent = 0, user_data = NULL,
     last_active_time = 0, conn_thread = 0\<rparr>"

definition connection_create ::
  "kernel \<Rightarrow> fd \<Rightarrow> int \<Rightarrow> rworld \<Rightarrow> (addr ptr \<times> rworld) res" where
  "connection_create K f tid w = (case sys_alloc K zero_connection w of
     (NULL, w1) \<Rightarrow> Inr (NULL, w1)
   | (Ptr a, w1) \<Rightarrow> (case get_current_time_ms K w1 of (t, w2) \<Rightarrow>
       rbind (store a (zero_connection\<lparr>conn_fd := f, conn_thread := tid, conn_state := 0,
           read_len := 0, write_len := 0, write_sent := 0, last_active_time := t\<rparr>) w2)
         (\<lambda>w3. Inr (Ptr a, w3))))"

section \<open>Closing\<close>

text \<open>The loop that clears the slot of a connection, from slot \<open>i\<close> on.\<close>

function clear_slot :: "addr \<Rightarrow> nat \<Rightarrow> reactor_thread \<Rightarrow> reactor_thread" where
  "clear_slot a i t =
     (if i < MAX_CONNECTIONS
      then if connections t i = Ptr a
           then t\<lparr>connections := (connections t)(i := NULL),
                  connection_count := connection_count t - 1,
                  active_connections := active_connections t - 1\<rparr>
           else clear_slot a (Suc i) t
      else t)"
  by pat_completeness auto
termination
  by (relation "measure (\<lambda>(a, i, t). MAX_CONNECTIONS - i)") auto

declare clear_slot.simps [simp del]

definition handle_close_event :: "kernel \<Rightarrow> addr ptr \<Rightarrow> rstate \<Rightarrow> rstate res" where
  "handle_close_event K p st = (case p of
     NULL \<Rightarrow> Inr st
   | Ptr a \<Rightarrow> (case st of (t, w) \<Rightarrow>
      rbind (load a w) (\<lambda>c.
        let w1 = snd (sys_epoll_del K (epoll_fd t) (conn_fd c) w);
            w2 = sys_close (conn_fd c) w1;
            t' = clear_slot a 0 t
        in rbind (sys_free a w2) (\<lambda>w3. Inr (t', w3)))))"

section \<open>Adding\<close>

text \<open>The first free slot from \<open>i\<close> on.\<close>

function first_free :: "(nat \<Rightarrow> addr ptr) \<Rightarrow> nat \<Rightarrow> nat option" where
  "first_free cs i =
     (if i < MAX_CONNECTIONS then if cs i = NULL then Some i else first_free cs (Suc i) else None)"
  by pat_completeness auto
termination
  by (relation "measure (\<lambda>(cs, i). MAX_CONNECTIONS - i)") auto

declare first_free.simps [simp del]

definition thread_add_connection :: "kernel \<Rightarrow> fd \<Rightarrow> rstate \<Rightarrow> (int \<times> rstate) res" where
  "thread_add_connection K f st = (case st of (t, w) \<Rightarrow>
     (case first_free (connections t) 0 of
        None \<Rightarrow> Inr (-1, st)
      | Some i \<Rightarrow> rbind (connection_create K f (thread_id t) w) (\<lambda>(p, w1). case p of
          NULL \<Rightarrow> Inr (-1, t, w1)
        | Ptr a \<Rightarrow> (case set_nonblocking K f w1 of (r, w2) \<Rightarrow>
            if r = -1 then rbind (sys_free a w2) (\<lambda>w3. Inr (-1, t, w3))
            else (case sys_epoll_add K (epoll_fd t) f (Ptr a) (EPOLLIN OR EPOLLET) w2 of
                (Some e, w3) \<Rightarrow> rbind (sys_free a w3) (\<lambda>w4. Inr (-1, t, w4))
              | (None, w3) \<Rightarrow>
                  Inr (0, t\<lparr>connections := (connections t)(i := Ptr a),
                            connection_count := connection_count t + 1,
                            total_connections := total_connections t + 1,
                            active_connections := active_connections t + 1\<rparr>, w3))))))"

section \<open>Reading and echoing\<close>

text \<open>The bytes of the read buffer move to the write buffer when that is empty and they fit.\<close>

definition echo_buffers :: "connection \<Rightarrow> connection res" where
  "echo_buffers c =
     (if write_len c = 0 \<and> write_sent c + read_len c < BUFFER_SIZE
      then rbind (mem_read 0 (unat (read_len c)) (read_buf c)) (\<lambda>bs.
           rbind (memcpy (unat (write_sent c)) bs (write_buf c)) (\<lambda>wb.
           Inr (c\<lparr>write_buf := wb, read_len := 0, write_len := write_len c + read_len c\<rparr>)))
      else Inr c)"

definition handle_add_write :: "kernel \<Rightarrow> addr \<Rightarrow> rstate \<Rightarrow> rstate res" where
  "handle_add_write K a st = (case st of (t, w) \<Rightarrow>
     rbind (load a w) (\<lambda>c.
     rbind (echo_buffers c) (\<lambda>c'.
     rbind (store a c' w) (\<lambda>w1.
     Inr (t, snd (sys_epoll_mod K (epoll_fd t) (conn_fd c') (Ptr a) (EPOLLOUT OR EPOLLET) w1))))))"

text \<open>One pass of the read loop: whether the loop goes on, and the state.\<close>

definition read_pass :: "kernel \<Rightarrow> addr \<Rightarrow> rstate \<Rightarrow> (bool \<times> rstate) res" where
  "read_pass K a st = (case st of (t, w) \<Rightarrow>
     rbind (load a w) (\<lambda>c.
       let remaining = BUFFER_SIZE - read_len c in
       if remaining = 0 then Inr (False, t, w)
       else (case sys_read K (conn_fd c) (unat remaining) w of
           (Inr bs, w1) \<Rightarrow>
             if bs \<noteq> []
             then rbind (memcpy (unat (read_len c)) bs (read_buf c)) (\<lambda>rb.
                  rbind (store a (c\<lparr>read_buf := rb, read_len := read_len c + of_nat (length bs)\<rparr>) w1) (\<lambda>w2.
                  rbind (handle_add_write K a (t, w2)) (\<lambda>st'. Inr (True, st'))))
             else rbind (handle_close_event K (Ptr a) (t, w1)) (\<lambda>st'. Inr (False, st'))
         | (Inl e, w1) \<Rightarrow>
             if e = EAGAIN \<or> e = EWOULDBLOCK then Inr (False, t, w1)
             else rbind (handle_close_event K (Ptr a) (t, w1)) (\<lambda>st'. Inr (False, st')))))"

partial_function (option) handle_read_event :: "kernel \<Rightarrow> addr \<Rightarrow> rstate \<Rightarrow> rstate res option" where
  "handle_read_event K a st = (case read_pass K a st of
     Inl e \<Rightarrow> Some (Inl e)
   | Inr (again, st') \<Rightarrow> if again then handle_read_event K a st' else Some (Inr st'))"

section \<open>Writing\<close>

definition handle_add_read_event :: "kernel \<Rightarrow> addr \<Rightarrow> rstate \<Rightarrow> rstate res" where
  "handle_add_read_event K a st = (case st of (t, w) \<Rightarrow>
     rbind (load a w) (\<lambda>c.
       if write_len c \<le> write_sent c
       then let w1 = snd (sys_epoll_mod K (epoll_fd t) (conn_fd c) (Ptr a) (EPOLLIN OR EPOLLET) w)
            in rbind (store a (c\<lparr>write_len := 0, write_sent := 0\<rparr>) w1) (\<lambda>w2. Inr (t, w2))
       else Inr (t, w)))"

text \<open>The body of the loop of \<open>handle_write_events\<close>, for one connection.\<close>

definition write_one :: "kernel \<Rightarrow> addr ptr \<Rightarrow> rstate \<Rightarrow> rstate res" where
  "write_one K p st = (case p of
     NULL \<Rightarrow> Inr st
   | Ptr a \<Rightarrow> (case st of (t, w) \<Rightarrow>
      rbind (load a w) (\<lambda>c.
        if write_sent c < write_len c
        then rbind (mem_read (unat (write_sent c)) (unat (write_len c - write_sent c)) (write_buf c)) (\<lambda>bs.
          case sys_write K (conn_fd c) bs w of
            (Inr n, w1) \<Rightarrow>
              if 0 < n
              then rbind (store a (c\<lparr>write_sent := write_sent c + of_nat n\<rparr>) w1) (\<lambda>w2.
                   handle_add_read_event K a (t, w2))
              else Inr (t, w1)
          | (Inl e, w1) \<Rightarrow>
              if e = EAGAIN \<or> e = EWOULDBLOCK then Inr (t, w1)
              else handle_close_event K (Ptr a) (t, w1))
        else Inr (t, w))))"

fun handle_write_events :: "kernel \<Rightarrow> addr ptr list \<Rightarrow> rstate \<Rightarrow> rstate res" where
  "handle_write_events K [] st = Inr st"
| "handle_write_events K (p # ps) st = rbind (write_one K p st) (handle_write_events K ps)"

section \<open>Well-formed connections and what they owe\<close>

definition wf_conn :: "connection \<Rightarrow> bool" where
  "wf_conn c \<longleftrightarrow> length (read_buf c) = 8192 \<and> length (write_buf c) = 8192
     \<and> unat (read_len c) \<le> 8192 \<and> unat (write_len c) \<le> 8192 \<and> write_sent c \<le> write_len c"

definition pending :: "connection \<Rightarrow> u8 list" where
  "pending c = slice (unat (write_sent c)) (unat (write_len c) - unat (write_sent c)) (write_buf c)"

definition conn_stream :: "connection \<Rightarrow> u8 list" where
  "conn_stream c = pending c @ take (unat (read_len c)) (read_buf c)"

text \<open>What bounds the read loop: the room that is left, and whether the echo may still empty it.\<close>

definition read_measure :: "connection \<Rightarrow> nat" where
  "read_measure c = (if write_len c = 0 then 8193 else 0) + (8192 - unat (read_len c))"

lemma wf_zero_connection:
  "wf_conn (zero_connection\<lparr>conn_fd := f, conn_thread := tid, conn_state := 0,
     read_len := 0, write_len := 0, write_sent := 0, last_active_time := t\<rparr>)"
  by (simp add: wf_conn_def zero_connection_def)

lemma wf_conn_time [simp]: "wf_conn (c\<lparr>last_active_time := t\<rparr>) = wf_conn c"
  by (simp add: wf_conn_def)

lemma conn_stream_time [simp]: "conn_stream (c\<lparr>last_active_time := t\<rparr>) = conn_stream c"
  by (simp add: conn_stream_def pending_def)

lemma remaining_unat: "unat (read_len c) \<le> 8192 \<Longrightarrow> unat (BUFFER_SIZE - read_len c) = 8192 - unat (read_len c)"
  by (simp add: BUFFER_SIZE_def unat_sub word_le_nat_alt)

lemma remaining_zero: "BUFFER_SIZE = read_len c \<longleftrightarrow> unat (read_len c) = 8192"
  by (auto simp: BUFFER_SIZE_def word_unat_eq_iff)

text \<open>The bytes \<open>bs\<close> that a successful \<open>read\<close> appends.\<close>

definition appended :: "u8 list \<Rightarrow> connection \<Rightarrow> connection" where
  "appended bs c = c\<lparr>read_buf := blit (unat (read_len c)) bs (read_buf c),
                     read_len := read_len c + of_nat (length bs)\<rparr>"

lemma appended_simps [simp]:
  "conn_fd (appended bs c) = conn_fd c" "write_len (appended bs c) = write_len c"
  "write_sent (appended bs c) = write_sent c" "write_buf (appended bs c) = write_buf c"
  "last_active_time (appended bs c) = last_active_time c"
  by (simp_all add: appended_def)

lemma unat_appended:
  "unat (read_len c) + length bs \<le> 8192 \<Longrightarrow>
   unat (read_len (appended bs c)) = unat (read_len c) + length bs"
  by (simp add: appended_def unat_word_ariths unat_of_nat_u32)

lemma wf_appended:
  "wf_conn c \<Longrightarrow> unat (read_len c) + length bs \<le> 8192 \<Longrightarrow> wf_conn (appended bs c)"
  by (simp add: wf_conn_def unat_appended) (simp add: appended_def)

lemma stream_appended:
  "wf_conn c \<Longrightarrow> unat (read_len c) + length bs \<le> 8192 \<Longrightarrow>
   conn_stream (appended bs c) = conn_stream c @ bs"
  by (simp add: conn_stream_def unat_appended pending_def)
     (simp add: appended_def wf_conn_def)

text \<open>The echo step keeps the stream and the room.\<close>

lemma sent_zero: "wf_conn c \<Longrightarrow> write_len c = 0 \<Longrightarrow> write_sent c = 0"
  by (simp add: wf_conn_def)

definition moved :: "connection \<Rightarrow> connection" where
  "moved c = c\<lparr>write_buf := blit 0 (take (unat (read_len c)) (read_buf c)) (write_buf c),
               read_len := 0, write_len := read_len c\<rparr>"

lemma echo_buffers_eq:
  "wf_conn c \<Longrightarrow> echo_buffers c =
   Inr (if write_len c = 0 \<and> unat (read_len c) < 8192 then moved c else c)"
  using sent_zero [of c]
  by (auto simp: echo_buffers_def moved_def wf_conn_def BUFFER_SIZE_def word_less_nat_alt)

lemma wf_moved: "wf_conn c \<Longrightarrow> write_len c = 0 \<Longrightarrow> wf_conn (moved c)"
  using sent_zero [of c] by (simp add: wf_conn_def moved_def)

lemma stream_moved: "wf_conn c \<Longrightarrow> write_len c = 0 \<Longrightarrow> conn_stream (moved c) = conn_stream c"
  using sent_zero [of c]
  by (auto simp: conn_stream_def pending_def moved_def wf_conn_def blit_def)

definition echoed :: "connection \<Rightarrow> connection" where
  "echoed c = (if write_len c = 0 \<and> unat (read_len c) < 8192 then moved c else c)"

lemma echoed_simps [simp]:
  "conn_fd (echoed c) = conn_fd c" "last_active_time (echoed c) = last_active_time c"
  by (simp_all add: echoed_def moved_def)

lemma wf_echoed: "wf_conn c \<Longrightarrow> wf_conn (echoed c)"
  by (simp add: echoed_def wf_moved)

lemma stream_echoed: "wf_conn c \<Longrightarrow> conn_stream (echoed c) = conn_stream c"
  by (simp add: echoed_def stream_moved)

lemma measure_decreases:
  assumes "wf_conn c" and "bs \<noteq> []" and "unat (read_len c) + length bs \<le> 8192"
  shows "read_measure (echoed (appended bs c)) < read_measure c"
proof -
  have len: "unat (read_len (appended bs c)) = unat (read_len c) + length bs"
    by (rule unat_appended [OF assms(3)])
  obtain n where n: "length bs = Suc n" using assms(2) by (cases bs) auto
  then have nz: "read_len (appended bs c) \<noteq> 0" using len by auto
  show ?thesis
    using assms(3) len n nz
    by (auto simp: read_measure_def echoed_def moved_def)
qed

text \<open>A write takes bytes off the front of the stream.\<close>

definition written :: "nat \<Rightarrow> connection \<Rightarrow> connection" where
  "written n c = c\<lparr>write_sent := write_sent c + of_nat n\<rparr>"

definition drained :: "connection \<Rightarrow> connection" where
  "drained c = (if write_len c \<le> write_sent c then c\<lparr>write_len := 0, write_sent := 0\<rparr> else c)"

lemma unat_written:
  "wf_conn c \<Longrightarrow> unat (write_sent c) + n \<le> unat (write_len c) \<Longrightarrow>
   unat (write_sent (written n c)) = unat (write_sent c) + n"
  by (simp add: written_def wf_conn_def unat_word_ariths unat_of_nat_u32)

lemma written_simps [simp]:
  "conn_fd (written n c) = conn_fd c" "write_len (written n c) = write_len c"
  "read_len (written n c) = read_len c" "write_buf (written n c) = write_buf c"
  "read_buf (written n c) = read_buf c" "last_active_time (written n c) = last_active_time c"
  by (simp_all add: written_def)

lemma drained_simps [simp]:
  "conn_fd (drained c) = conn_fd c" "last_active_time (drained c) = last_active_time c"
  "read_len (drained c) = read_len c" "read_buf (drained c) = read_buf c"
  by (simp_all add: drained_def)

lemma wf_written:
  "wf_conn c \<Longrightarrow> unat (write_sent c) + n \<le> unat (write_len c) \<Longrightarrow> wf_conn (written n c)"
  using unat_written [of c n] by (simp add: wf_conn_def word_le_nat_alt)

lemma pending_written:
  assumes "wf_conn c" and "unat (write_sent c) + n \<le> unat (write_len c)"
  shows "pending c = take n (pending c) @ pending (written n c)"
proof -
  have "pending (written n c) = drop n (pending c)"
    using assms by (simp add: pending_def unat_written drop_slice)
  then show ?thesis by simp
qed

lemma wf_drained: "wf_conn c \<Longrightarrow> wf_conn (drained c)"
  by (simp add: wf_conn_def drained_def)

lemma stream_drained: "conn_stream (drained c) = conn_stream c"
  by (auto simp: conn_stream_def pending_def drained_def word_le_nat_alt)

lemma length_pending:
  "wf_conn c \<Longrightarrow> length (pending c) = unat (write_len c) - unat (write_sent c)"
  by (auto simp: pending_def wf_conn_def min_def)

lemma stream_written:
  "wf_conn c \<Longrightarrow> unat (write_sent c) + n \<le> unat (write_len c) \<Longrightarrow>
   conn_stream c = take n (pending c) @ conn_stream (drained (written n c))"
  unfolding stream_drained
  using pending_written [of c n] by (simp add: conn_stream_def)

section \<open>What the handlers come to\<close>

lemma epoll_mod_simps [simp]:
  "heap (snd (sys_epoll_mod K ep f d ev w)) = heap w"
  "next_addr (snd (sys_epoll_mod K ep f d ev w)) = next_addr w"
  "trace (snd (sys_epoll_mod K ep f d ev w)) =
     trace w @ [SysEpollMod ep f ev (fst (sys_epoll_mod K ep f d ev w) = None)]"
  by (simp_all add: sys_epoll_mod_def Let_def)

lemma epoll_del_simps [simp]:
  "heap (snd (sys_epoll_del K ep f w)) = heap w"
  "next_addr (snd (sys_epoll_del K ep f w)) = next_addr w"
  "trace (snd (sys_epoll_del K ep f w)) =
     trace w @ [SysEpollDel ep f (fst (sys_epoll_del K ep f w) = None)]"
  by (simp_all add: sys_epoll_del_def Let_def)

lemma handle_close_eq:
  assumes "heap w a = Some c"
  shows "handle_close_event K (Ptr a) (t, w) = Inr (clear_slot a 0 t,
     emit (SysFree a) ((sys_close (conn_fd c) (snd (sys_epoll_del K (epoll_fd t) (conn_fd c) w)))
       \<lparr>heap := (heap w)(a := None)\<rparr>))"
  using assms by (simp add: handle_close_event_def Let_def)

lemma handle_add_write_eq:
  assumes "heap w a = Some c" and "wf_conn c"
  shows "handle_add_write K a (t, w) = Inr (t, snd (sys_epoll_mod K (epoll_fd t) (conn_fd c) (Ptr a)
      (EPOLLOUT OR EPOLLET) (put a (echoed c) w)))"
  using assms by (simp add: handle_add_write_def echo_buffers_eq echoed_def moved_def)

lemma handle_add_read_eq:
  assumes "heap w a = Some c"
  shows "handle_add_read_event K a (t, w) = Inr (t,
     if write_len c \<le> write_sent c
     then put a (drained c) (snd (sys_epoll_mod K (epoll_fd t) (conn_fd c) (Ptr a) (EPOLLIN OR EPOLLET) w))
     else w)"
  using assms by (simp add: handle_add_read_event_def drained_def Let_def)

text \<open>The read pass, when the connection is alive and well-formed.\<close>

lemma sys_read_cases:
  obtains (data) bs where "sys_read K f n w = (Inr bs, emit (SysRead f (Inr bs)) w)" and "length bs \<le> n"
  | (error) e where "sys_read K f n w = (Inl e, emit (SysRead f (Inl e)) w)"
  by (cases "k_read K (now w)") (auto simp: sys_read_def Let_def)

lemma read_pass_full:
  "heap w a = Some c \<Longrightarrow> wf_conn c \<Longrightarrow> unat (read_len c) = 8192 \<Longrightarrow>
   read_pass K a (t, w) = Inr (False, t, w)"
  by (simp add: read_pass_def Let_def remaining_zero)

text \<open>The state after \<open>read\<close> returned \<open>bs\<close> and the echo step ran.\<close>

definition after_read :: "kernel \<Rightarrow> addr \<Rightarrow> connection \<Rightarrow> u8 list \<Rightarrow> rstate \<Rightarrow> rstate" where
  "after_read K a c bs st = (case st of (t, w) \<Rightarrow>
     (t, snd (sys_epoll_mod K (epoll_fd t) (conn_fd c) (Ptr a) (EPOLLOUT OR EPOLLET)
       (put a (echoed (appended bs c)) (emit (SysRead (conn_fd c) (Inr bs)) w)))))"

lemma read_pass_data:
  assumes heap: "heap w a = Some c" and wf: "wf_conn c" and bs: "bs \<noteq> []"
    and fits: "unat (read_len c) + length bs \<le> 8192"
    and data: "sys_read K (conn_fd c) (unat (BUFFER_SIZE - read_len c)) w = (Inr bs, emit (SysRead (conn_fd c) (Inr bs)) w)"
  shows "read_pass K a (t, w) = Inr (True, after_read K a c bs (t, w))"
proof -
  have "unat (read_len c) \<noteq> 8192" using bs fits by (cases bs) auto
  then have nz: "BUFFER_SIZE \<noteq> read_len c" by (simp add: remaining_zero)
  have len: "length (read_buf c) = 8192" using wf by (simp add: wf_conn_def)
  have eq: "c\<lparr>read_buf := blit (unat (read_len c)) bs (read_buf c),
      read_len := read_len c + word_of_nat (length bs)\<rparr> = appended bs c"
    by (simp add: appended_def)
  show ?thesis
    using bs data nz heap fits len wf_appended [OF wf fits]
    by (simp add: read_pass_def Let_def eq handle_add_write_eq after_read_def)
qed

lemma read_pass_cases:
  assumes heap: "heap w a = Some c" and wf: "wf_conn c"
  obtains (full) "read_pass K a (t, w) = Inr (False, t, w)" and "unat (read_len c) = 8192"
  | (again) bs where "bs \<noteq> []" and "unat (read_len c) + length bs \<le> 8192"
      and "read_pass K a (t, w) = Inr (True, after_read K a c bs (t, w))"
  | (wait) e where "read_pass K a (t, w) = Inr (False, t, emit (SysRead (conn_fd c) (Inl e)) w)"
      and "e = EAGAIN"
  | (closed) r st' where "handle_close_event K (Ptr a) (t, emit (SysRead (conn_fd c) r) w) = Inr st'"
      and "read_pass K a (t, w) = Inr (False, st')" and "r = Inr [] \<or> (\<exists>e. r = Inl e \<and> e \<noteq> EAGAIN)"
proof (cases "unat (read_len c) = 8192")
  case True
  then show ?thesis using full read_pass_full [OF heap wf] by blast
next
  case False
  then have nz: "BUFFER_SIZE \<noteq> read_len c" by (simp add: remaining_zero)
  have room: "unat (BUFFER_SIZE - read_len c) = 8192 - unat (read_len c)" "unat (read_len c) \<le> 8192"
    using wf remaining_unat [of c] by (auto simp: wf_conn_def)
  show ?thesis
  proof (cases rule: sys_read_cases [of K "conn_fd c" "unat (BUFFER_SIZE - read_len c)" w])
    case (data bs)
    show ?thesis
    proof (cases "bs = []")
      case True
      obtain st' where st': "handle_close_event K (Ptr a) (t, emit (SysRead (conn_fd c) (Inr [])) w) = Inr st'"
        using handle_close_eq [of "emit (SysRead (conn_fd c) (Inr [])) w" a c K t] heap by simp
      then have "read_pass K a (t, w) = Inr (False, st')"
        using True data nz heap by (simp add: read_pass_def Let_def)
      then show ?thesis using closed [OF st'] by simp
    next
      case False
      have fits: "unat (read_len c) + length bs \<le> 8192" using data(2) room by simp
      have "read_pass K a (t, w) = Inr (True, after_read K a c bs (t, w))"
        by (rule read_pass_data [OF heap wf False fits data(1)])
      then show ?thesis by (rule again [OF False fits])
    qed
  next
    case (error e)
    show ?thesis
    proof (cases "e = EAGAIN")
      case True
      then show ?thesis using wait [of e] error nz heap by (simp add: read_pass_def Let_def)
    next
      case False
      obtain st' where st': "handle_close_event K (Ptr a) (t, emit (SysRead (conn_fd c) (Inl e)) w) = Inr st'"
        using handle_close_eq [of "emit (SysRead (conn_fd c) (Inl e)) w" a c K t] heap by simp
      then have "read_pass K a (t, w) = Inr (False, st')"
        using False error nz heap by (simp add: read_pass_def Let_def)
      then show ?thesis using closed [OF st'] False by simp
    qed
  qed
qed

text \<open>Total correctness of the read loop: an invariant \<open>Q\<close> that keeps the connection alive and
  well-formed, and \<open>R\<close> where the loop stops.\<close>

lemma read_loop_rule:
  assumes start: "Q st"
    and alive: "\<And>t w. Q (t, w) \<Longrightarrow> \<exists>c. heap w a = Some c \<and> wf_conn c"
    and again: "\<And>t w c bs. Q (t, w) \<Longrightarrow> heap w a = Some c \<Longrightarrow> wf_conn c \<Longrightarrow> bs \<noteq> [] \<Longrightarrow>
        unat (read_len c) + length bs \<le> 8192 \<Longrightarrow> Q (after_read K a c bs (t, w))"
    and full: "\<And>t w c. Q (t, w) \<Longrightarrow> heap w a = Some c \<Longrightarrow> R (t, w)"
    and wait: "\<And>t w c e. Q (t, w) \<Longrightarrow> heap w a = Some c \<Longrightarrow> R (t, emit (SysRead (conn_fd c) (Inl e)) w)"
    and close: "\<And>t w c r st'. Q (t, w) \<Longrightarrow> heap w a = Some c \<Longrightarrow> wf_conn c \<Longrightarrow>
        r = Inr [] \<or> (\<exists>e. r = Inl e \<and> e \<noteq> EAGAIN) \<Longrightarrow>
        handle_close_event K (Ptr a) (t, emit (SysRead (conn_fd c) r) w) = Inr st' \<Longrightarrow> R st'"
  shows "\<exists>st'. handle_read_event K a st = Some (Inr st') \<and> R st'"
  using start
proof (induction "case heap (snd st) a of None \<Rightarrow> 0 | Some c \<Rightarrow> read_measure c"
    arbitrary: st rule: less_induct)
  case less
  obtain t w where st: "st = (t, w)" by force
  with less.prems alive obtain c where heap: "heap w a = Some c" and wf: "wf_conn c" by blast
  from heap wf show ?case
  proof (cases rule: read_pass_cases [where K = K and t = t])
    case full
    then show ?thesis
      using assms(4) less.prems heap st by (subst handle_read_event.simps) auto
  next
    case (again bs)
    let ?st = "after_read K a c bs (t, w)"
    have "Q ?st" using assms(3) less.prems heap wf again(1,2) st by blast
    moreover have "(case heap (snd ?st) a of None \<Rightarrow> 0 | Some c \<Rightarrow> read_measure c)
        < (case heap (snd st) a of None \<Rightarrow> 0 | Some c \<Rightarrow> read_measure c)"
      using measure_decreases [OF wf again(1,2)] heap st by (simp add: after_read_def)
    ultimately obtain st' where "handle_read_event K a ?st = Some (Inr st')" and "R st'"
      using less.hyps by blast
    then show ?thesis
      using again(3) st by (subst handle_read_event.simps) simp
  next
    case (wait e)
    then show ?thesis
      using assms(5) less.prems heap st by (subst handle_read_event.simps) auto
  next
    case (closed r st')
    then show ?thesis
      using assms(6) [OF _ heap wf] less.prems st by (subst handle_read_event.simps) auto
  qed
qed

text \<open>The body of the write loop, when the connection is alive and well-formed.\<close>

definition after_write :: "kernel \<Rightarrow> addr \<Rightarrow> connection \<Rightarrow> nat \<Rightarrow> rstate \<Rightarrow> rstate" where
  "after_write K a c n st = (case st of (t, w) \<Rightarrow>
     let w1 = emit (SysWrite (conn_fd c) (Inr (take n (pending c)))) w in
     (t, if unat (write_sent c) + n = unat (write_len c)
         then put a (drained (written n c)) (snd (sys_epoll_mod K (epoll_fd t) (conn_fd c) (Ptr a)
           (EPOLLIN OR EPOLLET) (put a (written n c) w1)))
         else put a (written n c) w1))"

lemma sys_write_cases:
  obtains (data) n where "sys_write K f bs w = (Inr n, emit (SysWrite f (Inr (take n bs))) w)" and "n \<le> length bs"
  | (error) e where "sys_write K f bs w = (Inl e, emit (SysWrite f (Inl e)) w)"
  by (cases "k_write K (now w)") (auto simp: sys_write_def min_def)

lemma put_same [simp]: "heap w a = Some c \<Longrightarrow> put a c w = w"
  by (simp add: put_def fun_upd_idem)

lemma write_one_cases:
  assumes heap: "heap w a = Some c" and wf: "wf_conn c"
  obtains (idle) "write_one K (Ptr a) (t, w) = Inr (t, w)" and "pending c = []"
  | (wrote) n where "0 < n" and "unat (write_sent c) + n \<le> unat (write_len c)"
      and "write_one K (Ptr a) (t, w) = Inr (after_write K a c n (t, w))"
  | (wait) r where "write_one K (Ptr a) (t, w) = Inr (t, emit (SysWrite (conn_fd c) r) w)"
      and "r = Inl EAGAIN \<or> r = Inr []"
  | (closed) e st' where
      "handle_close_event K (Ptr a) (t, emit (SysWrite (conn_fd c) (Inl e)) w) = Inr st'"
      and "write_one K (Ptr a) (t, w) = Inr st'"
proof (cases "write_sent c < write_len c")
  case False
  then have none: "write_one K (Ptr a) (t, w) = Inr (t, w)" and "length (pending c) = 0"
    using heap length_pending [OF wf] by (simp_all add: write_one_def word_less_nat_alt)
  then have "pending c = []" by simp
  then show ?thesis by (rule idle [OF none])
next
  case True
  have sub: "unat (write_len c - write_sent c) = unat (write_len c) - unat (write_sent c)"
    using wf by (simp add: wf_conn_def unat_sub)
  have bs: "mem_read (unat (write_sent c)) (unat (write_len c - write_sent c)) (write_buf c) = Inr (pending c)"
    using wf by (simp add: sub pending_def wf_conn_def word_le_nat_alt)
  have len: "length (pending c) = unat (write_len c) - unat (write_sent c)"
    by (rule length_pending [OF wf])
  show ?thesis
  proof (cases rule: sys_write_cases [of K "conn_fd c" "pending c" w])
    case (data n)
    show ?thesis
    proof (cases "n = 0")
      case True
      with data(1) show ?thesis
        using wait [of "Inr []"] bs heap \<open>write_sent c < write_len c\<close> by (simp add: write_one_def)
    next
      case False
      have n: "unat (write_sent c) + n \<le> unat (write_len c)"
        using data(2) len True by (simp add: word_less_nat_alt)
      have fin: "write_len c \<le> write_sent (written n c) \<longleftrightarrow> unat (write_sent c) + n = unat (write_len c)"
        using unat_written [OF wf n] n by (auto simp: word_le_nat_alt)
      have w: "c\<lparr>write_sent := write_sent c + word_of_nat n\<rparr> = written n c"
        by (simp add: written_def)
      have "write_one K (Ptr a) (t, w) = Inr (after_write K a c n (t, w))"
        using data(1) bs heap True False
        by (simp add: write_one_def w handle_add_read_eq after_write_def fin Let_def)
      then show ?thesis using wrote [of n] False n by simp
    qed
  next
    case (error e)
    show ?thesis
    proof (cases "e = EAGAIN")
      case True
      then show ?thesis
        using wait [of "Inl e"] error bs heap \<open>write_sent c < write_len c\<close> by (simp add: write_one_def)
    next
      case False
      obtain st' where st': "handle_close_event K (Ptr a) (t, emit (SysWrite (conn_fd c) (Inl e)) w) = Inr st'"
        using handle_close_eq [of "emit (SysWrite (conn_fd c) (Inl e)) w" a c K t] heap by simp
      then have "write_one K (Ptr a) (t, w) = Inr st'"
        using False error bs heap True by (simp add: write_one_def)
      then show ?thesis by (rule closed [OF st'])
    qed
  qed
qed

section \<open>The echo relation\<close>

text \<open>From world \<open>w\<close> with connection \<open>c\<close> at \<open>a\<close> to world \<open>w'\<close>: every byte received since is
  sent, or still owed, in order; a connection closed in between has sent a prefix.\<close>

definition echo_post :: "fd \<Rightarrow> addr \<Rightarrow> connection \<Rightarrow> rworld \<Rightarrow> rworld \<Rightarrow> bool" where
  "echo_post f a c w w' \<longleftrightarrow> (\<exists>tr. trace w' = trace w @ tr
     \<and> (case heap w' a of
          Some c' \<Rightarrow> wf_conn c' \<and> conn_fd c' = f
            \<and> conn_stream c @ received f tr = sent f tr @ conn_stream c'
        | None \<Rightarrow> prefix (sent f tr) (conn_stream c @ received f tr)))"

lemma echo_post_refl:
  "heap w a = Some c \<Longrightarrow> wf_conn c \<Longrightarrow> conn_fd c = f \<Longrightarrow> echo_post f a c w w"
  by (auto simp: echo_post_def)

lemma echo_postI:
  assumes "trace w' = trace w @ tr" and "heap w' a = Some c'" and "wf_conn c'" and "conn_fd c' = f"
    and "conn_stream c @ received f tr = sent f tr @ conn_stream c'"
  shows "echo_post f a c w w'"
  using assms by (auto simp: echo_post_def)

lemma echo_post_trans:
  assumes one: "echo_post f a c w w1" and two: "echo_post f a c1 w1 w2" and c1: "heap w1 a = Some c1"
  shows "echo_post f a c w w2"
proof -
  obtain tr1 where tr1: "trace w1 = trace w @ tr1"
    and eq1: "conn_stream c @ received f tr1 = sent f tr1 @ conn_stream c1"
    using one c1 by (auto simp: echo_post_def)
  obtain tr2 where tr2: "trace w2 = trace w1 @ tr2" using two by (auto simp: echo_post_def)
  have eq: "conn_stream c @ received f (tr1 @ tr2) = sent f tr1 @ conn_stream c1 @ received f tr2"
    using eq1 by (metis append.assoc received_append)
  show ?thesis
  proof (cases "heap w2 a")
    case None
    then have "prefix (sent f (tr1 @ tr2)) (conn_stream c @ received f (tr1 @ tr2))"
      unfolding eq using two tr2 by (simp add: echo_post_def)
    then show ?thesis
      using None tr1 tr2 by (auto simp: echo_post_def intro!: exI [of _ "tr1 @ tr2"])
  next
    case (Some c2)
    then show ?thesis
      using two tr1 tr2 eq by (auto simp: echo_post_def intro!: exI [of _ "tr1 @ tr2"])
  qed
qed

text \<open>Each handler keeps the echo relation.\<close>

lemma after_read_echo:
  assumes "heap w a = Some c" and "wf_conn c" and "unat (read_len c) + length bs \<le> 8192"
  shows "echo_post (conn_fd c) a c w (snd (after_read K a c bs (t, w)))"
  using assms by (intro echo_postI [where c' = "echoed (appended bs c)"])
    (auto simp: after_read_def wf_echoed wf_appended stream_echoed stream_appended)

lemma close_echo:
  assumes heap: "heap w a = Some c" and close: "handle_close_event K (Ptr a) (t, w) = Inr (t', w')"
  shows "echo_post f a c w w'"
proof -
  from close have "trace w' = trace w @ [SysEpollDel (epoll_fd t) (conn_fd c)
      (fst (sys_epoll_del K (epoll_fd t) (conn_fd c) w) = None), SysClose (conn_fd c), SysFree a]"
    and "heap w' a = None"
    using handle_close_eq [OF heap, of K t] by auto
  then show ?thesis by (auto simp: echo_post_def)
qed

lemma emit_read_echo:
  assumes "heap w a = Some c" and "wf_conn c" and "r = Inr [] \<or> (\<exists>e. r = Inl e)"
  shows "echo_post (conn_fd c) a c w (emit (SysRead (conn_fd c) r) w)"
  using assms by (intro echo_postI [where c' = c]) auto

lemma emit_write_echo:
  assumes "heap w a = Some c" and "wf_conn c" and "r = Inr [] \<or> (\<exists>e. r = Inl e)"
  shows "echo_post (conn_fd c) a c w (emit (SysWrite (conn_fd c) r) w)"
  using assms by (intro echo_postI [where c' = c]) auto

lemma echo_post_fd: "echo_post f a c w w' \<Longrightarrow> heap w' a = Some c' \<Longrightarrow> conn_fd c' = f"
  by (auto simp: echo_post_def)

lemma handle_read_echo:
  assumes heap: "heap w a = Some c" and wf: "wf_conn c"
  shows "\<exists>t' w'. handle_read_event K a (t, w) = Some (Inr (t', w')) \<and> echo_post (conn_fd c) a c w w'"
proof -
  let ?P = "\<lambda>st. echo_post (conn_fd c) a c w (snd st)"
  let ?Q = "\<lambda>st. ?P st \<and> (\<exists>c'. heap (snd st) a = Some c' \<and> wf_conn c' \<and> conn_fd c' = conn_fd c)"
  have "\<exists>st'. handle_read_event K a (t, w) = Some (Inr st') \<and> ?P st'"
  proof (rule read_loop_rule [where Q = ?Q])
    show "?Q (t, w)" using heap wf by (simp add: echo_post_refl)
  next
    fix t1 :: reactor_thread and w1 c1 and bs :: "u8 list"
    assume Q: "?Q (t1, w1)" and c1: "heap w1 a = Some c1" "wf_conn c1" and "bs \<noteq> []"
      and fits: "unat (read_len c1) + length bs \<le> 8192"
    then have "echo_post (conn_fd c1) a c1 w1 (snd (after_read K a c1 bs (t1, w1)))"
      by (intro after_read_echo)
    moreover have "conn_fd c1 = conn_fd c" using Q c1 by auto
    ultimately have "?P (after_read K a c1 bs (t1, w1))"
      using Q c1(1) by (auto intro: echo_post_trans)
    then show "?Q (after_read K a c1 bs (t1, w1))"
      using c1 fits Q by (auto simp: after_read_def wf_echoed wf_appended)
  next
    fix t1 :: reactor_thread and w1 c1 e
    assume Q: "?Q (t1, w1)" and c1: "heap w1 a = Some c1"
    then have "echo_post (conn_fd c) a c1 w1 (emit (SysRead (conn_fd c1) (Inl e)) w1)"
      using emit_read_echo [of w1 a c1 "Inl e"] by auto
    then show "?P (t1, emit (SysRead (conn_fd c1) (Inl e)) w1)"
      using Q c1 by (auto intro: echo_post_trans)
  next
    fix t1 :: reactor_thread and w1 c1 r st'
    assume Q: "?Q (t1, w1)" and c1: "heap w1 a = Some c1" "wf_conn c1"
      and r: "r = Inr [] \<or> (\<exists>e. r = Inl e \<and> e \<noteq> EAGAIN)"
      and close: "handle_close_event K (Ptr a) (t1, emit (SysRead (conn_fd c1) r) w1) = Inr st'"
    let ?w = "emit (SysRead (conn_fd c1) r) w1"
    have "echo_post (conn_fd c) a c1 w1 ?w"
      using emit_read_echo [of w1 a c1 r] Q c1 r by auto
    then have "echo_post (conn_fd c) a c w ?w"
      using Q c1 by (auto intro: echo_post_trans)
    moreover have "echo_post (conn_fd c) a c1 ?w (snd st')"
      using close_echo [of ?w a c1 K t1 "fst st'" "snd st'"] close c1 by simp
    ultimately show "?P st'" using c1 by (auto intro: echo_post_trans)
  qed auto
  then show ?thesis by auto
qed

lemma after_write_heap:
  "heap (snd (after_write K a c n (t, w))) a = Some (if unat (write_sent c) + n = unat (write_len c)
     then drained (written n c) else written n c)"
  by (simp add: after_write_def Let_def)

lemma after_write_echo:
  assumes heap: "heap w a = Some c" and wf: "wf_conn c"
    and n: "unat (write_sent c) + n \<le> unat (write_len c)"
  shows "echo_post (conn_fd c) a c w (snd (after_write K a c n (t, w)))"
proof -
  let ?c' = "if unat (write_sent c) + n = unat (write_len c) then drained (written n c) else written n c"
  have "conn_stream ?c' = conn_stream (drained (written n c))" by (simp add: stream_drained)
  then have stream: "conn_stream c = take n (pending c) @ conn_stream ?c'"
    using stream_written [OF wf n] by simp
  have "\<exists>tr. trace (snd (after_write K a c n (t, w))) = trace w @ tr
      \<and> received (conn_fd c) tr = [] \<and> sent (conn_fd c) tr = take n (pending c)"
    by (auto simp: after_write_def Let_def)
  then obtain tr where tr: "trace (snd (after_write K a c n (t, w))) = trace w @ tr"
    "received (conn_fd c) tr = []" "sent (conn_fd c) tr = take n (pending c)" by blast
  show ?thesis
    using tr stream wf n
    by (intro echo_postI [OF tr(1) after_write_heap]) (auto simp: wf_written wf_drained)
qed

lemma write_one_echo:
  assumes heap: "heap w a = Some c" and wf: "wf_conn c"
  shows "\<exists>t' w'. write_one K (Ptr a) (t, w) = Inr (t', w') \<and> echo_post (conn_fd c) a c w w'"
  using heap wf
proof (cases rule: write_one_cases [where K = K and t = t])
  case idle
  then show ?thesis using heap wf by (auto intro: echo_post_refl)
next
  case (wrote n)
  obtain t' w' where st: "after_write K a c n (t, w) = (t', w')" by force
  then show ?thesis
    using wrote(3) after_write_echo [OF heap wf wrote(2), of K t] by auto
next
  case (wait r)
  then show ?thesis using emit_write_echo [OF heap wf, of r] by auto
next
  case (closed e st')
  let ?w = "emit (SysWrite (conn_fd c) (Inl e)) w"
  obtain t' w' where st: "st' = (t', w')" by force
  have "echo_post (conn_fd c) a c w ?w" using emit_write_echo [OF heap wf, of "Inl e"] by auto
  moreover have "echo_post (conn_fd c) a c ?w w'"
    using close_echo [of ?w a c K t t' w' "conn_fd c"] closed(1) heap st by simp
  ultimately have "echo_post (conn_fd c) a c w w'" using heap by (auto intro: echo_post_trans)
  with closed(2) st show ?thesis by auto
qed

section \<open>A run of the handlers on one connection\<close>

text \<open>The events that the thread loop dispatches to one connection, until it is closed.\<close>

datatype conn_event = Readable | Writable

definition dispatch :: "kernel \<Rightarrow> addr \<Rightarrow> conn_event \<Rightarrow> rstate \<Rightarrow> rstate res option" where
  "dispatch K a e st = (case e of
     Readable \<Rightarrow> handle_read_event K a st
   | Writable \<Rightarrow> Some (handle_write_events K [Ptr a] st))"

fun serve :: "kernel \<Rightarrow> addr \<Rightarrow> conn_event list \<Rightarrow> rstate \<Rightarrow> rstate res option" where
  "serve K a [] st = Some (Inr st)"
| "serve K a (e # es) st =
     (if heap (snd st) a = None then Some (Inr st)
      else case dispatch K a e st of
          None \<Rightarrow> None
        | Some (Inl f) \<Rightarrow> Some (Inl f)
        | Some (Inr st') \<Rightarrow> serve K a es st')"

lemma dispatch_echo:
  assumes "heap w a = Some c" and "wf_conn c"
  shows "\<exists>t' w'. dispatch K a e (t, w) = Some (Inr (t', w')) \<and> echo_post (conn_fd c) a c w w'"
proof (cases e)
  case Readable
  then show ?thesis using handle_read_echo [OF assms] by (simp add: dispatch_def)
next
  case Writable
  then show ?thesis using write_one_echo [OF assms, of K t] by (auto simp: dispatch_def)
qed

lemma serve_echo_gen:
  "heap w a = Some c \<Longrightarrow> wf_conn c \<Longrightarrow>
   \<exists>t' w'. serve K a es (t, w) = Some (Inr (t', w')) \<and> echo_post (conn_fd c) a c w w'"
proof (induction es arbitrary: t w c)
  case Nil
  then show ?case by (auto intro: echo_post_refl)
next
  case (Cons e es)
  obtain t1 w1 where step: "dispatch K a e (t, w) = Some (Inr (t1, w1))"
    and one: "echo_post (conn_fd c) a c w w1"
    using dispatch_echo [OF Cons.prems, of K e t] by blast
  show ?case
  proof (cases "heap w1 a")
    case None
    then have "serve K a es (t1, w1) = Some (Inr (t1, w1))" by (cases es) auto
    then show ?thesis using step one Cons.prems(1) by auto
  next
    case (Some c1)
    then have wf1: "wf_conn c1" and fd1: "conn_fd c1 = conn_fd c"
      using one by (auto simp: echo_post_def)
    from Cons.IH [OF Some wf1, of t1] obtain t2 w2
      where "serve K a es (t1, w1) = Some (Inr (t2, w2))" and "echo_post (conn_fd c) a c1 w1 w2"
      using fd1 by auto
    then show ?thesis
      using step one Some Cons.prems(1) by (auto intro: echo_post_trans)
  qed
qed

text \<open>A full read buffer that the echo step refused never empties again.\<close>

definition wedged :: "connection \<Rightarrow> bool" where
  "wedged c \<longleftrightarrow> wf_conn c \<and> unat (read_len c) = 8192 \<and> write_len c = 0"

lemma wedged_dispatch:
  assumes "heap w a = Some c" and "wedged c"
  shows "dispatch K a e (t, w) = Some (Inr (t, w))"
proof (cases e)
  case Readable
  have "read_pass K a (t, w) = Inr (False, t, w)"
    using assms by (intro read_pass_full) (auto simp: wedged_def)
  then show ?thesis using Readable by (simp add: dispatch_def) (subst handle_read_event.simps, simp)
next
  case Writable
  then show ?thesis using assms by (simp add: dispatch_def write_one_def wedged_def)
qed

lemma wedged_serve: "heap w a = Some c \<Longrightarrow> wedged c \<Longrightarrow> serve K a es (t, w) = Some (Inr (t, w))"
  by (induction es) (simp_all add: wedged_dispatch)

end
