(* ===== verification/ReactorThread.thy ===== *)
theory ReactorThread
  imports ReactorConn
begin

text \<open>
  \<open>codes/network/reactor/reactor.c\<close>, the loop of one reactor thread: taking new descriptors off
  the accept queue, waiting for events, sorting them into reads and writes, the handlers, and the
  idle timeout.

  \<open>reactor_iteration\<close> is one pass of the \<open>while\<close> loop of \<open>reactor_thread_main\<close>,
  \<open>thread_passes\<close> its first \<open>n\<close> passes. The event arrays of the pass (\<open>read_conns\<close>,
  \<open>write_conns\<close>) are lists.
\<close>

definition MAX_EVENTS :: nat where "MAX_EVENTS = 1024"
definition BATCH_SIZE :: u32 where "BATCH_SIZE = 64"

section \<open>New connections\<close>

text \<open>The loop over the descriptors of a batch; \<open>n\<close> counts the successes.\<close>

fun add_batch :: "kernel \<Rightarrow> fd list \<Rightarrow> u32 \<Rightarrow> rstate \<Rightarrow> (u32 \<times> rstate) res" where
  "add_batch K [] n st = Inr (n, st)"
| "add_batch K (f # fs) n st =
     rbind (thread_add_connection K f st) (\<lambda>(r, t, w).
       if r = 0 then add_batch K fs (n + 1) (t, w)
       else add_batch K fs n (t, sys_close f w))"

definition process_new_connections_batch :: "kernel \<Rightarrow> rstate \<Rightarrow> (u32 \<times> rstate) res" where
  "process_new_connections_batch K st = (case st of (t, w) \<Rightarrow>
     (case sys_cas K w of (spur, w1) \<Rightarrow>
       rbind (ring_queue_pop_batch spur (Ptr (accept_queue t)) (Ptr (replicate 64 0)) BATCH_SIZE)
         (\<lambda>(count, q, fds).
           let t1 = t\<lparr>accept_queue := deref q\<rparr> in
           if count = 0 then Inr (0, t1, w1)
           else rbind (add_batch K (take (unat count) (deref fds)) 0 (t1, w1)) (\<lambda>(n, t2, w2).
             Inr (n, (if 1 < count then t2\<lparr>batch_processed := batch_processed t2 + 1\<rparr> else t2), w2)))))"

section \<open>Events\<close>

text \<open>Sorting the events: errors close at once, the others go to the read and write arrays.\<close>

fun classify :: "kernel \<Rightarrow> (addr ptr \<times> u32) list \<Rightarrow> addr list \<Rightarrow> addr ptr list \<Rightarrow> rstate
    \<Rightarrow> (addr list \<times> addr ptr list \<times> rstate) res" where
  "classify K [] rs ws st = Inr (rs, ws, st)"
| "classify K ((NULL, fl) # evs) rs ws st = classify K evs rs ws st"
| "classify K ((Ptr a, fl) # evs) rs ws (t, w) =
     (case get_current_time_ms K w of (ms, w1) \<Rightarrow>
       rbind (load a w1) (\<lambda>c.
       rbind (store a (c\<lparr>last_active_time := ms\<rparr>) w1) (\<lambda>w2.
         if fl AND (EPOLLERR OR EPOLLHUP) \<noteq> 0
         then rbind (handle_close_event K (Ptr a) (t, w2)) (classify K evs rs ws)
         else classify K evs
           (if fl AND EPOLLIN \<noteq> 0 then rs @ [a] else rs)
           (if fl AND EPOLLOUT \<noteq> 0 then ws @ [Ptr a] else ws) (t, w2))))"

fun read_all :: "kernel \<Rightarrow> addr list \<Rightarrow> rstate \<Rightarrow> rstate res option" where
  "read_all K [] st = Some (Inr st)"
| "read_all K (a # as) st = (case handle_read_event K a st of
     None \<Rightarrow> None
   | Some (Inl e) \<Rightarrow> Some (Inl e)
   | Some (Inr st') \<Rightarrow> read_all K as st')"

section \<open>The idle timeout\<close>

function timeout_sweep :: "kernel \<Rightarrow> u64 \<Rightarrow> nat \<Rightarrow> rstate \<Rightarrow> rstate res" where
  "timeout_sweep K ms i (t, w) =
     (if i < MAX_CONNECTIONS
      then case connections t i of
          NULL \<Rightarrow> timeout_sweep K ms (Suc i) (t, w)
        | Ptr a \<Rightarrow> rbind (load a w) (\<lambda>c.
            if 30000 < ms - last_active_time c
            then rbind (handle_close_event K (Ptr a) (t, w)) (timeout_sweep K ms (Suc i))
            else timeout_sweep K ms (Suc i) (t, w))
      else Inr (t, w))"
  by pat_completeness auto
termination
  by (relation "measure (\<lambda>(K, ms, i, st). MAX_CONNECTIONS - i)") auto

declare timeout_sweep.simps [simp del]

definition timer_check :: "kernel \<Rightarrow> u32 \<Rightarrow> rstate \<Rightarrow> rstate res" where
  "timer_check K loop_count st =
     (if loop_count mod 100 = 0
      then (case st of (t, w) \<Rightarrow> (case get_current_time_ms K w of (ms, w1) \<Rightarrow>
        timeout_sweep K ms 0 (t, w1)))
      else Inr st)"

section \<open>The loop\<close>

text \<open>One pass: \<open>(True, st)\<close> when the loop goes on, \<open>(False, st)\<close> when it breaks.\<close>

definition reactor_iteration :: "kernel \<Rightarrow> u32 \<Rightarrow> rstate \<Rightarrow> (bool \<times> rstate) res option" where
  "reactor_iteration K loop_count st = (case process_new_connections_batch K st of
     Inl e \<Rightarrow> Some (Inl e)
   | Inr (n, t, w) \<Rightarrow> (case sys_epoll_wait K (epoll_fd t) MAX_EVENTS w of
       (Inl e, w1) \<Rightarrow> Some (Inr (e = EINTR, t, w1))
     | (Inr evs, w1) \<Rightarrow>
        let t1 = (if evs \<noteq> [] then t\<lparr>processed_events := processed_events t + of_nat (length evs)\<rparr> else t) in
        (case classify K evs [] [] (t1, w1) of
           Inl e \<Rightarrow> Some (Inl e)
         | Inr (rs, ws, st1) \<Rightarrow> (case read_all K rs st1 of
             None \<Rightarrow> None
           | Some (Inl e) \<Rightarrow> Some (Inl e)
           | Some (Inr st2) \<Rightarrow>
              Some (rbind (if ws \<noteq> [] then handle_write_events K ws st2 else Inr st2) (\<lambda>st3.
                    rbind (timer_check K loop_count st3) (\<lambda>st4. Inr (True, st4))))))))"

fun thread_passes :: "kernel \<Rightarrow> nat \<Rightarrow> u32 \<Rightarrow> rstate \<Rightarrow> rstate res option" where
  "thread_passes K 0 loop_count st = Some (Inr st)"
| "thread_passes K (Suc n) loop_count st =
     (if running (fst st)
      then case reactor_iteration K (loop_count + 1) st of
          None \<Rightarrow> None
        | Some (Inl e) \<Rightarrow> Some (Inl e)
        | Some (Inr (again, st')) \<Rightarrow>
            if again then thread_passes K n (loop_count + 1) st' else Some (Inr st')
      else Some (Inr st))"

definition reactor_thread_main :: "kernel \<Rightarrow> nat \<Rightarrow> rstate \<Rightarrow> rstate res option" where
  "reactor_thread_main K n st = (case st of (t, w) \<Rightarrow> thread_passes K n 0 (t\<lparr>running := True\<rparr>, w))"

end
