(* ===== verification/ReactorSafety.thy ===== *)
theory ReactorSafety
  imports ReactorThread
begin

text \<open>
  The memory and descriptor invariant of one reactor thread, and that every operation of the thread
  keeps it without a fault: no use after free, no double free, no buffer overrun, whatever the
  kernel answers.

  \<^item> \<open>inv_mem\<close>: every occupied slot points to its own live, well-formed connection, registered with
    the thread's epoll instance under its descriptor, for reading or for writing but never both;
    and the epoll instance knows nothing else.
  \<^item> \<open>inv_count\<close>: the two counters are the number of occupied slots.
  \<^item> \<open>inv_fds H\<close>: the descriptors of the live connections, of the accept queue and of the batch in
    hand \<open>H\<close> do not overlap.
  \<^item> \<open>evolves\<close>: what a step may change of the rest of the process.
\<close>

section \<open>The invariant\<close>

abbreviation IN_MODE :: u32 where "IN_MODE \<equiv> EPOLLIN OR EPOLLET"
abbreviation OUT_MODE :: u32 where "OUT_MODE \<equiv> EPOLLOUT OR EPOLLET"

definition slots :: "reactor_thread \<Rightarrow> nat set" where
  "slots t = {i. i < MAX_CONNECTIONS \<and> connections t i \<noteq> NULL}"

definition owned :: "reactor_thread \<Rightarrow> addr set" where
  "owned t = {a. \<exists>i < MAX_CONNECTIONS. connections t i = Ptr a}"

definition registered :: "reactor_thread \<Rightarrow> rworld \<Rightarrow> addr \<Rightarrow> connection \<Rightarrow> bool" where
  "registered t w a c \<longleftrightarrow> interest w (epoll_fd t) (conn_fd c) = Some (Ptr a, IN_MODE)
     \<or> interest w (epoll_fd t) (conn_fd c) = Some (Ptr a, OUT_MODE)"

definition inv_mem :: "reactor_thread \<Rightarrow> rworld \<Rightarrow> bool" where
  "inv_mem t w \<longleftrightarrow> inj_on (connections t) (slots t)
     \<and> (\<forall>a \<in> owned t. \<exists>c. heap w a = Some c \<and> wf_conn c \<and> registered t w a c)
     \<and> (\<forall>f d m. interest w (epoll_fd t) f = Some (d, m) \<longrightarrow>
          (\<exists>a \<in> owned t. d = Ptr a \<and> (\<exists>c. heap w a = Some c \<and> conn_fd c = f)))
     \<and> (\<forall>a. heap w a \<noteq> None \<longrightarrow> a < next_addr w)"

definition inv_count :: "reactor_thread \<Rightarrow> bool" where
  "inv_count t \<longleftrightarrow> connection_count t = of_nat (card (slots t))
     \<and> active_connections t = of_nat (card (slots t))"

definition conn_fds :: "reactor_thread \<Rightarrow> rworld \<Rightarrow> fd set" where
  "conn_fds t w = {f. \<exists>a \<in> owned t. \<exists>c. heap w a = Some c \<and> conn_fd c = f}"

definition waiting_fds :: "fd list \<Rightarrow> reactor_thread \<Rightarrow> fd list" where
  "waiting_fds H t = H @ rq_contents (accept_queue t)"

definition thread_fds :: "fd list \<Rightarrow> reactor_thread \<Rightarrow> rworld \<Rightarrow> fd set" where
  "thread_fds H t w = set (waiting_fds H t) \<union> conn_fds t w"

definition inv_fds :: "fd list \<Rightarrow> reactor_thread \<Rightarrow> rworld \<Rightarrow> bool" where
  "inv_fds H t w \<longleftrightarrow> rq_wf (accept_queue t) \<and> distinct (waiting_fds H t)
     \<and> set (waiting_fds H t) \<inter> conn_fds t w = {} \<and> epoll_fd t \<notin> thread_fds H t w"

definition good :: "fd list \<Rightarrow> reactor_thread \<Rightarrow> rworld \<Rightarrow> bool" where
  "good H t w \<longleftrightarrow> inv_mem t w \<and> inv_count t \<and> inv_fds H t w"

text \<open>The frame of a step of the thread.\<close>

definition evolves :: "fd list \<Rightarrow> reactor_thread \<Rightarrow> rworld \<Rightarrow> fd list \<Rightarrow> reactor_thread \<Rightarrow> rworld \<Rightarrow> bool" where
  "evolves H t w H' t' w' \<longleftrightarrow>
     epoll_fd t' = epoll_fd t \<and> thread_id t' = thread_id t \<and> running t' = running t
     \<and> thread_started t' = thread_started t
     \<and> next_addr w \<le> next_addr w'
     \<and> owned t' \<subseteq> owned t \<union> {next_addr w ..< next_addr w'}
     \<and> (\<forall>b < next_addr w. b \<notin> owned t \<longrightarrow> heap w' b = heap w b)
     \<and> (\<forall>b. b \<notin> owned t' \<and> (b \<in> owned t \<or> next_addr w \<le> b) \<longrightarrow> heap w' b = None)
     \<and> thread_fds H' t' w' \<subseteq> thread_fds H t w
     \<and> (\<forall>ep f. ep \<noteq> epoll_fd t \<and> ep \<notin> thread_fds H t w \<longrightarrow>
          interest w' ep f = interest w ep f \<or> f \<in> thread_fds H t w \<and> interest w' ep f = None)"

section \<open>Basic facts\<close>

lemma slots_finite [simp]: "finite (slots t)"
  by (simp add: slots_def)

lemma card_slots_le: "card (slots t) \<le> MAX_CONNECTIONS"
  by (rule order_trans [OF card_mono [of "{..<MAX_CONNECTIONS}"]]) (auto simp: slots_def)

lemma owned_eq: "owned t = {a. Ptr a \<in> connections t ` slots t}"
  by (force simp: owned_def slots_def)

lemma owned_heap:
  assumes "inv_mem t w" and "a \<in> owned t"
  obtains c where "heap w a = Some c" and "wf_conn c" and "registered t w a c"
  using assms by (auto simp: inv_mem_def)

lemma interest_owned:
  assumes "inv_mem t w" and "interest w (epoll_fd t) f = Some (d, m)"
  obtains a c where "a \<in> owned t" and "d = Ptr a" and "heap w a = Some c" and "conn_fd c = f"
  using assms unfolding inv_mem_def by blast

lemma evolves_refl:
  "inv_mem t w \<Longrightarrow> evolves H t w H t w"
  by (fastforce simp: evolves_def inv_mem_def)

lemma evolves_trans:
  assumes one: "evolves H t w H1 t1 w1" and two: "evolves H1 t1 w1 H2 t2 w2"
  shows "evolves H t w H2 t2 w2"
proof -
  have leak: "heap w2 b = None" if b: "b \<notin> owned t2" "b \<in> owned t \<or> next_addr w \<le> b" for b
  proof (cases "b \<in> owned t1 \<or> next_addr w1 \<le> b")
    case True
    then show ?thesis using two b(1) by (auto simp: evolves_def)
  next
    case False
    then have "heap w2 b = heap w1 b" using two by (auto simp: evolves_def)
    also have "heap w1 b = None" using one False b(2) by (auto simp: evolves_def)
    finally show ?thesis .
  qed
  have keep: "heap w2 b = heap w b" if "b < next_addr w" "b \<notin> owned t" for b
  proof -
    have "b \<notin> owned t1" and "b < next_addr w1" using one that by (auto simp: evolves_def)
    then show ?thesis using one two that by (auto simp: evolves_def)
  qed
  have fds1: "thread_fds H1 t1 w1 \<subseteq> thread_fds H t w" using one by (simp add: evolves_def)
  have int: "interest w2 ep f = interest w ep f \<or> f \<in> thread_fds H t w \<and> interest w2 ep f = None"
    if "ep \<noteq> epoll_fd t" "ep \<notin> thread_fds H t w" for ep f
  proof -
    have "ep \<noteq> epoll_fd t1" "ep \<notin> thread_fds H1 t1 w1"
      using one that by (auto simp: evolves_def)
    then have "interest w2 ep f = interest w1 ep f \<or> f \<in> thread_fds H1 t1 w1 \<and> interest w2 ep f = None"
      using two by (simp add: evolves_def)
    moreover have "interest w1 ep f = interest w ep f \<or> f \<in> thread_fds H t w \<and> interest w1 ep f = None"
      using one that by (simp add: evolves_def)
    ultimately show ?thesis using fds1 by auto
  qed
  have ids: "epoll_fd t2 = epoll_fd t \<and> thread_id t2 = thread_id t \<and> running t2 = running t
      \<and> thread_started t2 = thread_started t \<and> next_addr w \<le> next_addr w2"
    using one two by (simp add: evolves_def)
  have own: "owned t2 \<subseteq> owned t \<union> {next_addr w ..< next_addr w2}"
  proof
    fix b
    assume "b \<in> owned t2"
    then consider "b \<in> owned t1" | "next_addr w1 \<le> b" "b < next_addr w2"
      using two by (auto simp: evolves_def)
    then show "b \<in> owned t \<union> {next_addr w ..< next_addr w2}"
      using one two by cases (auto simp: evolves_def)
  qed
  have fds: "thread_fds H2 t2 w2 \<subseteq> thread_fds H t w"
    using one two unfolding evolves_def by blast
  show ?thesis
    unfolding evolves_def using ids own fds leak keep int by blast
qed

text \<open>A connection is known by its descriptor.\<close>

lemma fd_unique:
  assumes inv: "inv_mem t w" and a: "a \<in> owned t" "heap w a = Some c"
    and b: "b \<in> owned t" "heap w b = Some d" and eq: "conn_fd c = conn_fd d"
  shows "a = b"
proof -
  have "registered t w a c" "registered t w b d" using inv a b by (auto simp: inv_mem_def)
  then show ?thesis using eq by (auto simp: registered_def)
qed

section \<open>Steps that touch one live connection\<close>

text \<open>The world changes in nothing but the trace, the connection at \<open>a\<close> and its mode.\<close>

definition touches :: "reactor_thread \<Rightarrow> addr \<Rightarrow> fd \<Rightarrow> rworld \<Rightarrow> rworld \<Rightarrow> bool" where
  "touches t a f w w' \<longleftrightarrow> next_addr w' = next_addr w
     \<and> (\<exists>c'. heap w' = (heap w)(a \<mapsto> c') \<and> wf_conn c' \<and> conn_fd c' = f)
     \<and> (interest w' = interest w
        \<or> (\<exists>m. (m = IN_MODE \<or> m = OUT_MODE) \<and> interest w (epoll_fd t) f \<noteq> None \<and>
             interest w' = (interest w)(epoll_fd t := (interest w (epoll_fd t))(f := Some (Ptr a, m)))))"

lemma touches_emit:
  "heap w a = Some c \<Longrightarrow> wf_conn c \<Longrightarrow> touches t a (conn_fd c) w (emit e w)"
  unfolding touches_def by (intro conjI exI [of _ c]) (simp_all add: fun_upd_idem)

lemma touches_put:
  "wf_conn c' \<Longrightarrow> conn_fd c' = f \<Longrightarrow> touches t a f w (put a c' w)"
  by (auto simp: touches_def)

lemma touches_mod:
  "heap w a = Some c \<Longrightarrow> wf_conn c \<Longrightarrow> m = IN_MODE \<or> m = OUT_MODE \<Longrightarrow>
   touches t a (conn_fd c) w (snd (sys_epoll_mod K (epoll_fd t) (conn_fd c) (Ptr a) m w))"
  unfolding touches_def
  by (intro conjI exI [of _ c]) (auto simp: sys_epoll_mod_def Let_def fun_upd_idem)

lemma touches_trans:
  assumes "touches t a f w w1" and "touches t a f w1 w2"
  shows "touches t a f w w2"
  using assms unfolding touches_def by (elim conjE exE disjE) (auto simp: fun_upd_same)

lemma touches_inv_mem:
  assumes inv: "inv_mem t w" and a: "a \<in> owned t" "heap w a = Some c" "conn_fd c = f"
    and touch: "touches t a f w w'"
  shows "inv_mem t w'"
proof -
  obtain c' where heap: "heap w' = (heap w)(a \<mapsto> c')" and c': "wf_conn c'" "conn_fd c' = f"
    and int: "interest w' = interest w \<or> (\<exists>m. (m = IN_MODE \<or> m = OUT_MODE) \<and>
        interest w' = (interest w)(epoll_fd t := (interest w (epoll_fd t))(f := Some (Ptr a, m))))"
    and na: "next_addr w' = next_addr w"
    using touch by (auto simp: touches_def)
  have reg_a: "registered t w a c" using inv a by (auto simp: inv_mem_def)
  have alive: "\<exists>d. heap w' b = Some d \<and> wf_conn d \<and> registered t w' b d" if b: "b \<in> owned t" for b
  proof (cases "b = a")
    case True
    then show ?thesis using heap c' int reg_a a(3) by (auto simp: registered_def)
  next
    case False
    obtain d where d: "heap w b = Some d" "wf_conn d" "registered t w b d"
      using owned_heap [OF inv b] by blast
    have "conn_fd d \<noteq> f" using fd_unique [OF inv a(1,2) b d(1)] False a(3) by auto
    then show ?thesis using d False heap int by (auto simp: registered_def)
  qed
  have known: "\<exists>b \<in> owned t. d = Ptr b \<and> (\<exists>c. heap w' b = Some c \<and> conn_fd c = g)"
    if g: "interest w' (epoll_fd t) g = Some (d, m)" for g d m
  proof (cases "g = f")
    case True
    have "d = Ptr a" using g True int reg_a a(3) by (auto simp: registered_def)
    then show ?thesis using a(1) heap c' True by auto
  next
    case False
    then have "interest w (epoll_fd t) g = Some (d, m)" using g int by auto
    then obtain b e where "b \<in> owned t" "d = Ptr b" "heap w b = Some e" "conn_fd e = g"
      by (rule interest_owned [OF inv])
    moreover from this have "b \<noteq> a" using False a by auto
    ultimately show ?thesis using heap by auto
  qed
  show ?thesis
    using inv alive known heap na a(2) unfolding inv_mem_def by auto
qed

lemma touches_conn_fds:
  assumes a: "heap w a = Some c" "conn_fd c = f" and touch: "touches t' a f w w'"
  shows "conn_fds t w' = conn_fds t w"
proof -
  obtain c' where "heap w' = (heap w)(a \<mapsto> c')" "conn_fd c' = f"
    using touch by (auto simp: touches_def)
  then have "(\<exists>c. heap w' b = Some c \<and> conn_fd c = g) \<longleftrightarrow> (\<exists>c. heap w b = Some c \<and> conn_fd c = g)" for b g
    using a by auto
  then show ?thesis by (simp only: conn_fds_def)
qed

lemma touches_good:
  assumes good: "good H t w" and a: "a \<in> owned t" "heap w a = Some c" "conn_fd c = f"
    and touch: "touches t a f w w'"
  shows "good H t w'" and "evolves H t w H t w'"
proof -
  have fds: "conn_fds t w' = conn_fds t w" by (rule touches_conn_fds [OF a(2,3) touch])
  show "good H t w'"
    using good touches_inv_mem [OF _ a touch] fds by (auto simp: good_def inv_fds_def thread_fds_def)
  have "f \<in> thread_fds H t w" using a by (auto simp: thread_fds_def conn_fds_def)
  moreover have "\<forall>b. heap w b \<noteq> None \<longrightarrow> b < next_addr w" using good by (auto simp: good_def inv_mem_def)
  ultimately show "evolves H t w H t w'"
    using touch a(1,2) fds unfolding touches_def evolves_def thread_fds_def by fastforce
qed

text \<open>The handlers of a connection that stays open only touch it.\<close>

lemma after_read_touches:
  assumes "heap w a = Some c" and "wf_conn c" and "unat (read_len c) + length bs \<le> 8192"
  shows "\<exists>w'. after_read K a c bs (t, w) = (t, w') \<and> touches t a (conn_fd c) w w'"
proof -
  let ?c = "echoed (appended bs c)" and ?w1 = "emit (SysRead (conn_fd c) (Inr bs)) w"
  have c: "wf_conn ?c" "conn_fd ?c = conn_fd c" using assms by (auto intro: wf_echoed wf_appended)
  have "touches t a (conn_fd c) w ?w1" using assms by (intro touches_emit)
  also have "touches t a (conn_fd c) ?w1 (put a ?c ?w1)" using c by (intro touches_put)
  finally (touches_trans) have one: "touches t a (conn_fd c) w (put a ?c ?w1)" .
  have "touches t a (conn_fd ?c) (put a ?c ?w1)
      (snd (sys_epoll_mod K (epoll_fd t) (conn_fd ?c) (Ptr a) OUT_MODE (put a ?c ?w1)))"
    using c by (intro touches_mod) auto
  then show ?thesis
    using touches_trans [OF one] c by (auto simp: after_read_def)
qed

lemma after_write_touches:
  assumes "heap w a = Some c" and "wf_conn c" and "unat (write_sent c) + n \<le> unat (write_len c)"
  shows "\<exists>w'. after_write K a c n (t, w) = (t, w') \<and> touches t a (conn_fd c) w w'"
proof -
  let ?c = "written n c" and ?w1 = "emit (SysWrite (conn_fd c) (Inr (take n (pending c)))) w"
  let ?w2 = "put a ?c ?w1"
  let ?w3 = "snd (sys_epoll_mod K (epoll_fd t) (conn_fd ?c) (Ptr a) IN_MODE ?w2)"
  have c: "wf_conn ?c" "conn_fd ?c = conn_fd c" "wf_conn (drained ?c)" "conn_fd (drained ?c) = conn_fd c"
    using assms by (auto intro: wf_written wf_drained)
  have "touches t a (conn_fd c) w ?w1" using assms by (intro touches_emit)
  also have "touches t a (conn_fd c) ?w1 ?w2" using c by (intro touches_put)
  finally (touches_trans) have one: "touches t a (conn_fd c) w ?w2" .
  have "touches t a (conn_fd ?c) ?w2 ?w3" using c by (intro touches_mod) auto
  then have "touches t a (conn_fd c) w ?w3" using touches_trans [OF one] c by simp
  moreover have "touches t a (conn_fd c) ?w3 (put a (drained ?c) ?w3)" using c by (intro touches_put)
  ultimately have "touches t a (conn_fd c) w (put a (drained ?c) ?w3)" by (rule touches_trans)
  then show ?thesis using one by (auto simp: after_write_def Let_def)
qed

section \<open>Closing\<close>

lemma clear_slot_eq:
  assumes "i \<le> k" and "k < MAX_CONNECTIONS" and "connections t k = Ptr a"
    and "\<forall>j. i \<le> j \<and> j < k \<longrightarrow> connections t j \<noteq> Ptr a"
  shows "clear_slot a i t = t\<lparr>connections := (connections t)(k := NULL),
      connection_count := connection_count t - 1, active_connections := active_connections t - 1\<rparr>"
  using assms
proof (induction "k - i" arbitrary: i)
  case 0
  then show ?case by (subst clear_slot.simps) simp
next
  case (Suc n)
  then have "i < k" "connections t i \<noteq> Ptr a" by auto
  moreover have "clear_slot a (Suc i) t = t\<lparr>connections := (connections t)(k := NULL),
      connection_count := connection_count t - 1, active_connections := active_connections t - 1\<rparr>"
    using Suc by (intro Suc.hyps(1)) auto
  ultimately show ?case using Suc.prems(2) by (subst clear_slot.simps) simp
qed

text \<open>Closing an owned connection clears exactly its slot.\<close>

lemma clear_slot_owned:
  assumes inj: "inj_on (connections t) (slots t)" and k: "k < MAX_CONNECTIONS" "connections t k = Ptr a"
  shows "clear_slot a 0 t = t\<lparr>connections := (connections t)(k := NULL),
      connection_count := connection_count t - 1, active_connections := active_connections t - 1\<rparr>"
proof (rule clear_slot_eq)
  show "\<forall>j. 0 \<le> j \<and> j < k \<longrightarrow> connections t j \<noteq> Ptr a"
  proof (intro allI impI notI)
    fix j
    assume "0 \<le> j \<and> j < k" and "connections t j = Ptr a"
    then have "j \<in> slots t" "k \<in> slots t" "connections t j = connections t k"
      using k by (auto simp: slots_def)
    then have "j = k" using inj by (auto simp: inj_on_def)
    then show False using \<open>0 \<le> j \<and> j < k\<close> by simp
  qed
qed (use k in auto)

lemma slots_upd_NULL: "slots (t\<lparr>connections := (connections t)(k := NULL), connection_count := x, active_connections := y\<rparr>) = slots t - {k}"
  by (auto simp: slots_def)

lemma owned_upd_NULL:
  assumes inj: "inj_on (connections t) (slots t)" and k: "k < MAX_CONNECTIONS" "connections t k = Ptr a"
  shows "owned (t\<lparr>connections := (connections t)(k := NULL), connection_count := x, active_connections := y\<rparr>)
    = owned t - {a}"
proof -
  have uniq: "i = k" if "i < MAX_CONNECTIONS" "connections t i = Ptr a" for i
    using inj that k by (auto simp: inj_on_def slots_def)
  have other: "i \<noteq> k" if "connections t i = Ptr b" "b \<noteq> a" for i b
    using that k by auto
  show ?thesis
    unfolding owned_def using uniq other by (auto split: if_splits)
qed

lemma of_nat_card_Diff:
  assumes "finite S" and "k \<in> S"
  shows "of_nat (card S) - 1 = (of_nat (card (S - {k})) :: 'a::len word)"
proof -
  define n where "n = card (S - {k})"
  have "card S = Suc n" unfolding n_def using assms by (rule card.remove)
  then show ?thesis unfolding n_def [symmetric] by simp
qed

text \<open>What a close leaves, spelled out.\<close>

lemma close_effect:
  assumes inv: "inv_mem t w" and a: "a \<in> owned t" "heap w a = Some c"
  obtains t' w' where "handle_close_event K (Ptr a) (t, w) = Inr (t', w')"
    and "owned t' = owned t - {a}" and "inj_on (connections t') (slots t')"
    and "inv_count t \<longrightarrow> inv_count t'"
    and "heap w' = (heap w)(a := None)" and "next_addr w' = next_addr w"
    and "interest w' = (\<lambda>ep f. if ep = conn_fd c \<or> f = conn_fd c then None else interest w ep f)"
    and "epoll_fd t' = epoll_fd t" and "thread_id t' = thread_id t" and "running t' = running t"
    and "thread_started t' = thread_started t" and "accept_queue t' = accept_queue t"
proof -
  obtain k where k: "k < MAX_CONNECTIONS" "connections t k = Ptr a" using a by (auto simp: owned_def)
  have inj: "inj_on (connections t) (slots t)" using inv by (simp add: inv_mem_def)
  let ?t = "t\<lparr>connections := (connections t)(k := NULL),
      connection_count := connection_count t - 1, active_connections := active_connections t - 1\<rparr>"
  let ?w = "emit (SysFree a) ((sys_close (conn_fd c) (snd (sys_epoll_del K (epoll_fd t) (conn_fd c) w)))
       \<lparr>heap := (heap w)(a := None)\<rparr>)"
  have eq: "handle_close_event K (Ptr a) (t, w) = Inr (?t, ?w)"
    using handle_close_eq [OF a(2), of K t] clear_slot_owned [OF inj k] by simp
  have "inj_on (connections ?t) (slots ?t)"
    using inj by (auto simp: inj_on_def slots_upd_NULL slots_def)
  moreover have "interest ?w = (\<lambda>ep f. if ep = conn_fd c \<or> f = conn_fd c then None else interest w ep f)"
    by (auto simp: fun_eq_iff sys_epoll_del_def Let_def)
  moreover have "k \<in> slots t" using k by (simp add: slots_def)
  then have "inv_count t \<longrightarrow> inv_count ?t"
    using of_nat_card_Diff [of "slots t" k, where ?'a = 32] of_nat_card_Diff [of "slots t" k, where ?'a = 64]
    by (simp add: inv_count_def slots_upd_NULL del: card_Diff_singleton)
  ultimately show ?thesis
    using eq owned_upd_NULL [OF inj k] by (intro that [of ?t ?w]) auto
qed

lemma close_good:
  assumes good: "good H t w" and a: "a \<in> owned t" "heap w a = Some c"
  shows "\<exists>t' w'. handle_close_event K (Ptr a) (t, w) = Inr (t', w') \<and> good H t' w'
    \<and> evolves H t w H t' w' \<and> owned t' = owned t - {a} \<and> heap w' = (heap w)(a := None)
    \<and> interest w' (epoll_fd t) = (interest w (epoll_fd t))(conn_fd c := None)"
proof -
  have inv: "inv_mem t w" using good by (simp add: good_def)
  obtain t' w' where eq: "handle_close_event K (Ptr a) (t, w) = Inr (t', w')"
    and own: "owned t' = owned t - {a}" and inj: "inj_on (connections t') (slots t')"
    and count: "inv_count t \<longrightarrow> inv_count t'"
    and heap: "heap w' = (heap w)(a := None)" and na: "next_addr w' = next_addr w"
    and int: "interest w' = (\<lambda>ep f. if ep = conn_fd c \<or> f = conn_fd c then None else interest w ep f)"
    and same: "epoll_fd t' = epoll_fd t" "thread_id t' = thread_id t" "running t' = running t"
      "thread_started t' = thread_started t" "accept_queue t' = accept_queue t"
    by (rule close_effect [OF inv a, of K])
  have fd_c: "conn_fd c \<in> conn_fds t w" using a by (auto simp: conn_fds_def)
  then have ep: "epoll_fd t \<noteq> conn_fd c" using good by (auto simp: good_def inv_fds_def thread_fds_def)
  have sub: "conn_fds t' w' \<subseteq> conn_fds t w" using own heap by (auto simp: conn_fds_def)
  have mem: "inv_mem t' w'"
    unfolding inv_mem_def
  proof (intro conjI ballI allI impI)
    show "inj_on (connections t') (slots t')" by (rule inj)
  next
    fix b
    assume "b \<in> owned t'"
    then have b: "b \<in> owned t" "b \<noteq> a" using own by auto
    obtain d where d: "heap w b = Some d" "wf_conn d" "registered t w b d" by (rule owned_heap [OF inv b(1)])
    have "conn_fd d \<noteq> conn_fd c" using fd_unique [OF inv a b(1) d(1)] b(2) by auto
    then show "\<exists>c. heap w' b = Some c \<and> wf_conn c \<and> registered t' w' b c"
      using d b(2) heap int ep same by (auto simp: registered_def)
  next
    fix f d m
    assume "interest w' (epoll_fd t') f = Some (d, m)"
    then have f: "f \<noteq> conn_fd c" "interest w (epoll_fd t) f = Some (d, m)"
      using int same by (auto split: if_splits)
    obtain b e where b: "b \<in> owned t" "d = Ptr b" "heap w b = Some e" "conn_fd e = f"
      by (rule interest_owned [OF inv f(2)])
    then have "b \<noteq> a" using a f(1) by auto
    then show "\<exists>a\<in>owned t'. d = Ptr a \<and> (\<exists>c. heap w' a = Some c \<and> conn_fd c = f)"
      using b own heap by auto
  next
    fix b
    assume "heap w' b \<noteq> None"
    then show "b < next_addr w'" using inv heap na by (auto simp: inv_mem_def split: if_splits)
  qed
  have fds: "inv_fds H t' w'"
    using good sub same by (auto simp: good_def inv_fds_def thread_fds_def waiting_fds_def)
  have ev: "evolves H t w H t' w'"
    unfolding evolves_def
  proof (intro conjI)
    show "\<forall>b. b \<notin> owned t' \<and> (b \<in> owned t \<or> next_addr w \<le> b) \<longrightarrow> heap w' b = None"
      using own heap inv by (fastforce simp: inv_mem_def)
    show "thread_fds H t' w' \<subseteq> thread_fds H t w"
      using sub same by (auto simp: thread_fds_def waiting_fds_def)
    show "\<forall>ep f. ep \<noteq> epoll_fd t \<and> ep \<notin> thread_fds H t w \<longrightarrow>
        interest w' ep f = interest w ep f \<or> f \<in> thread_fds H t w \<and> interest w' ep f = None"
      using int fd_c by (auto simp: thread_fds_def)
  qed (use own heap same na a in auto)
  have "interest w' (epoll_fd t) = (interest w (epoll_fd t))(conn_fd c := None)"
    using int ep by (auto simp: fun_eq_iff)
  moreover have "good H t' w'"
    using mem fds count good by (simp add: good_def)
  ultimately show ?thesis using eq ev own heap by blast
qed

section \<open>Reads and writes\<close>

text \<open>A step on the connection at \<open>a\<close>: the thread stays good and the other connections stay open.\<close>

definition step_ok :: "fd list \<Rightarrow> reactor_thread \<Rightarrow> rworld \<Rightarrow> addr \<Rightarrow> rstate \<Rightarrow> bool" where
  "step_ok H t w a st \<longleftrightarrow> good H (fst st) (snd st) \<and> evolves H t w H (fst st) (snd st)
     \<and> owned t - {a} \<subseteq> owned (fst st)"

lemma step_ok_refl: "good H t w \<Longrightarrow> step_ok H t w a (t, w)"
  by (auto simp: step_ok_def good_def intro: evolves_refl)

lemma step_ok_trans:
  "step_ok H t w a (t1, w1) \<Longrightarrow> step_ok H t1 w1 a st \<Longrightarrow> step_ok H t w a st"
  using evolves_trans [of H t w H t1 w1 H "fst st" "snd st"] by (auto simp: step_ok_def)

lemma step_ok_touch:
  assumes "good H t w" and "a \<in> owned t" and "heap w a = Some c" and "touches t a (conn_fd c) w w'"
  shows "step_ok H t w a (t, w')"
  using touches_good [OF assms(1-3) refl assms(4)] by (simp add: step_ok_def)

lemma step_ok_close:
  assumes "good H t w" and "a \<in> owned t" and "heap w a = Some c"
    and "handle_close_event K (Ptr a) (t, w) = Inr st"
  shows "step_ok H t w a st"
proof -
  obtain t' w' where "handle_close_event K (Ptr a) (t, w) = Inr (t', w')" and "good H t' w'"
    and "evolves H t w H t' w'" and "owned t' = owned t - {a}"
    using close_good [OF assms(1,2,3), of K] by blast
  then show ?thesis using assms(4) by (simp add: step_ok_def)
qed

lemma good_alive:
  assumes "good H t w" and "a \<in> owned t"
  obtains c where "heap w a = Some c" and "wf_conn c"
  using assms by (auto simp: good_def inv_mem_def)

lemma read_event_ok:
  assumes good: "good H t w" and a: "a \<in> owned t"
  shows "\<exists>st. handle_read_event K a (t, w) = Some (Inr st) \<and> step_ok H t w a st"
proof (rule read_loop_rule [where Q = "\<lambda>st. fst st = t \<and> step_ok H t w a st"])
  show "fst (t, w) = t \<and> step_ok H t w a (t, w)" using good by (simp add: step_ok_refl)
next
  fix t1 :: reactor_thread and w1
  assume "fst (t1, w1) = t \<and> step_ok H t w a (t1, w1)"
  then show "\<exists>c. heap w1 a = Some c \<and> wf_conn c"
    using a good_alive [of H t w1 a] by (auto simp: step_ok_def)
next
  fix t1 :: reactor_thread and w1 c1 and bs :: "u8 list"
  assume Q: "fst (t1, w1) = t \<and> step_ok H t w a (t1, w1)" and c1: "heap w1 a = Some c1" "wf_conn c1"
    and "unat (read_len c1) + length bs \<le> 8192"
  then obtain w2 where "after_read K a c1 bs (t1, w1) = (t1, w2)" "touches t1 a (conn_fd c1) w1 w2"
    using after_read_touches by blast
  moreover from this have "step_ok H t1 w1 a (t1, w2)"
    using Q c1 a by (intro step_ok_touch) (auto simp: step_ok_def)
  ultimately show "fst (after_read K a c1 bs (t1, w1)) = t \<and> step_ok H t w a (after_read K a c1 bs (t1, w1))"
    using Q by (auto intro: step_ok_trans)
next
  fix t1 :: reactor_thread and w1 c1 e
  assume Q: "fst (t1, w1) = t \<and> step_ok H t w a (t1, w1)" and c1: "heap w1 a = Some c1"
  then have t1: "t1 = t" and good1: "good H t w1" by (auto simp: step_ok_def)
  have "wf_conn c1" using good_alive [OF good1 a] c1 by auto
  then have "step_ok H t1 w1 a (t1, emit (SysRead (conn_fd c1) (Inl e)) w1)"
    using c1 a good1 unfolding t1 by (intro step_ok_touch touches_emit)
  then show "step_ok H t w a (t1, emit (SysRead (conn_fd c1) (Inl e)) w1)"
    using Q by (auto intro: step_ok_trans)
next
  fix t1 :: reactor_thread and w1 c1 r st'
  assume Q: "fst (t1, w1) = t \<and> step_ok H t w a (t1, w1)" and c1: "heap w1 a = Some c1" "wf_conn c1"
    and close: "handle_close_event K (Ptr a) (t1, emit (SysRead (conn_fd c1) r) w1) = Inr st'"
  let ?w = "emit (SysRead (conn_fd c1) r) w1"
  have t1: "t1 = t" and good1: "good H t w1" using Q by (auto simp: step_ok_def)
  have one: "step_ok H t1 w1 a (t1, ?w)"
    using c1 a good1 unfolding t1 by (intro step_ok_touch touches_emit)
  then have "good H t1 ?w" by (simp add: step_ok_def)
  then have "step_ok H t1 ?w a st'"
    using close c1 a unfolding t1 by (intro step_ok_close) auto
  then show "step_ok H t w a st'" using Q one by (auto intro: step_ok_trans)
qed auto

lemma write_one_ok:
  assumes good: "good H t w" and a: "a \<in> owned t"
  shows "\<exists>st. write_one K (Ptr a) (t, w) = Inr st \<and> step_ok H t w a st"
proof -
  obtain c where c: "heap w a = Some c" "wf_conn c" by (rule good_alive [OF good a])
  from c show ?thesis
  proof (cases rule: write_one_cases [where K = K and t = t])
    case idle
    then show ?thesis using step_ok_refl [OF good] by auto
  next
    case (wrote n)
    then show ?thesis
      using after_write_touches [OF c wrote(2), of K t] step_ok_touch [OF good a c(1)] by auto
  next
    case (wait r)
    then show ?thesis using step_ok_touch [OF good a c(1) touches_emit [OF c]] by auto
  next
    case (closed e st')
    let ?w = "emit (SysWrite (conn_fd c) (Inl e)) w"
    have one: "step_ok H t w a (t, ?w)" using step_ok_touch [OF good a c(1) touches_emit [OF c]] .
    then have "good H t ?w" by (simp add: step_ok_def)
    then have "step_ok H t ?w a st'"
      using closed(1) c a by (intro step_ok_close) auto
    then show ?thesis using one closed(2) by (auto intro: step_ok_trans)
  qed
qed

text \<open>The loops over the read and the write array.\<close>

definition run_ok :: "fd list \<Rightarrow> reactor_thread \<Rightarrow> rworld \<Rightarrow> fd list \<Rightarrow> addr set \<Rightarrow> rstate \<Rightarrow> bool" where
  "run_ok H t w H' A st \<longleftrightarrow> good H' (fst st) (snd st) \<and> evolves H t w H' (fst st) (snd st)
     \<and> owned t - A \<subseteq> owned (fst st)"

lemma run_ok_refl: "good H t w \<Longrightarrow> run_ok H t w H {} (t, w)"
  by (auto simp: run_ok_def good_def intro: evolves_refl)

lemma run_ok_step: "step_ok H t w a st \<Longrightarrow> run_ok H t w H {a} st"
  by (simp add: run_ok_def step_ok_def)

lemma run_ok_trans:
  "run_ok H t w H1 A (t1, w1) \<Longrightarrow> run_ok H1 t1 w1 H2 B st \<Longrightarrow> run_ok H t w H2 (A \<union> B) st"
  using evolves_trans [of H t w H1 t1 w1 H2 "fst st" "snd st"] by (auto simp: run_ok_def)

lemma run_ok_mono: "run_ok H t w H' A st \<Longrightarrow> A \<subseteq> B \<Longrightarrow> run_ok H t w H' B st"
  by (auto simp: run_ok_def)

lemma read_all_ok:
  "good H t w \<Longrightarrow> set as \<subseteq> owned t \<Longrightarrow> distinct as \<Longrightarrow>
   \<exists>st. read_all K as (t, w) = Some (Inr st) \<and> run_ok H t w H (set as) st"
proof (induction as arbitrary: t w)
  case Nil
  then show ?case by (simp add: run_ok_refl)
next
  case (Cons a as)
  obtain t1 w1 where one: "handle_read_event K a (t, w) = Some (Inr (t1, w1))" "step_ok H t w a (t1, w1)"
    using read_event_ok [of H t w a K] Cons.prems by auto
  have "good H t1 w1" "set as \<subseteq> owned t1" using one(2) Cons.prems by (auto simp: step_ok_def)
  then obtain st where "read_all K as (t1, w1) = Some (Inr st)" "run_ok H t1 w1 H (set as) st"
    using Cons.IH [of t1 w1] Cons.prems(3) by auto
  then show ?case
    using one run_ok_trans [OF run_ok_step [OF one(2)]] by auto
qed

lemma write_all_ok:
  "good H t w \<Longrightarrow> set as \<subseteq> owned t \<Longrightarrow> distinct as \<Longrightarrow>
   \<exists>st. handle_write_events K (map Ptr as) (t, w) = Inr st \<and> run_ok H t w H (set as) st"
proof (induction as arbitrary: t w)
  case Nil
  then show ?case by (simp add: run_ok_refl)
next
  case (Cons a as)
  obtain t1 w1 where one: "write_one K (Ptr a) (t, w) = Inr (t1, w1)" "step_ok H t w a (t1, w1)"
    using write_one_ok [of H t w a K] Cons.prems by auto
  have "good H t1 w1" "set as \<subseteq> owned t1" using one(2) Cons.prems by (auto simp: step_ok_def)
  then obtain st where "handle_write_events K (map Ptr as) (t1, w1) = Inr st" "run_ok H t1 w1 H (set as) st"
    using Cons.IH [of t1 w1] Cons.prems(3) by auto
  then show ?case
    using one run_ok_trans [OF run_ok_step [OF one(2)]] by auto
qed

end
