(* ===== verification/ReactorLoop.thy ===== *)
theory ReactorLoop
  imports ReactorSafety
begin

text \<open>
  The invariant of \<open>ReactorSafety\<close> through the whole loop of a reactor thread: adding the batch of
  new connections, sorting the events, the read and write handlers, the timeout sweep, one pass and
  any number of passes.
\<close>

section \<open>Adding a connection\<close>

definition same_mem :: "('o, 'd) world \<Rightarrow> ('o, 'd) world \<Rightarrow> bool" where
  "same_mem w w' \<longleftrightarrow> heap w' = heap w \<and> next_addr w' = next_addr w \<and> interest w' = interest w"

lemma set_nonblocking_cases:
  obtains r w' where "set_nonblocking K f w = (r, w')" and "same_mem w w'" and "r = 0 \<or> r = -1"
proof -
  obtain r w' where eq: "set_nonblocking K f w = (r, w')" by force
  then show ?thesis
    by (intro that [OF eq]) (auto simp: set_nonblocking_def sys_getfl_def sys_setfl_def sys_ok_def same_mem_def
        split: sum.splits option.splits)
qed

lemma connection_create_cases:
  obtains (null) w' where "connection_create K f tid w = Inr (NULL, w')" and "same_mem w w'"
  | (conn) c w' where "connection_create K f tid w = Inr (Ptr (next_addr w), w')"
      and "heap w' = (heap w)(next_addr w \<mapsto> c)" and "next_addr w' = next_addr w + 1"
      and "interest w' = interest w" and "wf_conn c" and "conn_fd c = f" and "conn_stream c = []"
      and "conn_thread c = tid"
proof (cases "k_alloc K (now w)")
  case False
  then have "connection_create K f tid w = Inr (NULL, emit (SysAlloc None) w)"
    by (simp add: connection_create_def sys_alloc_def)
  then show ?thesis by (rule null) (simp add: same_mem_def)
next
  case True
  let ?a = "next_addr w"
  let ?w1 = "emit (SysAlloc (Some ?a)) (w\<lparr>heap := (heap w)(?a \<mapsto> zero_connection), next_addr := ?a + 1\<rparr>)"
  obtain t w2 where time: "get_current_time_ms K ?w1 = (t, w2)" by force
  then have w2: "same_mem ?w1 w2"
    by (auto simp: get_current_time_ms_def sys_clock_def same_mem_def split: prod.splits)
  let ?c = "zero_connection\<lparr>conn_fd := f, conn_thread := tid, conn_state := 0,
           read_len := 0, write_len := 0, write_sent := 0, last_active_time := t\<rparr>"
  have "heap w2 ?a = Some zero_connection" using w2 by (simp add: same_mem_def)
  then have eq: "connection_create K f tid w = Inr (Ptr ?a, put ?a ?c w2)"
    using True time by (simp add: connection_create_def sys_alloc_def)
  have wf: "wf_conn ?c" by (rule wf_zero_connection)
  show ?thesis
    by (rule conn [OF eq _ _ _ wf])
      (use w2 in \<open>auto simp: same_mem_def zero_connection_def conn_stream_def pending_def\<close>)
qed

lemma first_free_Some: "first_free cs i = Some k \<Longrightarrow> k < MAX_CONNECTIONS \<and> cs k = NULL"
  by (induction cs i rule: first_free.induct) (subst (asm) (2) first_free.simps, auto split: if_splits)

lemma first_free_None: "first_free cs i = None \<Longrightarrow> \<forall>k. i \<le> k \<and> k < MAX_CONNECTIONS \<longrightarrow> cs k \<noteq> NULL"
proof (induction cs i rule: first_free.induct)
  case (1 cs i)
  show ?case
  proof (cases "i < MAX_CONNECTIONS")
    case True
    with "1.prems" have "cs i \<noteq> NULL" and "first_free cs (Suc i) = None"
      by (auto simp: first_free.simps [of cs i] split: if_splits)
    then show ?thesis using "1.IH" True by (metis Suc_leI le_neq_implies_less)
  qed auto
qed

text \<open>Steps that change nothing of the thread's memory but may use up addresses.\<close>

lemma unchanged_good:
  assumes good: "good H t w" and same: "heap w' = heap w" "interest w' = interest w" "next_addr w \<le> next_addr w'"
  shows "good H t w'" and "evolves H t w H t w'"
proof -
  have fds: "conn_fds t w' = conn_fds t w" using same by (simp add: conn_fds_def)
  have mem: "inv_mem t w'"
    using good same by (fastforce simp: good_def inv_mem_def registered_def)
  show "good H t w'"
    using good mem fds by (simp add: good_def inv_fds_def thread_fds_def)
  have "\<forall>b. heap w b \<noteq> None \<longrightarrow> b < next_addr w" using good by (auto simp: good_def inv_mem_def)
  then show "evolves H t w H t w'"
    using good same fds by (fastforce simp: evolves_def thread_fds_def good_def inv_mem_def)
qed

lemma same_mem_good: "good H t w \<Longrightarrow> same_mem w w' \<Longrightarrow> good H t w' \<and> evolves H t w H t w'"
  using unchanged_good [of H t w w'] by (simp add: same_mem_def)

text \<open>Closing a descriptor in hand.\<close>

lemma close_hand_good:
  assumes good: "good (f # H) t w"
  shows "good H t (sys_close f w)" and "evolves (f # H) t w H t (sys_close f w)"
proof -
  let ?w = "sys_close f w"
  have f: "f \<notin> conn_fds t w" "f \<noteq> epoll_fd t" "f \<in> thread_fds (f # H) t w"
    using good by (auto simp: good_def inv_fds_def thread_fds_def waiting_fds_def)
  have inv: "inv_mem t w" using good by (simp add: good_def)
  have "interest w (epoll_fd t) f = None"
  proof (rule ccontr)
    assume "interest w (epoll_fd t) f \<noteq> None"
    then obtain d m where "interest w (epoll_fd t) f = Some (d, m)" by auto
    then obtain a c where "a \<in> owned t" "heap w a = Some c" "conn_fd c = f"
      by (rule interest_owned [OF inv])
    then show False using f(1) by (auto simp: conn_fds_def)
  qed
  then have int: "interest ?w (epoll_fd t) = interest w (epoll_fd t)"
    using f(2) by (auto simp: fun_eq_iff)
  have fds: "conn_fds t ?w = conn_fds t w" by (simp add: conn_fds_def)
  have "inv_mem t ?w"
    using inv int by (simp add: inv_mem_def registered_def)
  then show "good H t ?w"
    using good fds by (auto simp: good_def inv_fds_def thread_fds_def waiting_fds_def)
  show "evolves (f # H) t w H t ?w"
    using inv f(3) fds by (fastforce simp: evolves_def thread_fds_def waiting_fds_def inv_mem_def)
qed

text \<open>Registering a fresh connection in a free slot.\<close>

lemma slots_add: "k < MAX_CONNECTIONS \<Longrightarrow> connections t k = NULL \<Longrightarrow>
    slots (t\<lparr>connections := (connections t)(k := Ptr a), connection_count := x, total_connections := y,
      active_connections := z\<rparr>) = insert k (slots t) \<and> k \<notin> slots t"
  by (auto simp: slots_def)

lemma owned_add: "k < MAX_CONNECTIONS \<Longrightarrow> connections t k = NULL \<Longrightarrow>
    owned (t\<lparr>connections := (connections t)(k := Ptr a), connection_count := x, total_connections := y,
      active_connections := z\<rparr>) = insert a (owned t)"
  by (auto simp: owned_def) (metis ptr.distinct(1))+

lemma register_good:
  assumes good: "good (f # H) t w" and k: "k < MAX_CONNECTIONS" "connections t k = NULL"
    and heap: "heap w' = (heap w)(next_addr w \<mapsto> c)" and na: "next_addr w' = next_addr w + 1"
    and free: "interest w (epoll_fd t) f = None"
    and int: "interest w' = (interest w)(epoll_fd t := (interest w (epoll_fd t))(f := Some (Ptr (next_addr w), IN_MODE)))"
    and c: "wf_conn c" "conn_fd c = f"
    and t': "t' = t\<lparr>connections := (connections t)(k := Ptr (next_addr w)), connection_count := connection_count t + 1,
      total_connections := total_connections t + 1, active_connections := active_connections t + 1\<rparr>"
  shows "good H t' w' \<and> evolves (f # H) t w H t' w' \<and> owned t \<subseteq> owned t' \<and> conn_fds t' w' = insert f (conn_fds t w)"
proof -
  let ?a = "next_addr w"
  have inv: "inv_mem t w" using good by (simp add: good_def)
  have fresh: "heap w ?a = None" using inv by (auto simp: inv_mem_def)
  have not_owned: "?a \<notin> owned t" using inv fresh by (auto simp: inv_mem_def)
  have own: "owned t' = insert ?a (owned t)" and slots: "slots t' = insert k (slots t)" "k \<notin> slots t"
    using owned_add [OF k] slots_add [OF k] unfolding t' by blast+
  have same: "epoll_fd t' = epoll_fd t" "accept_queue t' = accept_queue t" by (simp_all add: t')
  have fd_d: "conn_fd d \<noteq> f" if "b \<in> owned t" "heap w b = Some d" for b d
    using that good by (auto simp: good_def inv_fds_def waiting_fds_def conn_fds_def)
  have inj: "inj_on (connections t') (slots t')"
  proof -
    have "connections t i \<noteq> Ptr ?a" "Ptr ?a \<noteq> connections t i" if "i \<in> slots t" for i
      using that not_owned by (auto simp: slots_def owned_def)
    then show ?thesis
      using inv slots(2) unfolding slots(1) by (auto simp: inv_mem_def t' inj_on_def)
  qed
  have mem: "inv_mem t' w'"
    unfolding inv_mem_def
  proof (intro conjI ballI allI impI)
    show "inj_on (connections t') (slots t')" by (rule inj)
  next
    fix b
    assume "b \<in> owned t'"
    then consider "b = ?a" | "b \<in> owned t" "b \<noteq> ?a" using own by auto
    then show "\<exists>c. heap w' b = Some c \<and> wf_conn c \<and> registered t' w' b c"
    proof cases
      case 1
      then show ?thesis using heap c int same by (auto simp: registered_def)
    next
      case 2
      obtain d where d: "heap w b = Some d" "wf_conn d" "registered t w b d" by (rule owned_heap [OF inv 2(1)])
      then show ?thesis using 2 heap int same fd_d [OF 2(1) d(1)] by (auto simp: registered_def)
    qed
  next
    fix g d m
    assume g: "interest w' (epoll_fd t') g = Some (d, m)"
    show "\<exists>a\<in>owned t'. d = Ptr a \<and> (\<exists>c. heap w' a = Some c \<and> conn_fd c = g)"
    proof (cases "g = f")
      case True
      then show ?thesis using g int heap c own same by auto
    next
      case False
      then have "interest w (epoll_fd t) g = Some (d, m)" using g int same by auto
      then obtain b e where "b \<in> owned t" "d = Ptr b" "heap w b = Some e" "conn_fd e = g"
        by (rule interest_owned [OF inv])
      then show ?thesis using own heap not_owned by auto
    qed
  next
    fix b
    assume "heap w' b \<noteq> None"
    then show "b < next_addr w'" using inv heap na by (auto simp: inv_mem_def less_Suc_eq split: if_splits)
  qed
  have count: "inv_count t'"
    using good slots(2) by (simp add: good_def inv_count_def slots(1)) (simp add: t')
  have cf: "conn_fds t' w' = insert f (conn_fds t w)"
  proof -
    have "\<exists>c. heap w' b = Some c \<and> conn_fd c = g" if "b \<in> owned t" "heap w b = Some d" "conn_fd d = g" for b d g
      using that heap not_owned by auto
    then show ?thesis
      using heap own c not_owned by (fastforce simp: conn_fds_def split: if_splits)
  qed
  have fds: "inv_fds H t' w'"
    using good cf same by (auto simp: good_def inv_fds_def thread_fds_def waiting_fds_def)
  have "evolves (f # H) t w H t' w'"
    unfolding evolves_def
  proof (intro conjI)
    show "\<forall>b. b \<notin> owned t' \<and> (b \<in> owned t \<or> next_addr w \<le> b) \<longrightarrow> heap w' b = None"
      using own heap inv by (fastforce simp: inv_mem_def)
    show "thread_fds H t' w' \<subseteq> thread_fds (f # H) t w"
      using cf same by (auto simp: thread_fds_def waiting_fds_def)
    show "\<forall>ep g. ep \<noteq> epoll_fd t \<and> ep \<notin> thread_fds (f # H) t w \<longrightarrow>
        interest w' ep g = interest w ep g \<or> g \<in> thread_fds (f # H) t w \<and> interest w' ep g = None"
      using int by simp
  qed (use own heap na t' in auto)
  then show ?thesis using mem count fds own cf by (auto simp: good_def)
qed

lemma sys_epoll_add_cases:
  obtains (failed) e w' where "sys_epoll_add K ep f d m w = (Some e, w')" and "same_mem w w'"
  | (added) w' where "sys_epoll_add K ep f d m w = (None, w')" and "interest w ep f = None"
      and "heap w' = heap w" and "next_addr w' = next_addr w"
      and "interest w' = (interest w)(ep := (interest w ep)(f := Some (d, m)))"
proof (cases "interest w ep f \<noteq> None \<or> k_ok K (now w) \<noteq> None")
  case True
  then obtain e where "(if interest w ep f \<noteq> None then Some EEXIST else k_ok K (now w)) = Some e"
    by (cases "interest w ep f = None") auto
  then have "sys_epoll_add K ep f d m w = (Some e, emit (SysEpollAdd ep f m False) w)"
    by (simp only: sys_epoll_add_def Let_def) simp
  then show ?thesis by (rule failed) (simp add: same_mem_def)
next
  case False
  then have eq: "sys_epoll_add K ep f d m w
      = (None, set_interest ep f (Some (d, m)) (emit (SysEpollAdd ep f m True) w))"
    by (simp add: sys_epoll_add_def)
  have "interest w ep f = None" using False by blast
  then show ?thesis by (rule added [OF eq]) simp_all
qed

text \<open>\<open>thread_add_connection\<close>: on success the connection owns the descriptor, on failure nothing
  changed and the descriptor is still in hand.\<close>

lemma thread_add_ok:
  assumes good: "good (f # H) t w"
  shows "\<exists>r t' w'. thread_add_connection K f (t, w) = Inr (r, t', w') \<and> owned t \<subseteq> owned t'
    \<and> (r = 0 \<and> good H t' w' \<and> evolves (f # H) t w H t' w' \<and> conn_fds t' w' = insert f (conn_fds t w)
       \<or> r = -1 \<and> t' = t \<and> heap w' = heap w \<and> interest w' = interest w
         \<and> good (f # H) t' w' \<and> evolves (f # H) t w (f # H) t' w')"
proof (cases "first_free (connections t) 0")
  case None
  then show ?thesis
    using good evolves_refl [of t w "f # H"] by (auto simp: thread_add_connection_def good_def)
next
  case (Some k)
  have k: "k < MAX_CONNECTIONS" "connections t k = NULL" using first_free_Some [OF Some] by auto
  have fresh: "heap w (next_addr w) = None" using good by (auto simp: good_def inv_mem_def)
  have unchanged: ?thesis
    if "thread_add_connection K f (t, w) = Inr (-1, t, w')" "heap w' = heap w" "interest w' = interest w"
      "next_addr w \<le> next_addr w'" for w'
    using that unchanged_good [OF good that(2-4)] by auto
  show ?thesis
  proof (cases rule: connection_create_cases [of K f "thread_id t" w])
    case (null w1)
    then show ?thesis
      using Some by (intro unchanged [of w1]) (auto simp: thread_add_connection_def same_mem_def)
  next
    case (conn c w1)
    obtain r w2 where nb: "set_nonblocking K f w1 = (r, w2)" and w2: "same_mem w1 w2" and r: "r = 0 \<or> r = -1"
      by (rule set_nonblocking_cases)
    have heap2: "heap w2 (next_addr w) = Some c" using conn(2) w2 by (simp add: same_mem_def)
    show ?thesis
    proof (cases "r = -1")
      case True
      then show ?thesis
        using Some conn nb w2 heap2 fresh
        by (intro unchanged [of "emit (SysFree (next_addr w)) (w2\<lparr>heap := (heap w2)(next_addr w := None)\<rparr>)"])
          (auto simp: thread_add_connection_def same_mem_def)
    next
      case False
      show ?thesis
      proof (cases rule: sys_epoll_add_cases [of K "epoll_fd t" f "Ptr (next_addr w)" IN_MODE w2])
        case (failed e w3)
        then show ?thesis
          using Some conn nb w2 heap2 fresh False
          by (intro unchanged [of "emit (SysFree (next_addr w)) (w3\<lparr>heap := (heap w3)(next_addr w := None)\<rparr>)"])
            (auto simp: thread_add_connection_def same_mem_def)
      next
        case (added w3)
        let ?t = "t\<lparr>connections := (connections t)(k := Ptr (next_addr w)), connection_count := connection_count t + 1,
          total_connections := total_connections t + 1, active_connections := active_connections t + 1\<rparr>"
        have eq: "thread_add_connection K f (t, w) = Inr (0, ?t, w3)"
          using Some conn nb False added(1) by (simp add: thread_add_connection_def)
        have "good H ?t w3 \<and> evolves (f # H) t w H ?t w3 \<and> owned t \<subseteq> owned ?t
          \<and> conn_fds ?t w3 = insert f (conn_fds t w)"
        proof (rule register_good [OF good k])
          show "heap w3 = (heap w)(next_addr w \<mapsto> c)" using added conn w2 by (simp add: same_mem_def)
          show "next_addr w3 = next_addr w + 1" using added conn w2 by (simp add: same_mem_def)
          show "interest w (epoll_fd t) f = None" using added conn w2 by (simp add: same_mem_def)
          show "interest w3 = (interest w)(epoll_fd t := (interest w (epoll_fd t))(f \<mapsto> (Ptr (next_addr w), IN_MODE)))"
            using added conn w2 by (simp add: same_mem_def)
        qed (use conn in auto)
        then show ?thesis using eq by blast
      qed
    qed
  qed
qed

lemma add_batch_ok:
  "good (fs @ H) t w \<Longrightarrow> \<exists>n' st. add_batch K fs n (t, w) = Inr (n', st) \<and> run_ok (fs @ H) t w H {} st"
proof (induction fs arbitrary: n t w)
  case Nil
  then show ?case by (simp add: run_ok_refl)
next
  case (Cons f fs)
  obtain r t1 w1 where add: "thread_add_connection K f (t, w) = Inr (r, t1, w1)" and own: "owned t \<subseteq> owned t1"
    and res: "r = 0 \<and> good (fs @ H) t1 w1 \<and> evolves (f # fs @ H) t w (fs @ H) t1 w1
        \<and> conn_fds t1 w1 = insert f (conn_fds t w)
      \<or> r = -1 \<and> t1 = t \<and> heap w1 = heap w \<and> interest w1 = interest w \<and> good (f # fs @ H) t1 w1 \<and> evolves (f # fs @ H) t w (f # fs @ H) t1 w1"
    using thread_add_ok [of f "fs @ H" t w K] Cons.prems by auto
  show ?case
  proof (cases "r = 0")
    case True
    then have one: "run_ok (f # fs @ H) t w (fs @ H) {} (t1, w1)" using res own by (auto simp: run_ok_def)
    then have "good (fs @ H) t1 w1" by (simp add: run_ok_def)
    then obtain n' st where "add_batch K fs (n + 1) (t1, w1) = Inr (n', st)" "run_ok (fs @ H) t1 w1 H {} st"
      using Cons.IH by blast
    then show ?thesis using add True run_ok_trans [OF one] by auto
  next
    case False
    then have good1: "good (f # fs @ H) t1 w1" and ev1: "evolves (f # fs @ H) t w (f # fs @ H) t1 w1" using res by auto
    let ?w = "sys_close f w1"
    have "run_ok (f # fs @ H) t1 w1 (fs @ H) {} (t1, ?w)"
      using close_hand_good [OF good1] by (simp add: run_ok_def)
    moreover have "run_ok (f # fs @ H) t w (f # fs @ H) {} (t1, w1)"
      using good1 ev1 own by (simp add: run_ok_def)
    ultimately have one: "run_ok (f # fs @ H) t w (fs @ H) {} (t1, ?w)"
      using run_ok_trans by fastforce
    then have "good (fs @ H) t1 ?w" by (simp add: run_ok_def)
    then obtain n' st where "add_batch K fs n (t1, ?w) = Inr (n', st)" "run_ok (fs @ H) t1 ?w H {} st"
      using Cons.IH by blast
    then show ?thesis using add False run_ok_trans [OF one] by auto
  qed
qed

section \<open>A batch of new connections\<close>

text \<open>Fields that only count do not matter to the invariant.\<close>

lemma good_stats [simp]:
  "good H (t\<lparr>batch_processed := x\<rparr>) w = good H t w"
  "good H (t\<lparr>processed_events := y\<rparr>) w = good H t w"
  by (simp_all add: good_def inv_mem_def inv_count_def inv_fds_def thread_fds_def waiting_fds_def
      conn_fds_def owned_def slots_def registered_def)

lemma evolves_stats [simp]:
  "evolves H t w H' (t'\<lparr>batch_processed := x\<rparr>) w' = evolves H t w H' t' w'"
  "evolves H t w H' (t'\<lparr>processed_events := y\<rparr>) w' = evolves H t w H' t' w'"
  by (simp_all add: evolves_def thread_fds_def waiting_fds_def conn_fds_def owned_def)

lemma owned_stats [simp]:
  "owned (t\<lparr>batch_processed := x\<rparr>) = owned t" "owned (t\<lparr>processed_events := y\<rparr>) = owned t"
  "owned (t\<lparr>accept_queue := q\<rparr>) = owned t"
  by (simp_all add: owned_def)

lemma take_from_queue:
  assumes good: "good [] t w" and q: "rq_wf q" and split: "rq_contents (accept_queue t) = xs @ rq_contents q"
  shows "run_ok [] t w xs {} (t\<lparr>accept_queue := q\<rparr>, w)"
proof -
  let ?t = "t\<lparr>accept_queue := q\<rparr>"
  have cf: "conn_fds ?t w = conn_fds t w" by (simp add: conn_fds_def)
  have wf: "waiting_fds xs ?t = waiting_fds [] t" using split by (simp add: waiting_fds_def)
  have "good xs ?t w"
    using good q cf wf
    by (simp add: good_def inv_fds_def thread_fds_def inv_mem_def inv_count_def registered_def slots_def)
  moreover have "evolves [] t w xs ?t w"
    using evolves_refl [of t w "[]"] good cf wf by (simp add: evolves_def thread_fds_def good_def)
  ultimately show ?thesis by (simp add: run_ok_def)
qed

lemma same_mem_run_ok: "good H t w \<Longrightarrow> same_mem w w' \<Longrightarrow> run_ok H t w H {} (t, w')"
  using same_mem_good [of H t w w'] by (simp add: run_ok_def)

lemma same_mem_emit [simp]: "same_mem w (emit e w)"
  by (simp add: same_mem_def)

lemma of_nat_u32_0: "n < 2 ^ 32 \<Longrightarrow> (of_nat n :: u32) = 0 \<longleftrightarrow> n = 0"
  by (auto dest: arg_cong [where f = unat] simp: unat_of_nat_u32)

text \<open>A batch is a prefix \<open>fs\<close> of the queue, empty when the swap of the pop is disturbed.\<close>

lemma process_batch_eq:
  assumes wf: "rq_wf (accept_queue t)"
  obtains fs q where "process_new_connections_batch K (t, w)
      = rbind (add_batch K fs 0 (t\<lparr>accept_queue := q\<rparr>, emit (SysCas (k_spur K (now w))) w)) (\<lambda>(n, t2, w2).
          Inr (n, (if 1 < length fs then t2\<lparr>batch_processed := batch_processed t2 + 1\<rparr> else t2), w2))"
    and "rq_wf q" and "rq_contents (accept_queue t) = fs @ rq_contents q" and "length fs \<le> 64"
proof -
  let ?q = "accept_queue t"
  let ?w1 = "emit (SysCas (k_spur K (now w))) w"
  have cas: "sys_cas K w = (k_spur K (now w), ?w1)" by (simp add: sys_cas_def)
  show ?thesis
  proof (cases "k_spur K (now w)")
    case True
    then have "process_new_connections_batch K (t, w) = Inr (0, t, ?w1)"
      by (simp add: process_new_connections_batch_def cas ring_queue_pop_batch_def Let_def)
    then show ?thesis using that [of "[]" ?q] wf by simp
  next
    case False
    let ?n = "pop_count_of ?q BATCH_SIZE"
    let ?fs = "take ?n (rq_contents ?q)"
    have n: "?n \<le> 64" by (simp add: pop_count_of_def BATCH_SIZE_def)
    obtain q' where pop: "ring_queue_pop_batch (k_spur K (now w)) (Ptr ?q) (Ptr (replicate 64 0)) BATCH_SIZE
        = Inr (of_nat ?n, Ptr q', Ptr (?fs @ drop ?n (replicate 64 0)))"
      and q': "rq_wf q'" "rq_contents q' = drop ?n (rq_contents ?q)"
      using pop_batch_result [OF wf, of BATCH_SIZE "replicate 64 0" "k_spur K (now w)"] n False by auto
    have unat: "unat (of_nat ?n :: u32) = ?n" using n by (intro unat_of_nat_u32) simp
    have len: "length ?fs = ?n" by (simp add: pop_count_of_def)
    have fds: "take (unat (of_nat ?n :: u32)) (?fs @ drop ?n (replicate 64 0)) = ?fs"
      using len unat by simp
    have "(1 < (of_nat ?n :: u32)) = (1 < length ?fs)"
      using unat len by (simp add: word_less_nat_alt)
    moreover have "?n = 0 \<longleftrightarrow> ?fs = []" by (subst (1) len [symmetric]) (rule length_0_conv)
    then have "((of_nat ?n :: u32) = 0) = (?fs = [])" using of_nat_u32_0 [OF le_less_trans [OF n]] by simp
    ultimately have "process_new_connections_batch K (t, w)
        = rbind (add_batch K ?fs 0 (t\<lparr>accept_queue := q'\<rparr>, ?w1)) (\<lambda>(n, t2, w2).
          Inr (n, (if 1 < length ?fs then t2\<lparr>batch_processed := batch_processed t2 + 1\<rparr> else t2), w2))"
      using pop fds by (simp add: process_new_connections_batch_def cas Let_def del: length_take take_eq_Nil)
    then show ?thesis using that [of ?fs q'] q' len n by simp
  qed
qed

lemma process_batch_ok:
  assumes good: "good [] t w"
  shows "\<exists>n st. process_new_connections_batch K (t, w) = Inr (n, st) \<and> run_ok [] t w [] {} st"
proof -
  let ?w1 = "emit (SysCas (k_spur K (now w))) w"
  have wf: "rq_wf (accept_queue t)" using good by (simp add: good_def inv_fds_def)
  obtain fs q where eq: "process_new_connections_batch K (t, w)
      = rbind (add_batch K fs 0 (t\<lparr>accept_queue := q\<rparr>, ?w1)) (\<lambda>(n, t2, w2).
          Inr (n, (if 1 < length fs then t2\<lparr>batch_processed := batch_processed t2 + 1\<rparr> else t2), w2))"
    and q: "rq_wf q" "rq_contents (accept_queue t) = fs @ rq_contents q"
    by (rule process_batch_eq [OF wf, of K w])
  have zero: "run_ok [] t w [] {} (t, ?w1)" by (rule same_mem_run_ok [OF good]) simp
  then have "good [] t ?w1" by (simp add: run_ok_def)
  then have one: "run_ok [] t ?w1 fs {} (t\<lparr>accept_queue := q\<rparr>, ?w1)" using q by (rule take_from_queue)
  then have "good (fs @ []) (t\<lparr>accept_queue := q\<rparr>) ?w1" by (simp add: run_ok_def)
  then obtain m t2 w2 where add: "add_batch K fs 0 (t\<lparr>accept_queue := q\<rparr>, ?w1) = Inr (m, t2, w2)"
    and two: "run_ok fs (t\<lparr>accept_queue := q\<rparr>) ?w1 [] {} (t2, w2)"
    using add_batch_ok [of fs "[]" "t\<lparr>accept_queue := q\<rparr>" ?w1 K 0] by auto
  have "run_ok [] t w [] {} (t2, w2)"
    using run_ok_trans [OF zero run_ok_trans [OF one two]] by simp
  then show ?thesis using eq add by (auto simp: run_ok_def)
qed

section \<open>Sorting the events\<close>

text \<open>An event is sound when its data is a live connection and it does not ask for both a read
  and a write: a connection is registered for one of the two.\<close>

definition sound_event :: "reactor_thread \<Rightarrow> addr ptr \<times> u32 \<Rightarrow> bool" where
  "sound_event t e \<longleftrightarrow> (\<exists>a \<in> owned t. fst e = Ptr a)
     \<and> (snd e AND EPOLLIN = 0 \<or> snd e AND EPOLLOUT = 0)"

lemma reported_in_mode: "reported IN_MODE fl AND EPOLLOUT = 0"
  by (simp add: reported_def and.assoc)

lemma reported_out_mode: "reported OUT_MODE fl AND EPOLLIN = 0"
  by (simp add: reported_def and.assoc)

lemma ready_sound:
  assumes good: "good H t w" and ev: "(f, d, fl) \<in> set (ready (interest w (epoll_fd t)) evs)"
  obtains a c where "d = Ptr a" and "heap w a = Some c" and "conn_fd c = f" and "sound_event t (d, fl)"
proof -
  have inv: "inv_mem t w" using good by (simp add: good_def)
  obtain msk fl0 where reg: "interest w (epoll_fd t) f = Some (d, msk)" and fl: "fl = reported msk fl0"
    by (rule ready_registered [OF ev])
  obtain a c where a: "a \<in> owned t" "d = Ptr a" "heap w a = Some c" "conn_fd c = f"
    by (rule interest_owned [OF inv reg])
  obtain c' where c': "heap w a = Some c'" "registered t w a c'" by (rule owned_heap [OF inv a(1)])
  then have "msk = IN_MODE \<or> msk = OUT_MODE" using a reg by (auto simp: registered_def)
  then have "sound_event t (d, fl)"
    using a fl reported_in_mode [of fl0] reported_out_mode [of fl0] by (auto simp: sound_event_def)
  then show ?thesis using that a by blast
qed

lemma epoll_wait_sound:
  assumes good: "good H t w" and wait: "sys_epoll_wait K (epoll_fd t) n w = (Inr evs, w')"
  shows "same_mem w w'" and "list_all (sound_event t) evs" and "distinct (map fst evs)"
proof -
  obtain raw where evs: "evs = map snd (take n (ready (interest w (epoll_fd t)) raw))"
    and w': "w' = emit (SysEpollWait (epoll_fd t)) w"
    using wait by (auto simp: sys_epoll_wait_def split: sum.splits)
  let ?R = "ready (interest w (epoll_fd t)) raw"
  show "same_mem w w'" by (simp add: w')
  have sub: "set (take n ?R) \<subseteq> set ?R" by (rule set_take_subset)
  show "list_all (sound_event t) evs"
    unfolding list_all_iff evs
  proof
    fix e
    assume "e \<in> set (map snd (take n ?R))"
    then obtain f where "(f, fst e, snd e) \<in> set ?R" using sub by auto
    from ready_sound [OF good this] show "sound_event t e" by (metis prod.collapse)
  qed
  have inj: "fst x = fst y" if x: "x \<in> set ?R" and y: "y \<in> set ?R" and eq: "fst (snd x) = fst (snd y)" for x y
  proof -
    have "(fst x, fst (snd x), snd (snd x)) \<in> set ?R" using x by simp
    from ready_sound [OF good this] obtain a c
      where "fst (snd x) = Ptr a" "heap w a = Some c" "conn_fd c = fst x" by metis
    moreover have "(fst y, fst (snd y), snd (snd y)) \<in> set ?R" using y by simp
    from ready_sound [OF good this] obtain b d
      where "fst (snd y) = Ptr b" "heap w b = Some d" "conn_fd d = fst y" by metis
    ultimately show ?thesis using eq by auto
  qed
  have "distinct (map fst (take n ?R))"
    using distinct_ready [of "interest w (epoll_fd t)" raw] by (simp add: take_map [symmetric])
  then have "distinct (take n ?R)" by (simp add: distinct_map)
  have fsts: "inj_on fst (set (take n ?R))"
    using \<open>distinct (map fst (take n ?R))\<close> by (simp add: distinct_map)
  have "inj_on (fst \<circ> snd) (set (take n ?R))"
  proof (rule inj_onI)
    fix x y
    assume xy: "x \<in> set (take n ?R)" "y \<in> set (take n ?R)" and "(fst \<circ> snd) x = (fst \<circ> snd) y"
    then have "fst x = fst y" using sub by (intro inj) auto
    then show "x = y" using inj_onD [OF fsts _ xy] by simp
  qed
  with \<open>distinct (take n ?R)\<close> show "distinct (map fst evs)" by (simp add: evs distinct_map comp_def)
qed

lemma sound_event_mono: "sound_event t e \<Longrightarrow> owned t - {a} \<subseteq> owned t' \<Longrightarrow> fst e \<noteq> Ptr a \<Longrightarrow> sound_event t' e"
  by (auto simp: sound_event_def)

lemma clock_same_mem: "get_current_time_ms K w = (ms, w') \<Longrightarrow> same_mem w w'"
  by (auto simp: get_current_time_ms_def sys_clock_def same_mem_def split: prod.splits)

text \<open>Stamping the time of a connection touches nothing else.\<close>

lemma stamp_ok:
  assumes good: "good H t w" and a: "a \<in> owned t" "heap w a = Some c" and ms: "same_mem w w1"
  shows "step_ok H t w a (t, put a (c\<lparr>last_active_time := m\<rparr>) w1)"
proof -
  have "wf_conn c" using good_alive [OF good a(1)] a(2) by auto
  then have "touches t a (conn_fd c) w (put a (c\<lparr>last_active_time := m\<rparr>) w1)"
    using ms by (auto simp: touches_def same_mem_def)
  then show ?thesis by (rule step_ok_touch [OF good a])
qed

text \<open>The result of sorting: distinct live connections, each in one of the two arrays.\<close>

definition sorted_ok :: "reactor_thread \<Rightarrow> addr list \<Rightarrow> addr ptr list \<Rightarrow> bool" where
  "sorted_ok t rs ws \<longleftrightarrow> set rs \<subseteq> owned t \<and> (\<exists>as. ws = map Ptr as \<and> set as \<subseteq> owned t \<and> distinct (rs @ as))"

lemma sorted_ok_add:
  assumes "sorted_ok t rs ws" and "a \<in> owned t" and "a \<notin> set rs" and "Ptr a \<notin> set ws"
  shows "sorted_ok t (rs @ [a]) ws" and "sorted_ok t rs (ws @ [Ptr a])"
proof -
  obtain as where as: "ws = map Ptr as" "set as \<subseteq> owned t" "distinct (rs @ as)" "set rs \<subseteq> owned t"
    using assms(1) by (auto simp: sorted_ok_def)
  show "sorted_ok t (rs @ [a]) ws" using as assms by (auto simp: sorted_ok_def)
  have "ws @ [Ptr a] = map Ptr (as @ [a])" "distinct (rs @ as @ [a])" using as assms by auto
  then show "sorted_ok t rs (ws @ [Ptr a])"
    using as(2,4) assms(2) unfolding sorted_ok_def by (intro conjI exI [of _ "as @ [a]"]) auto
qed

lemma sorted_ok_mono:
  "sorted_ok t rs ws \<Longrightarrow> owned t - {a} \<subseteq> owned t' \<Longrightarrow> a \<notin> set rs \<Longrightarrow> Ptr a \<notin> set ws \<Longrightarrow> sorted_ok t' rs ws"
  by (fastforce simp: sorted_ok_def)

lemma classify_ok:
  "good H t w \<Longrightarrow> list_all (sound_event t) evs \<Longrightarrow> distinct (map fst evs) \<Longrightarrow> sorted_ok t rs ws \<Longrightarrow>
   \<forall>a. Ptr a \<in> fst ` set evs \<longrightarrow> a \<notin> set rs \<and> Ptr a \<notin> set ws \<Longrightarrow>
   \<exists>rs' ws' t' w'. classify K evs rs ws (t, w) = Inr (rs', ws', t', w') \<and> sorted_ok t' rs' ws'
     \<and> good H t' w' \<and> evolves H t w H t' w'"
proof (induction evs arbitrary: rs ws t w)
  case Nil
  then show ?case using evolves_refl [of t w H] by (simp add: good_def)
next
  case (Cons e evs)
  obtain a fl where e: "e = (Ptr a, fl)" and a: "a \<in> owned t" and fl: "fl AND EPOLLIN = 0 \<or> fl AND EPOLLOUT = 0"
    using Cons.prems(2) by (cases e) (auto simp: sound_event_def)
  obtain c where c: "heap w a = Some c" "wf_conn c" by (rule good_alive [OF Cons.prems(1) a])
  obtain ms w1 where time: "get_current_time_ms K w = (ms, w1)" by force
  let ?c = "c\<lparr>last_active_time := ms\<rparr>"
  let ?w = "put a ?c w1"
  have same: "same_mem w w1" by (rule clock_same_mem [OF time])
  then have load: "heap w1 a = Some c" using c by (simp add: same_mem_def)
  have one: "step_ok H t w a (t, ?w)" by (rule stamp_ok [OF Cons.prems(1) a c(1) same])
  then have good1: "good H t ?w" and ev1: "evolves H t w H t ?w" by (auto simp: step_ok_def)
  have fresh: "a \<notin> set rs" "Ptr a \<notin> set ws" and others: "Ptr a \<notin> fst ` set evs"
    using Cons.prems(3,5) e by auto
  have finish: ?case
    if good2: "good H t2 w2" and ev2: "evolves H t ?w H t2 w2" and own: "owned t - {a} \<subseteq> owned t2"
      and s: "sorted_ok t2 rs2 ws2" and eq: "classify K (e # evs) rs ws (t, w) = classify K evs rs2 ws2 (t2, w2)"
      and sub: "set rs2 \<subseteq> insert a (set rs)" "set ws2 \<subseteq> insert (Ptr a) (set ws)" for t2 w2 rs2 ws2
  proof -
    have "list_all (sound_event t2) evs"
      unfolding list_all_iff
    proof
      fix x
      assume "x \<in> set evs"
      moreover from this have "fst x \<noteq> Ptr a" using others by force
      ultimately show "sound_event t2 x"
        using Cons.prems(2) own by (intro sound_event_mono [of t x a t2]) (auto simp: list_all_iff)
    qed
    moreover have "\<forall>b. Ptr b \<in> fst ` set evs \<longrightarrow> b \<notin> set rs2 \<and> Ptr b \<notin> set ws2"
      using Cons.prems(5) sub others by auto
    ultimately obtain rs' ws' t' w' where res: "classify K evs rs2 ws2 (t2, w2) = Inr (rs', ws', t', w')"
      "sorted_ok t' rs' ws'" "good H t' w'" "evolves H t2 w2 H t' w'"
      using Cons.IH [OF good2 _ _ s] Cons.prems(3) by auto
    then show ?thesis
      using eq evolves_trans [OF evolves_trans [OF ev1 ev2], of H t' w'] by auto
  qed
  show ?case
  proof (cases "fl AND (EPOLLERR OR EPOLLHUP) = 0")
    case True
    let ?rs = "if fl AND EPOLLIN \<noteq> 0 then rs @ [a] else rs"
    let ?ws = "if fl AND EPOLLOUT \<noteq> 0 then ws @ [Ptr a] else ws"
    have "sorted_ok t ?rs ?ws"
      using fl sorted_ok_add [OF Cons.prems(4) a fresh] Cons.prems(4) by auto
    moreover have "classify K (e # evs) rs ws (t, w) = classify K evs ?rs ?ws (t, ?w)"
      using True e time load by simp
    moreover have "evolves H t ?w H t ?w" using good1 evolves_refl by (simp add: good_def)
    ultimately show ?thesis using good1 by (intro finish) (auto split: if_splits)
  next
    case False
    have "heap ?w a = Some ?c" by simp
    then obtain t2 w2 where close: "handle_close_event K (Ptr a) (t, ?w) = Inr (t2, w2)" "good H t2 w2"
      "evolves H t ?w H t2 w2" "owned t2 = owned t - {a}"
      using close_good [OF good1 a, of ?c K] by blast
    have "sorted_ok t2 rs ws"
      using Cons.prems(4) close(4) fresh by (intro sorted_ok_mono [of t rs ws a t2]) auto
    moreover have "classify K (e # evs) rs ws (t, w) = classify K evs rs ws (t2, w2)"
      using False e time load close(1) by simp
    ultimately show ?thesis using close by (intro finish) auto
  qed
qed

section \<open>The timeout sweep\<close>

lemma timeout_sweep_ok:
  "good H t w \<Longrightarrow> \<exists>t' w'. timeout_sweep K ms i (t, w) = Inr (t', w') \<and> good H t' w' \<and> evolves H t w H t' w'"
proof (induction "MAX_CONNECTIONS - i" arbitrary: i t w)
  case 0
  then show ?case using evolves_refl [of t w H] by (subst timeout_sweep.simps) (simp add: good_def)
next
  case (Suc n)
  then have i: "i < MAX_CONNECTIONS" and n: "n = MAX_CONNECTIONS - Suc i" by auto
  note IH = Suc.hyps(1) [OF n]
  show ?case
  proof (cases "connections t i")
    case NULL
    then show ?thesis using IH [OF Suc.prems] i by (subst timeout_sweep.simps) simp
  next
    case (Ptr a)
    then have a: "a \<in> owned t" using i by (auto simp: owned_def)
    obtain c where c: "heap w a = Some c" by (rule good_alive [OF Suc.prems a])
    show ?thesis
    proof (cases "30000 < ms - last_active_time c")
      case True
      obtain t1 w1 where close: "handle_close_event K (Ptr a) (t, w) = Inr (t1, w1)" "good H t1 w1"
        "evolves H t w H t1 w1" using close_good [OF Suc.prems a c, of K] by blast
      obtain t2 w2 where rest: "timeout_sweep K ms (Suc i) (t1, w1) = Inr (t2, w2)" "good H t2 w2"
        "evolves H t1 w1 H t2 w2" using IH [OF close(2)] by blast
      then have "evolves H t w H t2 w2" using close(3) by (intro evolves_trans [OF close(3)])
      then show ?thesis using i Ptr c True close(1) rest by (subst timeout_sweep.simps) simp
    next
      case False
      then show ?thesis using IH [OF Suc.prems] i Ptr c by (subst timeout_sweep.simps) simp
    qed
  qed
qed

lemma timer_check_ok:
  assumes "good H t w"
  shows "\<exists>t' w'. timer_check K n (t, w) = Inr (t', w') \<and> good H t' w' \<and> evolves H t w H t' w'"
proof (cases "n mod 100 = 0")
  case True
  obtain ms w1 where time: "get_current_time_ms K w = (ms, w1)" by force
  then have one: "good H t w1 \<and> evolves H t w H t w1"
    using same_mem_good [OF assms clock_same_mem [OF time]] by simp
  then obtain t' w' where two: "timeout_sweep K ms 0 (t, w1) = Inr (t', w')" "good H t' w'" "evolves H t w1 H t' w'"
    using timeout_sweep_ok [OF conjunct1 [OF one], of K ms 0] by blast
  then have "evolves H t w H t' w'" using evolves_trans [OF conjunct2 [OF one]] by blast
  then show ?thesis using True time two by (simp add: timer_check_def)
next
  case False
  then show ?thesis using assms evolves_refl [of t w H] by (simp add: timer_check_def good_def)
qed

section \<open>A pass of the loop\<close>

lemma handlers_ok:
  assumes good: "good H t w" and s: "sorted_ok t rs ws"
  shows "\<exists>t1 w1 t2 w2. read_all K rs (t, w) = Some (Inr (t1, w1)) \<and> handle_write_events K ws (t1, w1) = Inr (t2, w2)
    \<and> good H t1 w1 \<and> good H t2 w2 \<and> evolves H t w H t2 w2"
proof -
  obtain as where as: "ws = map Ptr as" "set as \<subseteq> owned t" "distinct (rs @ as)" "set rs \<subseteq> owned t"
    using s by (auto simp: sorted_ok_def)
  obtain t1 w1 where read: "read_all K rs (t, w) = Some (Inr (t1, w1))" "run_ok H t w H (set rs) (t1, w1)"
    using read_all_ok [OF good as(4)] as(3) by fastforce
  then have good1: "good H t1 w1" and ev1: "evolves H t w H t1 w1" and "set as \<subseteq> owned t1"
    using as by (auto simp: run_ok_def)
  then obtain t2 w2 where "handle_write_events K ws (t1, w1) = Inr (t2, w2)" "run_ok H t1 w1 H (set as) (t2, w2)"
    using write_all_ok [OF good1, of as K] as by fastforce
  then show ?thesis using read good1 evolves_trans [OF ev1, of H t2 w2] by (auto simp: run_ok_def)
qed

lemma reactor_iteration_ok:
  assumes good: "good [] t w"
  shows "\<exists>b t' w'. reactor_iteration K n (t, w) = Some (Inr (b, t', w')) \<and> good [] t' w' \<and> evolves [] t w [] t' w'"
proof -
  obtain m t1 w1 where batch: "process_new_connections_batch K (t, w) = Inr (m, t1, w1)"
    and good1: "good [] t1 w1" and ev1: "evolves [] t w [] t1 w1"
    using process_batch_ok [OF good, of K] by (auto simp: run_ok_def)
  obtain r w2 where wait: "sys_epoll_wait K (epoll_fd t1) MAX_EVENTS w1 = (r, w2)" by force
  then have same: "same_mem w1 w2" by (auto simp: sys_epoll_wait_def)
  then have good2: "good [] t1 w2" and ev2: "evolves [] t w [] t1 w2"
    using same_mem_good [OF good1] evolves_trans [OF ev1] by blast+
  show ?thesis
  proof (cases r)
    case (Inl e)
    then show ?thesis using batch wait good2 ev2 by (simp add: reactor_iteration_def)
  next
    case (Inr evs)
    let ?t = "if evs \<noteq> [] then t1\<lparr>processed_events := processed_events t1 + of_nat (length evs)\<rparr> else t1"
    note sound = epoll_wait_sound [OF good1 wait [unfolded Inr]]
    have good3: "good [] ?t w2" using good2 by simp
    have sorted_nil: "sorted_ok ?t [] []" by (simp add: sorted_ok_def)
    have "sound_event ?t = sound_event t1" by (auto simp: fun_eq_iff sound_event_def)
    then obtain rs ws t3 w3 where cls: "classify K evs [] [] (?t, w2) = Inr (rs, ws, t3, w3)" "sorted_ok t3 rs ws"
      and good4: "good [] t3 w3" and ev3': "evolves [] ?t w2 [] t3 w3"
      using classify_ok [OF good3, of evs "[]" "[]" K] sound sorted_nil by auto
    have ev3: "evolves [] t w [] ?t w2" using ev2 by simp
    have ev4: "evolves [] t w [] t3 w3" by (rule evolves_trans [OF ev3 ev3'])
    obtain t4 w4 t5 w5 where read: "read_all K rs (t3, w3) = Some (Inr (t4, w4))"
      and wr: "handle_write_events K ws (t4, w4) = Inr (t5, w5)" and good5: "good [] t5 w5"
      and ev4': "evolves [] t3 w3 [] t5 w5"
      using handlers_ok [OF good4 cls(2), of K] by blast
    have ev5: "evolves [] t w [] t5 w5" by (rule evolves_trans [OF ev4 ev4'])
    obtain t6 w6 where timer: "timer_check K n (t5, w5) = Inr (t6, w6)" "good [] t6 w6" "evolves [] t5 w5 [] t6 w6"
      using timer_check_ok [OF good5, of K n] by blast
    have skip: "(if ws \<noteq> [] then handle_write_events K ws (t4, w4) else Inr (t4, w4)) = Inr (t5, w5)"
      using wr by (cases ws) auto
    have "reactor_iteration K n (t, w) = Some (Inr (True, t6, w6))"
      using batch wait Inr cls(1) read skip timer(1) by (simp add: reactor_iteration_def Let_def)
    then show ?thesis
      using timer evolves_trans [OF ev5 timer(3)] by blast
  qed
qed

lemma thread_passes_ok:
  "good [] t w \<Longrightarrow> \<exists>t' w'. thread_passes K n k (t, w) = Some (Inr (t', w')) \<and> good [] t' w' \<and> evolves [] t w [] t' w'"
proof (induction n arbitrary: k t w)
  case 0
  then show ?case using evolves_refl [of t w "[]"] by (simp add: good_def)
next
  case (Suc n)
  show ?case
  proof (cases "running t")
    case False
    then show ?thesis using Suc.prems evolves_refl [of t w "[]"] by (simp add: good_def)
  next
    case True
    obtain b t1 w1 where one: "reactor_iteration K (k + 1) (t, w) = Some (Inr (b, t1, w1))" "good [] t1 w1"
      and ev1: "evolves [] t w [] t1 w1" using reactor_iteration_ok [OF Suc.prems, of K "k + 1"] by blast
    show ?thesis
    proof (cases b)
      case b: True
      obtain t' w' where "thread_passes K n (k + 1) (t1, w1) = Some (Inr (t', w'))" "good [] t' w'" "evolves [] t1 w1 [] t' w'"
        using Suc.IH [OF one(2)] by blast
      then show ?thesis using True one(1) b evolves_trans [OF ev1] by auto
    next
      case False
      then show ?thesis using True one ev1 by auto
    qed
  qed
qed

lemma good_running [simp]: "good H (t\<lparr>running := b\<rparr>) w = good H t w"
  by (simp add: good_def inv_mem_def inv_count_def inv_fds_def thread_fds_def waiting_fds_def
      conn_fds_def owned_def slots_def registered_def)

lemma thread_main_ok:
  "good [] t w \<Longrightarrow> \<exists>t' w'. reactor_thread_main K n (t, w) = Some (Inr (t', w')) \<and> good [] t' w'"
  using thread_passes_ok [of "t\<lparr>running := True\<rparr>" w K n 0] by (auto simp: reactor_thread_main_def)

end
