(* ===== verification/Reactor.thy ===== *)
theory Reactor
  imports ReactorLoop
begin

text \<open>
  \<open>codes/network/reactor/reactor.c\<close>, the reactor that owns the threads: creating it, handing a
  descriptor to a thread, starting, stopping, destroying, and the statistics.

  \<^item> \<open>reactor\<close> is \<open>reactor_t\<close>; its array of 16 threads is a list. The four callback pointers are
    there because the structure has them; no code uses them.
  \<^item> \<open>pthread_join\<close> blocks while the threads run on: the argument \<open>J\<close> of \<open>reactor_stop\<close> is
    what they do to the reactor and the world until thread \<open>i\<close> has ended. \<open>ReactorSystem\<close> has the
    same call cut into its steps, beside those of the threads.
\<close>

section \<open>State\<close>

definition MAX_REACTOR_THREADS :: int where "MAX_REACTOR_THREADS = 16"

record reactor =
  threads :: "reactor_thread list"
  thread_count :: int
  reactor_running :: bool
  next_thread :: u32
  on_connect :: "addr ptr"
  on_data :: "addr ptr"
  on_write :: "addr ptr"
  on_close :: "addr ptr"

text \<open>A zeroed \<open>reactor_thread_t\<close>.\<close>

definition zero_thread :: reactor_thread where
  "zero_thread = \<lparr>thread_id = 0, thread_started = False, running = False, epoll_fd = 0,
     connections = (\<lambda>_. NULL), connection_count = 0,
     accept_queue = \<lparr>head = 0, tail = 0, buffer = replicate 65536 0,
        push_count = 0, pop_count = 0, push_fail_count = 0\<rparr>,
     total_connections = 0, active_connections = 0, processed_events = 0, batch_processed = 0\<rparr>"

section \<open>Creating\<close>

text \<open>Closing the descriptors of a list, in order.\<close>

fun close_all :: "fd list \<Rightarrow> ('o, 'd) world \<Rightarrow> ('o, 'd) world" where
  "close_all [] w = w"
| "close_all (f # fs) w = close_all fs (sys_close f w)"

text \<open>The loop over the threads: \<open>None\<close> when an epoll instance could not be had.\<close>

fun create_threads :: "kernel \<Rightarrow> nat list \<Rightarrow> reactor_thread list \<Rightarrow> rworld
    \<Rightarrow> reactor_thread list option \<times> rworld" where
  "create_threads K [] ts w = (Some ts, w)"
| "create_threads K (i # is) ts w =
     (let t = (ts ! i)\<lparr>thread_id := int i, running := False, connection_count := 0,
                accept_queue := deref (ring_queue_init (Ptr (accept_queue (ts ! i))))\<rparr>
      in case sys_newfd K SysEpollCreate w of
           (Inl e, w1) \<Rightarrow> (None, close_all (map epoll_fd (take i ts)) w1)
         | (Inr ep, w1) \<Rightarrow> create_threads K is
             (ts[i := t\<lparr>epoll_fd := ep, total_connections := 0, active_connections := 0,
                        processed_events := 0, batch_processed := 0, connections := (\<lambda>_. NULL)\<rparr>]) w1)"

definition reactor_create :: "kernel \<Rightarrow> int \<Rightarrow> rworld \<Rightarrow> reactor ptr \<times> rworld" where
  "reactor_create K n w =
     (if n \<le> 0 \<or> MAX_REACTOR_THREADS < n then (NULL, w)
      else case sys_block K w of
          (False, w1) \<Rightarrow> (NULL, w1)
        | (True, w1) \<Rightarrow> (case create_threads K [0..<nat n] (replicate 16 zero_thread) w1 of
            (None, w2) \<Rightarrow> (NULL, emit SysFreeBlock w2)
          | (Some ts, w2) \<Rightarrow> (Ptr \<lparr>threads = ts, thread_count = n, reactor_running = False, next_thread = 0,
              on_connect = NULL, on_data = NULL, on_write = NULL, on_close = NULL\<rparr>, w2)))"

section \<open>Handing over a descriptor\<close>

definition set_thread :: "nat \<Rightarrow> reactor_thread \<Rightarrow> reactor \<Rightarrow> reactor" where
  "set_thread i t r = r\<lparr>threads := (threads r)[i := t]\<rparr>"

text \<open>Round robin; the counter goes on also when the push fails.\<close>

definition reactor_add_connection ::
  "(nat \<Rightarrow> bool) \<Rightarrow> reactor ptr \<Rightarrow> fd \<Rightarrow> (int \<times> reactor ptr) option" where
  "reactor_add_connection spur p f = (case p of
     NULL \<Rightarrow> Some (-1, NULL)
   | Ptr r \<Rightarrow>
      if f < 0 then Some (-1, p)
      else if \<not> reactor_running r then Some (-1, p)
      else
        let i = unat (next_thread r mod word_of_int (thread_count r));
            r1 = r\<lparr>next_thread := next_thread r + 1\<rparr>;
            t = threads r1 ! i
        in case ring_queue_push spur (Ptr (accept_queue t)) f of
             None \<Rightarrow> None
           | Some (b, q) \<Rightarrow> Some (if b then 0 else -1, Ptr (set_thread i (t\<lparr>accept_queue := deref q\<rparr>) r1)))"

section \<open>Stopping\<close>

fun stop_threads :: "(nat \<Rightarrow> reactor \<times> rworld \<Rightarrow> reactor \<times> rworld) \<Rightarrow> nat list
    \<Rightarrow> reactor \<times> rworld \<Rightarrow> reactor \<times> rworld" where
  "stop_threads J [] st = st"
| "stop_threads J (i # is) (r, w) =
     (let r1 = set_thread i ((threads r ! i)\<lparr>running := False\<rparr>) r
      in stop_threads J is
           (if thread_started (threads r ! i)
            then (case J i (r1, w) of (r2, w2) \<Rightarrow> (r2, emit SysJoin w2))
            else (r1, w)))"

definition reactor_stop :: "(nat \<Rightarrow> reactor \<times> rworld \<Rightarrow> reactor \<times> rworld)
    \<Rightarrow> reactor ptr \<Rightarrow> rworld \<Rightarrow> int \<times> reactor ptr \<times> rworld" where
  "reactor_stop J p w = (case p of
     NULL \<Rightarrow> (-1, NULL, w)
   | Ptr r \<Rightarrow>
      if \<not> reactor_running r then (-1, p, w)
      else case stop_threads J [0..<nat (thread_count r)] (r\<lparr>reactor_running := False\<rparr>, w) of
        (r', w') \<Rightarrow> (0, Ptr r', w'))"

section \<open>Starting\<close>

text \<open>The loop over the threads: \<open>False\<close> when a thread could not be created.\<close>

fun start_threads :: "kernel \<Rightarrow> nat list \<Rightarrow> reactor \<Rightarrow> rworld \<Rightarrow> bool \<times> reactor \<times> rworld" where
  "start_threads K [] r w = (True, r, w)"
| "start_threads K (i # is) r w = (case sys_ok K SysThread w of
     (None, w1) \<Rightarrow> start_threads K is (set_thread i ((threads r ! i)\<lparr>thread_started := True\<rparr>) r) w1
   | (Some e, w1) \<Rightarrow> (False, r, w1))"

definition reactor_run :: "kernel \<Rightarrow> (nat \<Rightarrow> reactor \<times> rworld \<Rightarrow> reactor \<times> rworld)
    \<Rightarrow> reactor ptr \<Rightarrow> rworld \<Rightarrow> int \<times> reactor ptr \<times> rworld" where
  "reactor_run K J p w = (case p of
     NULL \<Rightarrow> (-1, NULL, w)
   | Ptr r \<Rightarrow>
      if reactor_running r then (-1, p, w)
      else case start_threads K [0..<nat (thread_count r)] (r\<lparr>reactor_running := True\<rparr>) w of
          (True, r1, w1) \<Rightarrow> (0, Ptr r1, w1)
        | (False, r1, w1) \<Rightarrow> (case reactor_stop J (Ptr r1) w1 of (_, p2, w2) \<Rightarrow> (-1, p2, w2)))"

section \<open>Destroying\<close>

text \<open>The loop over the slots of a thread.\<close>

function close_slots :: "reactor_thread \<Rightarrow> nat \<Rightarrow> rworld \<Rightarrow> rworld res" where
  "close_slots t j w =
     (if j < MAX_CONNECTIONS
      then case connections t j of
          NULL \<Rightarrow> close_slots t (Suc j) w
        | Ptr a \<Rightarrow> rbind (load a w) (\<lambda>c.
            rbind (sys_free a (sys_close (conn_fd c) w)) (close_slots t (Suc j)))
      else Inr w)"
  by pat_completeness auto
termination
  by (relation "measure (\<lambda>(t, j, w). MAX_CONNECTIONS - j)") auto

declare close_slots.simps [simp del]

fun destroy_threads :: "reactor_thread list \<Rightarrow> rworld \<Rightarrow> rworld res" where
  "destroy_threads [] w = Inr w"
| "destroy_threads (t # ts) w = rbind (close_slots t 0 (sys_close (epoll_fd t) w)) (destroy_threads ts)"

definition reactor_destroy :: "(nat \<Rightarrow> reactor \<times> rworld \<Rightarrow> reactor \<times> rworld)
    \<Rightarrow> reactor ptr \<Rightarrow> rworld \<Rightarrow> (int \<times> rworld) res" where
  "reactor_destroy J p w = (case p of
     NULL \<Rightarrow> Inr (-1, w)
   | Ptr _ \<Rightarrow> (case reactor_stop J p w of (_, p1, w1) \<Rightarrow>
       rbind (destroy_threads (take (nat (thread_count (deref p1))) (threads (deref p1))) w1) (\<lambda>w2.
         Inr (0, emit SysFreeBlock w2))))"

section \<open>Statistics\<close>

text \<open>The numbers of the printed lines.\<close>

definition reactor_stats :: "reactor ptr \<Rightarrow> (nat \<times> u32 \<times> u64 \<times> u64) list" where
  "reactor_stats p = (case p of
     NULL \<Rightarrow> []
   | Ptr r \<Rightarrow> map (\<lambda>i. (i, connection_count (threads r ! i), processed_events (threads r ! i),
                        batch_processed (threads r ! i))) [0..<nat (thread_count r)])"

end
