(* ===== verification/RingProps.thy ===== *)
theory RingProps
  imports RingQueue
begin

text \<open>
  What the ring queue promises its users: first-in first-out order and a bound over any sequence of
  calls, the batch calls as many single calls at once, exactly when a call returns, what the size
  queries report, and the statistics.
\<close>

section \<open>Helper lemmas\<close>

text \<open>A retry loop that returned without a verdict on the queue saw an undisturbed swap.\<close>

lemma push_loop_some:
  "push_loop spur i q x = Some r \<Longrightarrow> rq_len q < 65536 \<Longrightarrow> \<exists>j \<ge> i. \<not> spur j"
proof (induction rule: push_loop.raw_induct [rotated 1, consumes 1])
  case (1 loop spur i q x r)
  show ?case
  proof (cases "spur i")
    case True
    then have "loop spur (Suc i) q x = Some r"
      using 1(2,3) by (simp add: not_full_iff [symmetric])
    then show ?thesis using 1(1) [of spur "Suc i" q x r] 1(3) by (auto intro: Suc_leD)
  qed auto
qed

lemma pop_loop_some:
  "pop_loop spur i q v = Some r \<Longrightarrow> rq_len q \<noteq> 0 \<Longrightarrow> \<exists>j \<ge> i. \<not> spur j"
proof (induction rule: pop_loop.raw_induct [rotated 1, consumes 1])
  case (1 loop spur i q v r)
  show ?case
  proof (cases "spur i")
    case True
    then have "loop spur (Suc i) q (buffer q ! cell (head q)) = Some r"
      using 1(2,3) by (simp add: empty_iff)
    then show ?thesis
      using 1(1) [of spur "Suc i" q _ r] 1(3) by (auto intro: Suc_leD)
  qed auto
qed

lemma push_loop_returns_iff:
  "(push_loop spur 0 q x \<noteq> None) = (rq_len q = 65536 \<or> 65536 < rq_len q \<or> (\<exists>i. \<not> spur i))"
proof
  assume "push_loop spur 0 q x \<noteq> None"
  then show "rq_len q = 65536 \<or> 65536 < rq_len q \<or> (\<exists>i. \<not> spur i)"
    using push_loop_some [of spur 0 q x] by fastforce
next
  assume "rq_len q = 65536 \<or> 65536 < rq_len q \<or> (\<exists>i. \<not> spur i)"
  then consider "\<not> rq_len q < 65536" | i where "\<not> spur i" by auto
  then show "push_loop spur 0 q x \<noteq> None"
  proof cases
    case 1
    then show ?thesis by (subst push_loop.simps) (simp add: not_full_iff [symmetric])
  next
    case 2
    then show ?thesis using push_loop_returns [of spur 0 i q x] by simp
  qed
qed

lemma pop_loop_returns_iff:
  "(pop_loop spur 0 q v \<noteq> None) = (rq_len q = 0 \<or> (\<exists>i. \<not> spur i))"
proof
  assume "pop_loop spur 0 q v \<noteq> None"
  then show "rq_len q = 0 \<or> (\<exists>i. \<not> spur i)" using pop_loop_some [of spur 0 q v] by fastforce
next
  assume "rq_len q = 0 \<or> (\<exists>i. \<not> spur i)"
  then consider "rq_len q = 0" | i where "\<not> spur i" by auto
  then show "pop_loop spur 0 q v \<noteq> None"
  proof cases
    case 1
    then show ?thesis by (subst pop_loop.simps) (simp add: empty_iff)
  next
    case 2
    then show ?thesis using pop_loop_returns [of spur 0 i q v] by simp
  qed
qed

text \<open>The counters of a single step.\<close>

fun rejected :: "'a qout list \<Rightarrow> nat" where
  "rejected [] = 0"
| "rejected (Rejected # rs) = Suc (rejected rs)"
| "rejected (_ # rs) = rejected rs"

context weak_cas
begin

lemma step_counts:
  assumes "rq_step spur q e = (r, q')"
  shows "push_count q' = push_count q + (if r = Accepted then 1 else 0)"
    and "pop_count q' = pop_count q + (if \<exists>x. r = Got x then 1 else 0)"
    and "push_fail_count q' = push_fail_count q + (if r = Rejected then 1 else 0)"
    and "r = Accepted \<or> r = Rejected \<longleftrightarrow> (\<exists>x. e = Enq x)"
  using assms by (auto simp: rq_step_def enq_eq deq_eq push_result_def pop_result_def split: qop.splits if_splits)

lemma run_counts:
  "run_ops (rq_step spur) q es = (rs, q') \<Longrightarrow>
   push_count q' = push_count q + of_nat (length (accepted es rs))
   \<and> pop_count q' = pop_count q + of_nat (length (delivered rs))
   \<and> push_fail_count q' = push_fail_count q + of_nat (rejected rs)"
proof (induction es arbitrary: q rs)
  case Nil
  then show ?case by simp
next
  case (Cons e es)
  obtain r q1 where step: "rq_step spur q e = (r, q1)" by force
  obtain rs1 where rest: "run_ops (rq_step spur) q1 es = (rs1, q')" and rs: "rs = r # rs1"
    using Cons.prems step by (auto split: prod.splits)
  show ?case
    using Cons.IH [OF rest] step_counts [OF step] rs by (cases e; cases r) auto
qed

end

lemma push_batch_det:
  assumes "rq_wf q" and "push_count_of q count \<le> length xs"
    and "ring_queue_push_batch False (Ptr q) (Ptr xs) count = Inr (n, Ptr q1)"
  shows "n = of_nat (push_count_of q count)" and "rq_wf q1"
    and "rq_contents q1 = rq_contents q @ take (push_count_of q count) xs"
  using assms(3) by (auto intro: push_batch_result [OF assms(1,2), of False])

text \<open>A concrete queue for the examples: empty, with its indices two steps before the wrap.\<close>

definition near_wrap :: ring_queue where
  "near_wrap = \<lparr>head = 4294967294, tail = 4294967294, buffer = replicate 65536 0,
     push_count = 0, pop_count = 0, push_fail_count = 0\<rparr>"

lemma near_wrap_wf [simp]: "rq_wf near_wrap" "rq_contents near_wrap = []" "rq_len near_wrap = 0"
  by (simp_all add: near_wrap_def rq_wf_def rq_contents_def rq_len_def)

text \<open>The same place in the ring with three elements, the last one past the end.\<close>

definition wrapped :: ring_queue where
  "wrapped = near_wrap\<lparr>tail := 1, buffer := (replicate 65536 0)[65534 := 1, 65535 := 2, 0 := 3]\<rparr>"

lemma wrapped_wf [simp]: "rq_wf wrapped" "rq_contents wrapped = [1, 2, 3]" "rq_len wrapped = 3"
proof -
  show len: "rq_len wrapped = 3" by (simp add: wrapped_def near_wrap_def rq_len_def)
  then show "rq_wf wrapped" by (simp add: rq_wf_def) (simp add: wrapped_def)
  have "[0..<3] = [0, 1, 2::nat]" by (simp add: upt_rec)
  then show "rq_contents wrapped = [1, 2, 3]"
    by (simp add: rq_contents_def len window_def) (simp add: wrapped_def near_wrap_def)
qed

section \<open>Properties\<close>

text \<open>C4: over any sequence of single pushes and pops, whatever weak swaps fail on the way, the ring
  buffer answers every call as a bounded queue of 65536 elements does and holds what that holds, even
  when its 32-bit indices wrap around.\<close>

theorem ring_refines_fifo:
  assumes "\<not> spur i" and "rq_wf q" and "run_ops (rq_step spur) q es = (rs, q')"
  shows "run_ops (fifo_step 65536) (rq_contents q) es = (rs, rq_contents q') \<and> rq_wf q'"
  using weak_cas.ring_run_refines [OF weak_cas.intro] assms by blast

theorem ring_refines_fifo_witness:
  "fst (run_ops (rq_step (\<lambda>i. i = 0)) near_wrap [Enq 5, Enq 6, Deq, Enq 7, Deq, Deq, Deq])
   = [Accepted, Accepted, Got 5, Accepted, Got 6, Got 7, Nothing]"
proof -
  obtain rs q' where run: "run_ops (rq_step (\<lambda>i. i = 0)) near_wrap
      [Enq 5, Enq 6, Deq, Enq 7, Deq, Deq, Deq] = (rs, q')" by force
  show ?thesis
    using ring_refines_fifo [of "\<lambda>i. i = 0" 1, OF _ _ run] run by (simp del: run_ops.simps(2) add: run_ops.simps(2) [of "fifo_step _"])
qed

text \<open>From an initialised queue, the elements that the pops deliver are the elements that the
  pushes accepted, in order, followed by what is still queued; nothing is lost, duplicated or
  reordered, and never more than 65536 elements are queued.\<close>

theorem ring_fifo_order:
  assumes "\<not> spur i" and "length (buffer q) = 65536"
    and "run_ops (rq_step spur) (deref (ring_queue_init (Ptr q))) es = (rs, q')"
  shows "accepted es rs = delivered rs @ rq_contents q' \<and> length (rq_contents q') \<le> 65536"
proof -
  let ?q = "deref (ring_queue_init (Ptr q))"
  have wf: "rq_wf ?q" and empty: "rq_contents ?q = []"
    using assms(2) by (simp_all add: ring_queue_init_def rq_wf_def rq_contents_def rq_len_def)
  have cas: "weak_cas spur" using assms(1) by (auto intro: weak_cas.intro)
  show ?thesis
    using weak_cas.ring_run_order [OF cas wf assms(3)] weak_cas.ring_run_bounded [OF cas wf assms(3)] empty
    by simp
qed

theorem ring_fifo_order_witness:
  "accepted [Enq 5, Deq] (fst (run_ops (rq_step (\<lambda>_. False)) (deref (ring_queue_init (Ptr near_wrap))) [Enq 5, Deq]))
   = delivered (fst (run_ops (rq_step (\<lambda>_. False)) (deref (ring_queue_init (Ptr near_wrap))) [Enq 5, Deq]))
     @ rq_contents (snd (run_ops (rq_step (\<lambda>_. False)) (deref (ring_queue_init (Ptr near_wrap))) [Enq 5, Deq]))"
proof -
  have "length (buffer near_wrap) = 65536" by (simp add: near_wrap_def)
  then show ?thesis
    using ring_fifo_order [of "\<lambda>_. False" 0 near_wrap "[Enq 5, Deq]"] by (metis prod.collapse)
qed

text \<open>C28: a batch push that its one swap lets through appends as many of the elements as there is
  room for, in order, and reports that number; the copy never leaves the ring or the argument, also
  when it wraps around the end of the ring.\<close>

theorem ring_push_batch_appends:
  assumes "rq_wf q" and "unat count \<le> length xs"
  shows "\<exists>q'. ring_queue_push_batch False (Ptr q) (Ptr xs) count
      = Inr (of_nat (min (unat count) (65536 - length (rq_contents q))), Ptr q')
    \<and> rq_wf q' \<and> rq_contents q' = rq_contents q @ take (min (unat count) (65536 - length (rq_contents q))) xs"
proof -
  have "push_count_of q count \<le> length xs" using assms(2) by (simp add: push_count_of_def)
  then show ?thesis
    using push_batch_result [OF assms(1), of count xs False] by (metis push_count_of_def length_rq_contents)
qed

theorem ring_push_batch_appends_witness:
  "\<exists>q'. ring_queue_push_batch False (Ptr near_wrap) (Ptr [1, 2, 3, 4]) 3 = Inr (3, Ptr q')
     \<and> rq_contents q' = [1, 2, 3]"
  using ring_push_batch_appends [of near_wrap 3 "[1, 2, 3, 4]"] by auto

text \<open>C29: a batch pop takes the oldest elements, as many as asked for and queued, writes them to
  the front of the caller's array and leaves the rest of both alone.\<close>

theorem ring_pop_batch_takes:
  assumes "rq_wf q" and "unat count \<le> length xs"
  shows "\<exists>q'. ring_queue_pop_batch False (Ptr q) (Ptr xs) count
      = Inr (of_nat (min (unat count) (length (rq_contents q))), Ptr q',
             Ptr (take (unat count) (rq_contents q) @ drop (min (unat count) (length (rq_contents q))) xs))
    \<and> rq_wf q' \<and> rq_contents q' = drop (unat count) (rq_contents q)"
proof -
  have n: "pop_count_of q count \<le> length xs" using assms(2) by (simp add: pop_count_of_def)
  obtain q' where q': "ring_queue_pop_batch False (Ptr q) (Ptr xs) count
      = Inr (of_nat (pop_count_of q count), Ptr q',
             Ptr (take (pop_count_of q count) (rq_contents q) @ drop (pop_count_of q count) xs))"
    "rq_wf q'" "rq_contents q' = drop (pop_count_of q count) (rq_contents q)"
    using pop_batch_result [OF assms(1) n, of False] by auto
  have "take (pop_count_of q count) (rq_contents q) = take (unat count) (rq_contents q)"
    and "drop (pop_count_of q count) (rq_contents q) = drop (unat count) (rq_contents q)"
    by (auto simp: pop_count_of_def min_def)
  with q' show ?thesis by (simp add: pop_count_of_def)
qed

theorem ring_pop_batch_takes_witness:
  "\<exists>q'. ring_queue_pop_batch False (Ptr wrapped) (Ptr [9, 9, 9]) 2 = Inr (2, Ptr q', Ptr [1, 2, 9])
     \<and> rq_contents q' = [3]"
  using ring_pop_batch_takes [of wrapped 2 "[9, 9, 9]"] by auto

text \<open>C30: a batch push is the same as pushing the elements one by one until the queue is full: the
  same number is accepted and the same elements are queued.\<close>

theorem ring_push_batch_is_pushes:
  assumes "rq_wf q" and "unat count \<le> length xs" and "\<not> spur i"
    and "ring_queue_push_batch False (Ptr q) (Ptr xs) count = Inr (n, Ptr q1)"
    and "run_ops (rq_step spur) q (map Enq (take (unat count) xs)) = (rs, q2)"
  shows "rq_contents q1 = rq_contents q2 \<and> unat n = length (accepted (map Enq (take (unat count) xs)) rs)"
proof -
  have fifo: "run_ops (fifo_step c) ys (map Enq zs) = (rs', ws) \<Longrightarrow> length ys \<le> c \<Longrightarrow>
    ws = ys @ take (c - length ys) zs \<and> length (accepted (map Enq zs) rs') = min (c - length ys) (length zs)"
    for c and ys zs ws :: "int list" and rs'
  proof (induction zs arbitrary: ys rs')
    case (Cons z zs)
    let ?ys = "if length ys < c then ys @ [z] else ys"
    obtain rs1 where rest: "run_ops (fifo_step c) ?ys (map Enq zs) = (rs1, ws)"
      and rs: "rs' = (if length ys < c then Accepted else Rejected) # rs1"
      using Cons.prems(1) by (auto split: prod.splits if_splits)
    have "ws = ?ys @ take (c - length ?ys) zs
        \<and> length (accepted (map Enq zs) rs1) = min (c - length ?ys) (length zs)"
      using Cons.IH [OF rest] Cons.prems(2) by auto
    then show ?case
      using rs Cons.prems(2) by (auto simp: take_Cons' split: if_splits)
  qed simp
  let ?k = "min (unat count) (65536 - length (rq_contents q))"
  have "rq_contents q1 = rq_contents q @ take ?k xs" and n: "n = of_nat ?k"
    using push_batch_det [OF assms(1) _ assms(4)] assms(2) by (auto simp: push_count_of_def)
  moreover have "weak_cas spur" using assms(3) by (auto intro: weak_cas.intro)
  then have "run_ops (fifo_step 65536) (rq_contents q) (map Enq (take (unat count) xs)) = (rs, rq_contents q2)"
    using weak_cas.ring_run_refines assms(1,5) by blast
  from fifo [OF this] have "rq_contents q2 = rq_contents q @ take ?k xs
      \<and> length (accepted (map Enq (take (unat count) xs)) rs) = ?k"
    using assms(1,2) by (simp add: rq_wf_def min.commute)
  moreover have "unat n = ?k" unfolding n by (rule unat_of_nat_u32) auto
  ultimately show ?thesis by simp
qed

theorem ring_push_batch_is_pushes_witness:
  "\<exists>q1 q2. rq_contents q1 = rq_contents q2
     \<and> ring_queue_push_batch False (Ptr wrapped) (Ptr [4, 5]) 2 = Inr (2, Ptr q1)
     \<and> snd (run_ops (rq_step (\<lambda>_. False)) wrapped [Enq 4, Enq 5]) = q2"
proof -
  have "push_count_of wrapped 2 \<le> length [4, 5 :: int]" by (simp add: push_count_of_def)
  then obtain q1 where q1: "ring_queue_push_batch False (Ptr wrapped) (Ptr [4, 5]) 2 = Inr (2, Ptr q1)"
    by (rule push_batch_result [OF wrapped_wf(1), of 2 "[4, 5]" False]) (simp_all add: push_count_of_def)
  obtain rs q2 where run: "run_ops (rq_step (\<lambda>_. False)) wrapped (map Enq (take (unat (2::u32)) [4, 5])) = (rs, q2)"
    by force
  then have snd: "snd (run_ops (rq_step (\<lambda>_. False)) wrapped [Enq 4, Enq 5]) = q2" by (simp del: run_ops.simps)
  have "rq_contents q1 = rq_contents q2"
    using ring_push_batch_is_pushes [OF wrapped_wf(1) _ _ q1 run] by simp
  then show ?thesis using q1 snd by blast
qed

text \<open>C31: what a batch push put into an empty queue, wherever its indices are, the batch pop of the
  same count brings back unchanged and leaves the queue empty.\<close>

theorem ring_batch_roundtrip:
  assumes "rq_wf q" and "rq_contents q = []" and "length xs \<le> 65536" and "length ys = length xs"
    and "ring_queue_push_batch False (Ptr q) (Ptr xs) (of_nat (length xs)) = Inr (n, Ptr q1)"
  shows "\<exists>q2. ring_queue_pop_batch False (Ptr q1) (Ptr ys) n = Inr (n, Ptr q2, Ptr xs) \<and> rq_contents q2 = []"
proof -
  have c: "unat (of_nat (length xs) :: u32) = length xs" using assms(3) by (intro unat_of_nat_u32) simp
  have len: "rq_len q = 0" using assms(2) length_rq_contents [of q] by simp
  then have k: "push_count_of q (of_nat (length xs)) = length xs" using assms(3) c by (simp add: push_count_of_def)
  then have q1: "rq_wf q1" "rq_contents q1 = xs" and n: "n = of_nat (length xs)"
    using push_batch_det [OF assms(1) _ assms(5)] assms(2) by auto
  then have m: "pop_count_of q1 n = length xs" using c length_rq_contents [of q1] by (simp add: pop_count_of_def)
  obtain q2 where "ring_queue_pop_batch False (Ptr q1) (Ptr ys) n = Inr (of_nat (pop_count_of q1 n), Ptr q2,
      Ptr (take (pop_count_of q1 n) (rq_contents q1) @ drop (pop_count_of q1 n) ys))"
    and "rq_contents q2 = drop (pop_count_of q1 n) (rq_contents q1)"
    using pop_batch_result [OF q1(1), of n ys False] m assms(4) by auto
  then show ?thesis using m q1 n assms(4) by simp
qed

theorem ring_batch_roundtrip_witness:
  "\<exists>q1 q2. ring_queue_push_batch False (Ptr near_wrap) (Ptr [7, 8, 9]) 3 = Inr (3, Ptr q1)
     \<and> ring_queue_pop_batch False (Ptr q1) (Ptr [0, 0, 0]) 3 = Inr (3, Ptr q2, Ptr [7, 8, 9])"
proof -
  have "push_count_of near_wrap 3 \<le> length [7, 8, 9 :: int]" by (simp add: push_count_of_def)
  then obtain q1 where "ring_queue_push_batch False (Ptr near_wrap) (Ptr [7, 8, 9]) 3 = Inr (3, Ptr q1)"
    by (rule push_batch_result [OF near_wrap_wf(1), of 3 "[7, 8, 9]" False]) (simp_all add: push_count_of_def)
  then show ?thesis
    using ring_batch_roundtrip [of near_wrap "[7, 8, 9]" "[0, 0, 0]" 3 q1] by auto
qed

text \<open>C40: exactly when a single push or pop returns: at once on a full (for a pop, an empty) queue,
  otherwise if and only if some attempt of its weak swap is not disturbed.\<close>

theorem ring_calls_return:
  assumes "rq_wf q"
  shows "(ring_queue_push spur (Ptr q) x = None) = (length (rq_contents q) < 65536 \<and> (\<forall>i. spur i))
    \<and> (ring_queue_pop spur (Ptr q) (Ptr v) = None) = (rq_contents q \<noteq> [] \<and> (\<forall>i. spur i))"
proof -
  have "(rq_contents q = []) = (rq_len q = 0)" using length_rq_contents [of q] by (metis length_0_conv)
  then show ?thesis
    using push_loop_returns_iff [of spur q x] pop_loop_returns_iff [of spur q v] assms
    by (auto simp: ring_queue_push_def ring_queue_pop_def rq_wf_def)
qed

theorem ring_calls_return_witness:
  "ring_queue_push (\<lambda>_. True) (Ptr wrapped) 4 = None \<and> ring_queue_push (\<lambda>i. i < 3) (Ptr wrapped) 4 \<noteq> None"
  using ring_calls_return [of wrapped "\<lambda>_. True" 4] ring_calls_return [of wrapped "\<lambda>i. i < 3" 4]
  by (auto simp del: not_None_eq)

text \<open>The queries tell the truth about the contents, and initialising leaves a well-formed
  empty queue with zero statistics.\<close>

theorem ring_queries:
  assumes "rq_wf q"
  shows "ring_queue_empty (Ptr q) = (rq_contents q = []) \<and> ring_queue_full (Ptr q) = (length (rq_contents q) = 65536)
    \<and> unat (ring_queue_size (Ptr q)) = length (rq_contents q)
    \<and> (\<exists>z. ring_queue_init (Ptr q) = Ptr z \<and> rq_wf z \<and> ring_queue_empty (Ptr z)
         \<and> push_count z = 0 \<and> pop_count z = 0 \<and> push_fail_count z = 0 \<and> set (buffer z) = {0})"
proof -
  have "(rq_contents q = []) = (rq_len q = 0)" using length_rq_contents [of q] by (metis length_0_conv)
  then show ?thesis
    using assms not_full_iff [of q] empty_iff [of q]
    by (auto simp: ring_queue_empty_def ring_queue_full_def ring_queue_size_def ring_queue_init_def rq_wf_def)
      (simp_all add: rq_len_def)
qed

theorem ring_queries_witness:
  "\<not> ring_queue_empty (Ptr wrapped) \<and> \<not> ring_queue_full (Ptr wrapped) \<and> unat (ring_queue_size (Ptr wrapped)) = 3"
  using ring_queries [of wrapped] by auto

text \<open>The statistics are exact (modulo 2 to the 64): accepted pushes, delivered pops, rejected
  pushes.\<close>

theorem ring_statistics:
  assumes "\<not> spur i" and "run_ops (rq_step spur) q es = (rs, q')"
  shows "push_count q' = push_count q + of_nat (length (accepted es rs))
    \<and> pop_count q' = pop_count q + of_nat (length (delivered rs))
    \<and> push_fail_count q' = push_fail_count q + of_nat (rejected rs)"
  using weak_cas.run_counts [OF weak_cas.intro] assms by blast

theorem ring_statistics_witness:
  "push_count (snd (run_ops (rq_step (\<lambda>_. False)) near_wrap [Enq 5])) = 1"
proof -
  obtain rs q' where run: "run_ops (rq_step (\<lambda>_. False)) near_wrap [Enq 5] = (rs, q')" by force
  then have "rs = [Accepted]"
    using weak_cas.ring_run_refines [OF strong.weak_cas_axioms near_wrap_wf(1) run] by simp
  then show ?thesis
    using ring_statistics [of "\<lambda>_. False" 0, OF _ run] run by (simp del: run_ops.simps add: near_wrap_def)
qed

end
