(* ===== verification/ReactorSystem.thy ===== *)
theory ReactorSystem
  imports Reactor RingProps
begin

text \<open>
  The running reactor: the accepting thread, the stopping main thread and up to 16 reactor threads,
  interleaved over one shared world.

  \<^item> \<open>sys_step\<close> has one rule per step of a thread: a thread enters its loop, makes one pass of it,
    or leaves it; a descriptor is accepted and handed over; the main thread stops the reactor, one
    store or join at a time. A pass of the loop is one step; the interleavings inside the queue
    operations are in \<open>RingConc\<close>.
  \<^item> \<open>accept\<close> returns a descriptor that is not open (documented behaviour): \<open>fresh_fd\<close>.
  \<^item> \<open>sys_inv\<close>: every thread is good, threads share no connection and no descriptor, and all live
    memory belongs to a thread.
\<close>

section \<open>States and steps\<close>

datatype thread_pc = Unstarted | Created | Looping u32 | Exited

datatype main_pc = Serving | Storing nat | Joining nat | Stopped

record sys =
  rct :: reactor
  wld :: rworld
  pcs :: "nat \<Rightarrow> thread_pc"
  main :: main_pc

definition nthreads :: "reactor \<Rightarrow> nat" where
  "nthreads r = nat (thread_count r)"

definition open_fds :: "reactor \<Rightarrow> rworld \<Rightarrow> fd set" where
  "open_fds r w = (\<Union>i < nthreads r. insert (epoll_fd (threads r ! i)) (thread_fds [] (threads r ! i) w))"

definition fresh_fd :: "fd \<Rightarrow> reactor \<Rightarrow> rworld \<Rightarrow> bool" where
  "fresh_fd f r w \<longleftrightarrow> f \<notin> open_fds r w \<and> 0 \<le> f"

inductive sys_step :: "kernel \<Rightarrow> sys \<Rightarrow> sys \<Rightarrow> bool" for K where
  enter: "i < nthreads (rct s) \<Longrightarrow> pcs s i = Created \<Longrightarrow>
    sys_step K s (s\<lparr>rct := set_thread i ((threads (rct s) ! i)\<lparr>running := True\<rparr>) (rct s),
                    pcs := (pcs s)(i := Looping 0)\<rparr>)"
| pass: "i < nthreads (rct s) \<Longrightarrow> pcs s i = Looping n \<Longrightarrow> running (threads (rct s) ! i) \<Longrightarrow>
    reactor_iteration K (n + 1) (threads (rct s) ! i, wld s) = Some (Inr (again, t', w')) \<Longrightarrow>
    sys_step K s (s\<lparr>rct := set_thread i t' (rct s), wld := w',
                    pcs := (pcs s)(i := (if again then Looping (n + 1) else Exited))\<rparr>)"
| leave: "i < nthreads (rct s) \<Longrightarrow> pcs s i = Looping n \<Longrightarrow> \<not> running (threads (rct s) ! i) \<Longrightarrow>
    sys_step K s (s\<lparr>pcs := (pcs s)(i := Exited)\<rparr>)"
| accept: "reactor_running (rct s) \<Longrightarrow> fresh_fd f (rct s) (wld s) \<Longrightarrow>
    reactor_add_connection spur (Ptr (rct s)) f = Some (code, Ptr r') \<Longrightarrow>
    sys_step K s (s\<lparr>rct := r',
      wld := (let w = emit (SysAccept f (Inr (nat f))) (wld s) in if code = 0 then w else sys_close f w)\<rparr>)"
| stop: "main s = Serving \<Longrightarrow> reactor_running (rct s) \<Longrightarrow>
    sys_step K s (s\<lparr>rct := (rct s)\<lparr>reactor_running := False\<rparr>, main := Storing 0\<rparr>)"
| store: "main s = Storing i \<Longrightarrow> i < nthreads (rct s) \<Longrightarrow>
    sys_step K s (s\<lparr>rct := set_thread i ((threads (rct s) ! i)\<lparr>running := False\<rparr>) (rct s),
                    main := (if thread_started (threads (rct s) ! i) then Joining i else Storing (Suc i))\<rparr>)"
| join: "main s = Joining i \<Longrightarrow> pcs s i = Exited \<Longrightarrow>
    sys_step K s (s\<lparr>wld := emit SysJoin (wld s), main := Storing (Suc i)\<rparr>)"
| stopped: "main s = Storing i \<Longrightarrow> i = nthreads (rct s) \<Longrightarrow> sys_step K s (s\<lparr>main := Stopped\<rparr>)"

inductive_cases sys_stepE: "sys_step K s s'"

text \<open>After \<open>reactor_create\<close> and \<open>reactor_run\<close>: every thread exists, none has run yet.\<close>

definition sys_init :: "reactor \<Rightarrow> rworld \<Rightarrow> sys" where
  "sys_init r w = \<lparr>rct = r, wld = w,
     pcs = (\<lambda>i. if i < nthreads r \<and> thread_started (threads r ! i) then Created else Unstarted), main = Serving\<rparr>"

definition sys_reachable :: "kernel \<Rightarrow> sys \<Rightarrow> sys \<Rightarrow> bool" where
  "sys_reachable K = (sys_step K)\<^sup>*\<^sup>*"

section \<open>The invariant\<close>

definition thr :: "sys \<Rightarrow> nat \<Rightarrow> reactor_thread" where
  "thr s i = threads (rct s) ! i"

text \<open>Two threads of one world that do not share anything.\<close>

definition apart :: "reactor_thread \<Rightarrow> reactor_thread \<Rightarrow> rworld \<Rightarrow> bool" where
  "apart t u w \<longleftrightarrow> owned t \<inter> owned u = {}
     \<and> insert (epoll_fd t) (thread_fds [] t w) \<inter> insert (epoll_fd u) (thread_fds [] u w) = {}"

definition sys_inv :: "sys \<Rightarrow> bool" where
  "sys_inv s \<longleftrightarrow> nthreads (rct s) \<le> length (threads (rct s)) \<and> 0 < nthreads (rct s) \<and> nthreads (rct s) \<le> 16
     \<and> (\<forall>i < nthreads (rct s). good [] (thr s i) (wld s))
     \<and> (\<forall>i < nthreads (rct s). \<forall>j < nthreads (rct s). i \<noteq> j \<longrightarrow> apart (thr s i) (thr s j) (wld s))
     \<and> (\<forall>a. heap (wld s) a \<noteq> None \<longrightarrow> (\<exists>i < nthreads (rct s). a \<in> owned (thr s i)))"

text \<open>A step of thread \<open>t\<close> leaves a thread \<open>u\<close> that is apart from it good, and apart.\<close>

lemma owned_below: "good H t w \<Longrightarrow> a \<in> owned t \<Longrightarrow> a < next_addr w"
  by (auto simp: good_def inv_mem_def)

lemma frame_heap:
  assumes "good [] u w" and "evolves [] t w [] t' w'" and "owned t \<inter> owned u = {}" and "a \<in> owned u"
  shows "heap w' a = heap w a"
proof -
  have "a < next_addr w" by (rule owned_below [OF assms(1,4)])
  then show ?thesis using assms by (auto simp: evolves_def)
qed

lemma frame_conn_fds:
  assumes "good [] u w" and "evolves [] t w [] t' w'" and "owned t \<inter> owned u = {}"
  shows "conn_fds u w' = conn_fds u w"
  using frame_heap [OF assms] by (auto simp: conn_fds_def)

lemma evolves_interest:
  "evolves H t w H' t' w' \<Longrightarrow> ep \<noteq> epoll_fd t \<Longrightarrow> ep \<notin> thread_fds H t w \<Longrightarrow>
   interest w' ep f = interest w ep f \<or> f \<in> thread_fds H t w \<and> interest w' ep f = None"
  by (simp add: evolves_def)

lemma frame_good:
  assumes good: "good [] u w" and ev: "evolves [] t w [] t' w'" and apart: "apart t u w"
    and bound: "\<forall>a. heap w' a \<noteq> None \<longrightarrow> a < next_addr w'"
  shows "good [] u w'"
proof -
  have own: "owned t \<inter> owned u = {}" using apart by (simp add: apart_def)
  note heap = frame_heap [OF good ev own]
  note fds = frame_conn_fds [OF good ev own]
  have inv: "inv_mem u w" using good by (simp add: good_def)
  have ep: "epoll_fd u \<noteq> epoll_fd t" "epoll_fd u \<notin> thread_fds [] t w" using apart by (auto simp: apart_def)
  have int: "interest w' (epoll_fd u) f = interest w (epoll_fd u) f" for f
  proof (cases "f \<in> thread_fds [] t w")
    case False
    then show ?thesis using evolves_interest [OF ev ep] by blast
  next
    case True
    then have "f \<notin> conn_fds u w" using apart by (auto simp: apart_def thread_fds_def)
    then have none: "interest w (epoll_fd u) f = None"
      using interest_owned [OF inv, of f] by (cases "interest w (epoll_fd u) f") (force simp: conn_fds_def)+
    then show ?thesis using evolves_interest [OF ev ep, of f] by auto
  qed
  have "inv_mem u w'"
    unfolding inv_mem_def
  proof (intro conjI ballI)
    show "inj_on (connections u) (slots u)" using inv by (simp add: inv_mem_def)
  next
    fix a
    assume a: "a \<in> owned u"
    obtain c where "heap w a = Some c" "wf_conn c" "registered u w a c" by (rule owned_heap [OF inv a])
    then show "\<exists>c. heap w' a = Some c \<and> wf_conn c \<and> registered u w' a c"
      using heap [OF a] int by (simp add: registered_def)
  next
    show "\<forall>f d m. interest w' (epoll_fd u) f = Some (d, m) \<longrightarrow>
        (\<exists>a\<in>owned u. d = Ptr a \<and> (\<exists>c. heap w' a = Some c \<and> conn_fd c = f))"
    proof (intro allI impI)
      fix f d m
      assume "interest w' (epoll_fd u) f = Some (d, m)"
      then have "interest w (epoll_fd u) f = Some (d, m)" using int by simp
      then obtain a c where "a \<in> owned u" "d = Ptr a" "heap w a = Some c" "conn_fd c = f"
        by (rule interest_owned [OF inv])
      then show "\<exists>a\<in>owned u. d = Ptr a \<and> (\<exists>c. heap w' a = Some c \<and> conn_fd c = f)"
        using heap by auto
    qed
  qed (use bound in simp)
  then show ?thesis using good fds by (simp add: good_def inv_fds_def thread_fds_def)
qed

lemma frame_apart:
  assumes "good [] u w" and ev: "evolves [] t w [] t' w'" and apart: "apart t u w"
  shows "apart t' u w'"
proof -
  have own: "owned t \<inter> owned u = {}" using apart by (simp add: apart_def)
  have fds: "thread_fds [] u w' = thread_fds [] u w"
    using frame_conn_fds [OF assms(1) ev own] by (simp add: thread_fds_def)
  have "owned t' \<inter> owned u = {}"
    using ev own owned_below [OF assms(1)] by (fastforce simp: evolves_def)
  moreover have "insert (epoll_fd t') (thread_fds [] t' w') \<subseteq> insert (epoll_fd t) (thread_fds [] t w)"
    using ev by (auto simp: evolves_def)
  ultimately show ?thesis using apart fds unfolding apart_def by blast
qed

lemma apart_sym: "apart t u w \<Longrightarrow> apart u t w"
  by (auto simp: apart_def)

section \<open>Preservation\<close>

text \<open>Replacing thread \<open>i\<close> and the world.\<close>

definition with_thread :: "nat \<Rightarrow> reactor_thread \<Rightarrow> rworld \<Rightarrow> sys \<Rightarrow> sys" where
  "with_thread i t w s = s\<lparr>rct := set_thread i t (rct s), wld := w\<rparr>"

lemma set_thread_simps [simp]:
  "thread_count (set_thread i t r) = thread_count r" "reactor_running (set_thread i t r) = reactor_running r"
  "nthreads (set_thread i t r) = nthreads r" "next_thread (set_thread i t r) = next_thread r" "length (threads (set_thread i t r)) = length (threads r)"
  "threads (set_thread i t r) = (threads r)[i := t]"
  by (simp_all add: set_thread_def nthreads_def)

lemma with_thread_simps [simp]:
  "wld (with_thread i t w s) = w" "nthreads (rct (with_thread i t w s)) = nthreads (rct s)"
  "length (threads (rct (with_thread i t w s))) = length (threads (rct s))"
  "pcs (with_thread i t w s) = pcs s" "main (with_thread i t w s) = main s"
  "reactor_running (rct (with_thread i t w s)) = reactor_running (rct s)"
  by (simp_all add: with_thread_def)

lemma thr_with_thread:
  "i < length (threads (rct s)) \<Longrightarrow> thr (with_thread i t w s) j = (if j = i then t else thr s j)"
  by (simp add: thr_def with_thread_def)

lemma sys_inv_cong:
  assumes "threads (rct s') = threads (rct s)" and "thread_count (rct s') = thread_count (rct s)" and "wld s' = wld s"
  shows "sys_inv s' = sys_inv s"
  using assms by (simp add: sys_inv_def nthreads_def thr_def)

lemma sys_inv_thread:
  assumes inv: "sys_inv s" and i: "i < nthreads (rct s)" and good: "good [] t w"
    and others: "\<And>j. j < nthreads (rct s) \<Longrightarrow> j \<noteq> i \<Longrightarrow> good [] (thr s j) w \<and> apart t (thr s j) w"
    and pairs: "\<And>j k. j < nthreads (rct s) \<Longrightarrow> k < nthreads (rct s) \<Longrightarrow> j \<noteq> i \<Longrightarrow> k \<noteq> i \<Longrightarrow> j \<noteq> k \<Longrightarrow>
      apart (thr s j) (thr s k) w"
    and live: "\<And>a. heap w a \<noteq> None \<Longrightarrow> a \<in> owned t \<or> heap (wld s) a \<noteq> None \<and> a \<notin> owned (thr s i)"
  shows "sys_inv (with_thread i t w s)"
proof -
  have len: "i < length (threads (rct s))" using inv i by (simp add: sys_inv_def)
  note thr = thr_with_thread [OF len, of t w]
  have "\<exists>j < nthreads (rct s). a \<in> owned (thr (with_thread i t w s) j)" if "heap w a \<noteq> None" for a
  proof (cases "a \<in> owned t")
    case True
    then show ?thesis using i by (auto simp: thr)
  next
    case False
    then have "heap (wld s) a \<noteq> None" and "a \<notin> owned (thr s i)" using live [OF that] by auto
    then obtain j where "j < nthreads (rct s)" "a \<in> owned (thr s j)" "j \<noteq> i"
      using inv unfolding sys_inv_def by blast
    then show ?thesis by (auto simp: thr)
  qed
  moreover have "apart (thr (with_thread i t w s) j) (thr (with_thread i t w s) k) w"
    if "j < nthreads (rct s)" "k < nthreads (rct s)" "j \<noteq> k" for j k
    using that others [of j] others [of k] pairs [of j k] apart_sym by (auto simp: thr)
  ultimately show ?thesis
    using inv good others unfolding sys_inv_def by (simp add: thr)
qed

text \<open>A pass of thread \<open>i\<close>.\<close>

lemma sys_inv_evolves:
  assumes inv: "sys_inv s" and i: "i < nthreads (rct s)" and good: "good [] t w"
    and ev: "evolves [] (thr s i) (wld s) [] t w"
  shows "sys_inv (with_thread i t w s)"
proof (rule sys_inv_thread [OF inv i good])
  have bound: "\<forall>a. heap w a \<noteq> None \<longrightarrow> a < next_addr w" using good by (auto simp: good_def inv_mem_def)
  have good_j: "good [] (thr s j) (wld s)" if "j < nthreads (rct s)" for j
    using inv that by (simp add: sys_inv_def)
  have ap: "apart (thr s j) (thr s k) (wld s)" if "j < nthreads (rct s)" "k < nthreads (rct s)" "j \<noteq> k" for j k
    using inv that by (simp add: sys_inv_def)
  show "good [] (thr s j) w \<and> apart t (thr s j) w" if "j < nthreads (rct s)" "j \<noteq> i" for j
    using frame_good [OF good_j ev ap bound] frame_apart [OF good_j ev ap] that i by auto
  show "apart (thr s j) (thr s k) w"
    if jk: "j < nthreads (rct s)" "k < nthreads (rct s)" "j \<noteq> i" "k \<noteq> i" "j \<noteq> k" for j k
  proof -
    have "thread_fds [] (thr s l) w = thread_fds [] (thr s l) (wld s)" if "l < nthreads (rct s)" "l \<noteq> i" for l
      using frame_conn_fds [OF good_j ev] ap [OF i that(1)] that by (simp add: thread_fds_def apart_def)
    then show ?thesis using ap [OF jk(1,2,5)] jk by (simp add: apart_def)
  qed
  show "a \<in> owned t \<or> heap (wld s) a \<noteq> None \<and> a \<notin> owned (thr s i)" if "heap w a \<noteq> None" for a
  proof (rule ccontr)
    assume no: "\<not> ?thesis"
    then have "a \<notin> owned t" by simp
    then have "a < next_addr (wld s)" "a \<notin> owned (thr s i)" using ev that unfolding evolves_def by fastforce+
    moreover from this have "heap w a = heap (wld s) a" using ev by (simp add: evolves_def)
    ultimately show False using no that by simp
  qed
qed

text \<open>Fields that do not matter to the invariant.\<close>

lemma apart_running [simp]:
  "apart (t\<lparr>running := b\<rparr>) u w = apart t u w" "apart u (t\<lparr>running := b\<rparr>) w = apart u t w"
  by (simp_all add: apart_def owned_def thread_fds_def waiting_fds_def conn_fds_def)

lemma owned_running [simp]: "owned (t\<lparr>running := b\<rparr>) = owned t"
  by (simp add: owned_def)

lemma sys_inv_running:
  assumes inv: "sys_inv s" and i: "i < nthreads (rct s)"
  shows "sys_inv (with_thread i ((thr s i)\<lparr>running := b\<rparr>) (wld s) s)"
  by (rule sys_inv_thread [OF inv i]) (use inv i in \<open>auto simp: sys_inv_def\<close>)

text \<open>The world may grow its trace.\<close>

lemma good_same_mem: "same_mem w w' \<Longrightarrow> good H t w' = good H t w"
  by (simp add: same_mem_def good_def inv_mem_def inv_fds_def thread_fds_def conn_fds_def registered_def)

lemma apart_same_mem: "same_mem w w' \<Longrightarrow> apart t u w' = apart t u w"
  by (simp add: same_mem_def apart_def thread_fds_def conn_fds_def)

lemma sys_inv_same_mem:
  "sys_inv s \<Longrightarrow> same_mem (wld s) w' \<Longrightarrow> rct s' = rct s \<Longrightarrow> wld s' = w' \<Longrightarrow> sys_inv s'"
  by (simp add: sys_inv_def thr_def good_same_mem apart_same_mem) (simp add: same_mem_def)

section \<open>Accepting\<close>

lemma push_loop_value:
  assumes "push_loop spur 0 q x = Some r"
  shows "r = push_result q x"
proof (cases "rq_len q < 65536")
  case True
  then obtain j where "\<not> spur j" using push_loop_some [OF assms] by auto
  then show ?thesis using assms push_loop_returns [of spur 0 j q x] by simp
next
  case False
  then show ?thesis
    using assms by (subst (asm) push_loop.simps) (simp add: not_full_iff [symmetric] push_result_def)
qed

text \<open>What handing over \<open>f\<close> does to the queue of the chosen thread.\<close>

lemma add_connection_eq:
  assumes "reactor_add_connection spur (Ptr r) f = Some (code, Ptr r')" and "0 \<le> f" and "reactor_running r"
  obtains i t where "i = unat (next_thread r mod word_of_int (thread_count r))" and "t = threads r ! i"
    and "r' = set_thread i (t\<lparr>accept_queue := snd (push_result (accept_queue t) f)\<rparr>) (r\<lparr>next_thread := next_thread r + 1\<rparr>)"
    and "code = (if rq_len (accept_queue t) < 65536 then 0 else -1)"
proof -
  let ?i = "unat (next_thread r mod word_of_int (thread_count r))"
  let ?t = "threads r ! ?i"
  obtain b q where push: "push_loop spur 0 (accept_queue ?t) f = Some (b, q)"
    using assms by (auto simp: reactor_add_connection_def ring_queue_push_def Let_def split: option.splits)
  then have "(b, q) = push_result (accept_queue ?t) f" by (rule push_loop_value)
  then have "q = snd (push_result (accept_queue ?t) f)" "b = (rq_len (accept_queue ?t) < 65536)"
    by (auto simp: push_result_def split: if_splits)
  then show ?thesis
    using assms push by (intro that [of ?i ?t]) (auto simp: reactor_add_connection_def ring_queue_push_def Let_def)
qed

lemma thread_index:
  assumes "0 < thread_count r" and "thread_count r \<le> 16"
  shows "unat (n mod word_of_int (thread_count r) :: u32) < nat (thread_count r)"
proof -
  have c: "uint (word_of_int (thread_count r) :: u32) = thread_count r"
    using assms by (simp add: uint_word_of_int)
  have "uint (n mod word_of_int (thread_count r) :: u32) = uint n mod thread_count r"
    by (simp add: uint_mod c)
  also have "\<dots> < thread_count r" using assms by simp
  finally have "int (unat (n mod word_of_int (thread_count r) :: u32)) < thread_count r" by simp
  then show ?thesis by (simp add: zless_nat_eq_int_zless)
qed

text \<open>A thread with a fresh descriptor queued, or refused and closed.\<close>

lemma queue_good:
  assumes good: "good [] t w" and f: "f \<noteq> epoll_fd t" "f \<notin> thread_fds [] t w"
    and q: "rq_wf q" "rq_contents q = rq_contents (accept_queue t) \<or> rq_contents q = rq_contents (accept_queue t) @ [f]"
  shows "good [] (t\<lparr>accept_queue := q\<rparr>) w"
    and "thread_fds [] (t\<lparr>accept_queue := q\<rparr>) w \<subseteq> insert f (thread_fds [] t w)"
proof -
  have cf: "conn_fds (t\<lparr>accept_queue := q\<rparr>) w = conn_fds t w" by (simp add: conn_fds_def)
  have "inv_fds [] (t\<lparr>accept_queue := q\<rparr>) w"
    using good f q cf by (auto simp: good_def inv_fds_def waiting_fds_def thread_fds_def)
  then show "good [] (t\<lparr>accept_queue := q\<rparr>) w"
    using good by (simp add: good_def inv_mem_def inv_count_def registered_def slots_def)
  show "thread_fds [] (t\<lparr>accept_queue := q\<rparr>) w \<subseteq> insert f (thread_fds [] t w)"
    using q cf by (auto simp: thread_fds_def waiting_fds_def)
qed

lemma close_fresh_good:
  assumes good: "good [] t w" and f: "f \<noteq> epoll_fd t" "f \<notin> thread_fds [] t w"
  shows "good [] t (sys_close f w)"
proof -
  have "good [f] t w"
    using good f by (auto simp: good_def inv_fds_def waiting_fds_def thread_fds_def)
  then show ?thesis by (rule close_hand_good(1))
qed

lemma push_result_queue:
  assumes "rq_wf q"
  shows "rq_wf (snd (push_result q f))"
    and "rq_contents (snd (push_result q f)) = (if rq_len q < 65536 then rq_contents q @ [f] else rq_contents q)"
proof -
  show "rq_wf (snd (push_result q f))" by (rule push_result_wf [OF assms])
  show "rq_contents (snd (push_result q f)) = (if rq_len q < 65536 then rq_contents q @ [f] else rq_contents q)"
  proof (cases "rq_len q < 65536")
    case True
    then show ?thesis using push_result_contents [OF assms, of f] by simp
  next
    case False
    then show ?thesis by (simp add: push_result_def) (simp add: rq_contents_def rq_len_def)
  qed
qed

lemma sys_inv_accept:
  assumes inv: "sys_inv s" and run: "reactor_running (rct s)" and f: "fresh_fd f (rct s) (wld s)"
    and add: "reactor_add_connection spur (Ptr (rct s)) f = Some (code, Ptr r')"
    and w: "w = (let w = emit (SysAccept f (Inr (nat f))) (wld s) in if code = 0 then w else sys_close f w)"
  shows "sys_inv (s\<lparr>rct := r', wld := w\<rparr>)"
proof -
  let ?n = "nthreads (rct s)"
  obtain i t where i: "i = unat (next_thread (rct s) mod word_of_int (thread_count (rct s)))" and t: "t = threads (rct s) ! i"
    and r': "r' = set_thread i (t\<lparr>accept_queue := snd (push_result (accept_queue t) f)\<rparr>) ((rct s)\<lparr>next_thread := next_thread (rct s) + 1\<rparr>)"
    and code: "code = (if rq_len (accept_queue t) < 65536 then 0 else -1)"
    using add_connection_eq [OF add _ run] f by (auto simp: fresh_fd_def)
  have lt: "i < ?n"
    unfolding i nthreads_def using inv by (intro thread_index) (auto simp: sys_inv_def nthreads_def)
  have tt: "t = thr s i" by (simp add: t thr_def)
  let ?q = "snd (push_result (accept_queue t) f)"
  let ?t = "t\<lparr>accept_queue := ?q\<rparr>"
  have good_w: "good [] u w" if "good [] u (wld s)" "f \<noteq> epoll_fd u" "f \<notin> thread_fds [] u (wld s)" for u
  proof -
    let ?w = "emit (SysAccept f (Inr (nat f))) (wld s)"
    have "good [] u ?w" "f \<notin> thread_fds [] u ?w"
      using that by (simp_all add: good_same_mem [of "wld s"] thread_fds_def conn_fds_def)
    then show ?thesis using close_fresh_good [of u ?w f] that(2) by (simp add: w Let_def)
  qed
  have fds_w: "thread_fds [] u w = thread_fds [] u (wld s)" for u
    by (simp add: w Let_def thread_fds_def conn_fds_def)
  have live: "heap w = heap (wld s)" by (simp add: w Let_def)
  have good: "good [] (thr s j) (wld s)" and fresh: "f \<noteq> epoll_fd (thr s j)" "f \<notin> thread_fds [] (thr s j) (wld s)"
    if "j < ?n" for j
    using inv f that by (auto simp: sys_inv_def fresh_fd_def open_fds_def thr_def)
  have q: "rq_wf ?q" "rq_contents ?q = rq_contents (accept_queue t) \<or> rq_contents ?q = rq_contents (accept_queue t) @ [f]"
    using push_result_queue [of "accept_queue t" f] good [OF lt] by (auto simp: tt good_def inv_fds_def)
  have good_t: "good [] (thr s i) w" by (rule good_w [OF good [OF lt] fresh [OF lt]])
  have f_t: "f \<notin> thread_fds [] (thr s i) w" using fresh [OF lt] by (simp add: fds_w)
  note new = queue_good [OF good_t fresh(1) [OF lt] f_t q [unfolded tt], folded tt]
  have "sys_inv (with_thread i ?t w s)"
  proof (rule sys_inv_thread [OF inv lt])
    show "good [] ?t w" using new(1) by (simp add: tt)
    show "good [] (thr s j) w \<and> apart ?t (thr s j) w" if j: "j < ?n" "j \<noteq> i" for j
    proof
      show "good [] (thr s j) w" by (rule good_w [OF good [OF j(1)] fresh [OF j(1)]])
      have "apart (thr s i) (thr s j) (wld s)" using inv lt j by (simp add: sys_inv_def)
      then show "apart ?t (thr s j) w"
        using new(2) fresh [OF j(1)] unfolding apart_def fds_w tt by auto
    qed
    show "apart (thr s j) (thr s k) w" if "j < ?n" "k < ?n" "j \<noteq> i" "k \<noteq> i" "j \<noteq> k" for j k
      using inv that by (simp add: sys_inv_def apart_def fds_w)
    show "a \<in> owned ?t \<or> heap (wld s) a \<noteq> None \<and> a \<notin> owned (thr s i)" if "heap w a \<noteq> None" for a
      using that live by (auto simp: tt)
  qed
  moreover have "sys_inv (s\<lparr>rct := r', wld := w\<rparr>) = sys_inv (with_thread i ?t w s)"
    by (rule sys_inv_cong) (simp_all add: with_thread_def r' set_thread_def)
  ultimately show ?thesis by simp
qed

section \<open>The invariant of every reachable state\<close>

lemma sys_step_inv: "sys_step K s s' \<Longrightarrow> sys_inv s \<Longrightarrow> sys_inv s'"
proof (induction rule: sys_step.induct)
  case (enter i s)
  from sys_inv_running [OF enter.prems enter.hyps(1), of True] show ?case
    by (subst sys_inv_cong [of _ "with_thread i ((thr s i)\<lparr>running := True\<rparr>) (wld s) s"])
      (simp_all add: with_thread_def thr_def)
next
  case (pass i s n again t' w')
  have "good [] (thr s i) (wld s)" using pass.prems pass.hyps(1) by (simp add: sys_inv_def)
  then have "good [] t' w'" "evolves [] (thr s i) (wld s) [] t' w'"
    using reactor_iteration_ok [of "thr s i" "wld s" K "n + 1"] pass.hyps(4) by (auto simp: thr_def)
  from sys_inv_evolves [OF pass.prems pass.hyps(1) this] show ?case
    by (subst sys_inv_cong [of _ "with_thread i t' w' s"]) (simp_all add: with_thread_def)
next
  case (leave i s n)
  then show ?case by (subst sys_inv_cong [of _ s]) simp_all
next
  case (accept s f spur code r')
  show ?case
    by (rule sys_inv_accept [OF accept.prems accept.hyps refl])
next
  case (stop s)
  then show ?case by (subst sys_inv_cong [of _ s]) simp_all
next
  case (store s i)
  from sys_inv_running [OF store.prems store.hyps(2), of False] show ?case
    by (subst sys_inv_cong [of _ "with_thread i ((thr s i)\<lparr>running := False\<rparr>) (wld s) s"])
      (simp_all add: with_thread_def thr_def)
next
  case (join s i)
  show ?case by (rule sys_inv_same_mem [OF join.prems same_mem_emit [of "wld s" SysJoin]]) simp_all
next
  case (stopped s i)
  then show ?case by (subst sys_inv_cong [of _ s]) simp_all
qed

lemma sys_reachable_inv:
  assumes "sys_reachable K s s'" and "sys_inv s"
  shows "sys_inv s'"
  using assms unfolding sys_reachable_def by (induction rule: rtranclp_induct) (auto intro: sys_step_inv)

text \<open>No step of a thread can fault.\<close>

lemma sys_inv_pass_ok:
  assumes "sys_inv s" and "i < nthreads (rct s)"
  shows "\<exists>again t' w'. reactor_iteration K n (thr s i, wld s) = Some (Inr (again, t', w'))"
proof -
  have "good [] (thr s i) (wld s)" using assms by (simp add: sys_inv_def)
  then show ?thesis using reactor_iteration_ok by blast
qed

section \<open>Stopping\<close>

text \<open>A property that every step keeps holds in every reachable state.\<close>

lemma reachable_keeps:
  assumes "sys_reachable K s s'" and "P s" and "\<And>s s'. sys_step K s s' \<Longrightarrow> P s \<Longrightarrow> P s'"
  shows "P s'"
  using assms(1,2) unfolding sys_reachable_def by (induction rule: rtranclp_induct) (auto intro: assms(3))

lemma step_nthreads: "sys_step K s s' \<Longrightarrow> sys_inv s \<Longrightarrow>
    nthreads (rct s') = nthreads (rct s) \<and> length (threads (rct s')) = length (threads (rct s))"
proof (induction rule: sys_step.induct)
  case (accept s f spur code r')
  then show ?case by (elim add_connection_eq) (auto simp: fresh_fd_def nthreads_def)
qed (auto simp: nthreads_def)

lemma running_queue_update [simp]:
  "running ((ts[j := (ts ! j)\<lparr>accept_queue := q\<rparr>]) ! i) = running (ts ! i)"
  by (cases "j < length ts") (auto simp: nth_list_update list_update_beyond)

text \<open>What a step does to the flag of thread \<open>i\<close>.\<close>

lemma step_running:
  assumes "sys_step K s s'" and inv: "sys_inv s" and i: "i < nthreads (rct s)"
  shows "running (thr s' i) = running (thr s i)
    \<or> pcs s i = Created \<and> pcs s' i = Looping 0 \<and> running (thr s' i)
    \<or> main s = Storing i \<and> \<not> running (thr s' i)"
  using assms
proof (induction rule: sys_step.induct)
  case (pass j s n again t' w')
  have "good [] (thr s j) (wld s)" using pass.prems pass.hyps(1) by (simp add: sys_inv_def)
  then have "evolves [] (thr s j) (wld s) [] t' w'"
    using reactor_iteration_ok [of "thr s j" "wld s" K "n + 1"] pass.hyps(4) by (auto simp: thr_def)
  then have "running t' = running (thr s j)" by (simp add: evolves_def)
  then show ?case using pass by (auto simp: thr_def nth_list_update sys_inv_def)
next
  case (accept s f spur code r')
  then show ?case
    by (elim add_connection_eq) (auto simp: fresh_fd_def thr_def)
qed (auto simp: thr_def nth_list_update sys_inv_def)

text \<open>What a step does to the program counter of thread \<open>i\<close>.\<close>

lemma step_pc:
  assumes "sys_step K s s'"
  shows "pcs s' i = pcs s i \<or> pcs s i = Created \<and> pcs s' i = Looping 0
    \<or> (\<exists>n. pcs s i = Looping n \<and> (\<not> running (thr s i) \<and> pcs s' i = Exited
         \<or> running (thr s i) \<and> (\<exists>again t' w'. reactor_iteration K (n + 1) (thr s i, wld s) = Some (Inr (again, t', w'))
             \<and> pcs s' i = (if again then Looping (n + 1) else Exited))))"
  using assms by (induction rule: sys_step.induct) (auto simp: thr_def)

text \<open>What a step does to the stopping main thread.\<close>

lemma step_main:
  assumes "sys_step K s s'" and "main s = Joining i"
  shows "main s' = Joining i \<or> pcs s i = Exited"
  using assms by (induction rule: sys_step.induct) auto

end
