(* ===== verification/ReactorLife.thy ===== *)
theory ReactorLife
  imports ReactorSystem
begin

text \<open>
  The life of the reactor around its running phase: what \<open>reactor_create\<close> and \<open>reactor_run\<close> hand
  to the threads, which thread gets a descriptor, and what \<open>reactor_destroy\<close> frees, closes and
  forgets.
\<close>

section \<open>A new thread\<close>

definition new_thread :: "nat \<Rightarrow> fd \<Rightarrow> reactor_thread" where
  "new_thread i ep = zero_thread\<lparr>thread_id := int i, epoll_fd := ep\<rparr>"

lemma zero_queue_init [simp]:
  "deref (ring_queue_init (Ptr (accept_queue zero_thread))) = accept_queue zero_thread"
  by (simp add: ring_queue_init_def zero_thread_def)

lemma new_thread_simps [simp]:
  "connections (new_thread i ep) k = NULL" "epoll_fd (new_thread i ep) = ep" "owned (new_thread i ep) = {}"
  "slots (new_thread i ep) = {}" "conn_fds (new_thread i ep) w = {}" "waiting_fds [] (new_thread i ep) = []"
  "thread_fds [] (new_thread i ep) w = {}" "thread_started (new_thread i ep) = False"
  "rq_wf (accept_queue (new_thread i ep))" "rq_contents (accept_queue (new_thread i ep)) = []"
  by (simp_all add: new_thread_def zero_thread_def owned_def slots_def conn_fds_def waiting_fds_def
      thread_fds_def rq_contents_def rq_len_def rq_wf_def)

lemma new_thread_counts [simp]: "connection_count (new_thread i ep) = 0" "active_connections (new_thread i ep) = 0"
  by (simp_all add: new_thread_def zero_thread_def)

lemma new_thread_good:
  "\<forall>a. heap w a = None \<Longrightarrow> \<forall>f. interest w ep f = None \<Longrightarrow> good [] (new_thread i ep) w"
  by (simp add: good_def inv_mem_def inv_count_def inv_fds_def)

lemma good_started [simp]: "good H (t\<lparr>thread_started := b\<rparr>) w = good H t w"
  by (simp add: good_def inv_mem_def inv_count_def inv_fds_def thread_fds_def waiting_fds_def
      conn_fds_def owned_def slots_def registered_def)

lemma apart_new: "ep \<noteq> ep' \<Longrightarrow> apart (new_thread i ep) (new_thread j ep') w"
  by (simp add: apart_def)

section \<open>Creating\<close>

lemma sys_newfd_cases:
  obtains (failed) e w' where "sys_newfd K ev w = (Inl e, w')" and "same_mem w w'"
  | (got) a w' where "sys_newfd K ev w = (Inr (int a), w')" and "k_newfd K (now w) = Inr a"
      and "same_mem w w'" and "now w' = Suc (now w)"
  by (cases "k_newfd K (now w)") (auto simp: sys_newfd_def now_def)

lemma same_mem_trans: "same_mem w w1 \<Longrightarrow> same_mem w1 w2 \<Longrightarrow> same_mem w w2"
  by (simp add: same_mem_def)

lemma create_threads_spec:
  "create_threads K [i..<n] ts w = (Some ts', w') \<Longrightarrow> n \<le> length ts \<Longrightarrow> \<forall>j < length ts. i \<le> j \<longrightarrow> ts ! j = zero_thread \<Longrightarrow>
   same_mem w w' \<and> length ts' = length ts \<and> (\<forall>j < i. ts' ! j = ts ! j)
   \<and> (\<forall>j. i \<le> j \<and> j < n \<longrightarrow> (\<exists>a. k_newfd K (now w + (j - i)) = Inr a \<and> ts' ! j = new_thread j (int a)))"
proof (induction "n - i" arbitrary: i ts w)
  case 0
  then show ?case by (auto simp: same_mem_def)
next
  case (Suc d)
  then have lt: "i < n" and d: "d = n - Suc i" by auto
  then have upt: "[i..<n] = i # [Suc i..<n]" by (simp add: upt_rec)
  have z: "ts ! i = zero_thread" using Suc.prems lt by simp
  show ?case
  proof (cases rule: sys_newfd_cases [of K SysEpollCreate w])
    case (failed e w1)
    then show ?thesis using Suc.prems(1) upt by (simp add: Let_def)
  next
    case (got a w1)
    let ?t = "new_thread i (int a)"
    have t: "zero_thread\<lparr>thread_id := int i, running := False, connection_count := 0, accept_queue := accept_queue zero_thread,
        epoll_fd := int a, total_connections := 0, active_connections := 0, processed_events := 0,
        batch_processed := 0, connections := \<lambda>_. NULL\<rparr> = ?t"
      by (simp add: new_thread_def zero_thread_def)
    have rest: "create_threads K [Suc i..<n] (ts[i := ?t]) w1 = (Some ts', w')"
      using Suc.prems(1) upt got(1) z t by (simp add: Let_def)
    have IH: "same_mem w1 w' \<and> length ts' = length ts \<and> (\<forall>j < Suc i. ts' ! j = ts[i := ?t] ! j)
        \<and> (\<forall>j. Suc i \<le> j \<and> j < n \<longrightarrow> (\<exists>a. k_newfd K (now w1 + (j - Suc i)) = Inr a \<and> ts' ! j = new_thread j (int a)))"
      using Suc.hyps(1) [OF d rest] Suc.prems(2,3) by simp
    have i: "ts' ! i = ?t" using IH lt Suc.prems(2) by simp
    have "\<exists>a. k_newfd K (now w + (j - i)) = Inr a \<and> ts' ! j = new_thread j (int a)" if "i \<le> j" "j < n" for j
    proof (cases "j = i")
      case True
      then show ?thesis using got(2) i by auto
    next
      case False
      then have "Suc i \<le> j" using that by simp
      have "\<forall>j. Suc i \<le> j \<and> j < n \<longrightarrow> (\<exists>a. k_newfd K (now w1 + (j - Suc i)) = Inr a \<and> ts' ! j = new_thread j (int a))"
        using IH by simp
      with \<open>Suc i \<le> j\<close> that(2) obtain a' where "k_newfd K (now w1 + (j - Suc i)) = Inr a'" "ts' ! j = new_thread j (int a')"
        by metis
      moreover have "now w1 + (j - Suc i) = now w + (j - i)" using got(4) \<open>Suc i \<le> j\<close> by simp
      ultimately show ?thesis by auto
    qed
    then show ?thesis using IH same_mem_trans [OF got(3)] by auto
  qed
qed

text \<open>\<open>reactor_create\<close>: \<open>NULL\<close>, or idle threads with an epoll instance each.\<close>

lemma reactor_create_spec:
  assumes "reactor_create K n w = (Ptr r, w')"
  obtains m where "0 < n" and "n \<le> 16" and "thread_count r = n" and "length (threads r) = 16"
    and "\<not> reactor_running r" and "next_thread r = 0" and "same_mem w w'"
    and "\<forall>j < nat n. \<exists>a. k_newfd K (m + j) = Inr a \<and> threads r ! j = new_thread j (int a)"
proof -
  obtain w1 where b: "sys_block K w = (True, w1)" and n: "0 < n" "n \<le> 16"
    using assms by (auto simp: reactor_create_def MAX_REACTOR_THREADS_def split: if_splits prod.splits bool.splits)
  obtain ts where c: "create_threads K [0..<nat n] (replicate 16 zero_thread) w1 = (Some ts, w')"
    and r: "r = \<lparr>threads = ts, thread_count = n, reactor_running = False, next_thread = 0,
              on_connect = NULL, on_data = NULL, on_write = NULL, on_close = NULL\<rparr>"
    using assms b n by (auto simp: reactor_create_def MAX_REACTOR_THREADS_def split: prod.splits option.splits)
  have "same_mem w w1" using b by (auto simp: sys_block_def same_mem_def)
  moreover have "same_mem w1 w' \<and> length ts = 16
      \<and> (\<forall>j < nat n. \<exists>a. k_newfd K (now w1 + j) = Inr a \<and> ts ! j = new_thread j (int a))"
    using create_threads_spec [OF c] n by auto
  ultimately show ?thesis using that [of "now w1"] n r same_mem_trans by auto
qed

section \<open>Starting\<close>

lemma start_threads_spec:
  "start_threads K is r w = (b, r', w') \<Longrightarrow> same_mem w w' \<and> thread_count r' = thread_count r
     \<and> reactor_running r' = reactor_running r \<and> next_thread r' = next_thread r \<and> length (threads r') = length (threads r)
     \<and> (\<forall>j. threads r' ! j = (threads r ! j)\<lparr>thread_started := thread_started (threads r' ! j)\<rparr>)
     \<and> (\<forall>j. thread_started (threads r ! j) \<longrightarrow> thread_started (threads r' ! j))
     \<and> (b \<longrightarrow> (\<forall>j \<in> set is. j < length (threads r) \<longrightarrow> thread_started (threads r' ! j)))"
proof (induction "is" arbitrary: r w)
  case Nil
  then show ?case by (auto simp: same_mem_def)
next
  case (Cons i "is")
  show ?case
  proof (cases "fst (sys_ok K SysThread w)")
    case None
    let ?w = "emit (SysThread True) w"
    let ?r = "set_thread i ((threads r ! i)\<lparr>thread_started := True\<rparr>) r"
    have ok: "sys_ok K SysThread w = (None, ?w)" using None by (simp add: sys_ok_def)
    then have "start_threads K is ?r ?w = (b, r', w')" using Cons.prems by simp
    note IH = Cons.IH [OF this]
    have upd: "threads ?r ! j = (if j = i \<and> i < length (threads r) then (threads r ! i)\<lparr>thread_started := True\<rparr> else threads r ! j)" for j
      by (auto simp: nth_list_update list_update_beyond not_less)
    have "threads r' ! j = (threads r ! j)\<lparr>thread_started := thread_started (threads r' ! j)\<rparr>" for j
    proof -
      have "threads r' ! j = (threads ?r ! j)\<lparr>thread_started := thread_started (threads r' ! j)\<rparr>" using IH by blast
      also have "\<dots> = (threads r ! j)\<lparr>thread_started := thread_started (threads r' ! j)\<rparr>"
        unfolding upd by simp
      finally show ?thesis .
    qed
    moreover have "thread_started (threads r ! j) \<longrightarrow> thread_started (threads ?r ! j)" for j
      unfolding upd by simp
    moreover have "i < length (threads r) \<longrightarrow> thread_started (threads ?r ! i)" unfolding upd by simp
    ultimately show ?thesis using IH by (simp add: same_mem_def)
  next
    case (Some e)
    then have "sys_ok K SysThread w = (Some e, emit (SysThread False) w)" by (simp add: sys_ok_def)
    then show ?thesis using Cons.prems by (auto simp: same_mem_def)
  qed
qed

text \<open>The state that the threads start from satisfies the invariant.\<close>

lemma started_simps [simp]:
  "owned (t\<lparr>thread_started := b\<rparr>) = owned t" "thread_fds H (t\<lparr>thread_started := b\<rparr>) w = thread_fds H t w"
  by (simp_all add: owned_def thread_fds_def waiting_fds_def conn_fds_def)

lemma apart_started [simp]:
  "apart (t\<lparr>thread_started := b\<rparr>) (u\<lparr>thread_started := c\<rparr>) w = apart t u w"
  by (simp add: apart_def)

lemma started_inv:
  assumes create: "reactor_create K n w0 = (Ptr r0, w1)" and run: "reactor_run K J (Ptr r0) w1 = (0, Ptr r, w)"
    and empty: "\<forall>a. heap w0 a = None" "\<forall>ep f. interest w0 ep f = None"
    and fds: "\<forall>m m' a. k_newfd K m = Inr a \<and> k_newfd K m' = Inr a \<longrightarrow> m = m'"
  shows "sys_inv (sys_init r w)" and "reactor_running r"
    and "\<forall>i < nthreads r. thread_started (threads r ! i) \<and> \<not> running (threads r ! i)"
proof -
  obtain m where n: "0 < n" "n \<le> 16" and r0: "thread_count r0 = n" "length (threads r0) = 16" "\<not> reactor_running r0"
    and w1: "same_mem w0 w1"
    and new: "\<forall>j < nat n. \<exists>a. k_newfd K (m + j) = Inr a \<and> threads r0 ! j = new_thread j (int a)"
    by (rule reactor_create_spec [OF create]) blast
  obtain b r1 w2 where st: "start_threads K [0..<nat n] (r0\<lparr>reactor_running := True\<rparr>) w1 = (b, r1, w2)"
    by (metis prod_cases3)
  have b: "b" and r: "r = r1" "w = w2"
    using run st r0 by (auto simp: reactor_run_def split: bool.splits prod.splits)
  note spec = start_threads_spec [OF st, unfolded r [symmetric]]
  have thr: "\<exists>a s. k_newfd K (m + j) = Inr a \<and> threads r ! j = (new_thread j (int a))\<lparr>thread_started := s\<rparr>"
    if j: "j < nat n" for j
  proof -
    obtain a where "k_newfd K (m + j) = Inr a" "threads r0 ! j = new_thread j (int a)" using new j by blast
    moreover have "threads r ! j = (threads r0 ! j)\<lparr>thread_started := thread_started (threads r ! j)\<rparr>"
      using spec by simp
    ultimately show ?thesis by metis
  qed
  have cnt: "nthreads r = nat n" using spec r0 by (simp add: nthreads_def)
  have mem: "\<forall>a. heap w a = None" "\<forall>ep f. interest w ep f = None"
    using empty w1 spec by (simp_all add: same_mem_def)
  have "good [] (thr (sys_init r w) j) w" if j: "j < nat n" for j
  proof -
    obtain a s where "threads r ! j = (new_thread j (int a))\<lparr>thread_started := s\<rparr>" using thr [OF j] by blast
    then show ?thesis using new_thread_good [OF mem(1)] mem(2) by (simp add: thr_def sys_init_def)
  qed
  moreover have "apart (thr (sys_init r w) i) (thr (sys_init r w) j) w" if ij: "i < nat n" "j < nat n" "i \<noteq> j" for i j
  proof -
    obtain a s where a: "k_newfd K (m + i) = Inr a" "threads r ! i = (new_thread i (int a))\<lparr>thread_started := s\<rparr>"
      using thr [OF ij(1)] by blast
    obtain a' s' where a': "k_newfd K (m + j) = Inr a'" "threads r ! j = (new_thread j (int a'))\<lparr>thread_started := s'\<rparr>"
      using thr [OF ij(2)] by blast
    have "a \<noteq> a'" using fds a(1) a'(1) ij(3) by (metis add_left_cancel)
    then show ?thesis using a(2) a'(2) by (simp add: thr_def sys_init_def apart_new)
  qed
  ultimately show "sys_inv (sys_init r w)"
    using cnt n mem spec r0 unfolding sys_inv_def by (simp add: sys_init_def)
  show "reactor_running r" using spec by simp
  have "\<not> running (threads r ! j)" if "j < nat n" for j
    using thr [OF that] by (auto simp: new_thread_def zero_thread_def)
  moreover have "thread_started (threads r ! j)" if "j < nat n" for j
    using spec b that n r0 by auto
  ultimately show "\<forall>i < nthreads r. thread_started (threads r ! i) \<and> \<not> running (threads r ! i)"
    using cnt by simp
qed

section \<open>Destroying\<close>

text \<open>The slots of one thread: every block it owns is freed, its descriptors are closed, in one go.\<close>

definition owned_from :: "nat \<Rightarrow> reactor_thread \<Rightarrow> addr set" where
  "owned_from j t = {a. \<exists>i. j \<le> i \<and> i < MAX_CONNECTIONS \<and> connections t i = Ptr a}"

lemma owned_from_0: "owned_from 0 t = owned t"
  by (auto simp: owned_from_def owned_def)

lemma owned_from_step:
  assumes "j < MAX_CONNECTIONS"
  shows "owned_from j t = owned_from (Suc j) t \<union> {a. connections t j = Ptr a}"
proof -
  have "j \<le> i \<longleftrightarrow> i = j \<or> Suc j \<le> i" for i by auto
  then show ?thesis using assms by (auto simp: owned_from_def)
qed

lemma close_slots_spec:
  "inj_on (connections t) (slots t) \<Longrightarrow> \<forall>a \<in> owned_from j t. heap w a \<noteq> None \<Longrightarrow>
   \<exists>w' tr. close_slots t j w = Inr w' \<and> trace w' = trace w @ tr
     \<and> heap w' = (\<lambda>a. if a \<in> owned_from j t then None else heap w a)
     \<and> (\<forall>f. SysClose f \<in> set tr \<longleftrightarrow> (\<exists>a \<in> owned_from j t. \<exists>c. heap w a = Some c \<and> conn_fd c = f))"
proof (induction "MAX_CONNECTIONS - j" arbitrary: j w)
  case 0
  then have "owned_from j t = {}" by (auto simp: owned_from_def)
  then show ?case using 0 by (subst close_slots.simps) simp
next
  case (Suc d)
  then have j: "j < MAX_CONNECTIONS" and d: "d = MAX_CONNECTIONS - Suc j" by auto
  note step = owned_from_step [OF j, of t]
  show ?case
  proof (cases "connections t j")
    case NULL
    then have "owned_from j t = owned_from (Suc j) t" using step by simp
    moreover have "close_slots t j w = close_slots t (Suc j) w"
      using j NULL by (subst close_slots.simps) simp
    ultimately show ?thesis using Suc.hyps(1) [OF d Suc.prems(1), of w] Suc.prems(2) by simp
  next
    case (Ptr a)
    then have own: "owned_from j t = insert a (owned_from (Suc j) t)" using step by auto
    obtain c where c: "heap w a = Some c" using Suc.prems(2) own by auto
    let ?w = "emit (SysFree a) ((sys_close (conn_fd c) w)\<lparr>heap := (heap w)(a := None)\<rparr>)"
    have fresh: "a \<notin> owned_from (Suc j) t"
    proof
      assume "a \<in> owned_from (Suc j) t"
      then obtain i where i: "Suc j \<le> i" "i < MAX_CONNECTIONS" "connections t i = Ptr a"
        by (auto simp: owned_from_def)
      then have "i \<in> slots t" "j \<in> slots t" using j Ptr by (auto simp: slots_def)
      then have "i = j" using Suc.prems(1) i(3) Ptr by (auto simp: inj_on_def)
      then show False using i(1) by simp
    qed
    then have "\<forall>b \<in> owned_from (Suc j) t. heap ?w b \<noteq> None" using Suc.prems(2) own by auto
    then obtain w' tr where rest: "close_slots t (Suc j) ?w = Inr w'" "trace w' = trace ?w @ tr"
      "heap w' = (\<lambda>b. if b \<in> owned_from (Suc j) t then None else heap ?w b)"
      "\<forall>f. SysClose f \<in> set tr \<longleftrightarrow> (\<exists>b \<in> owned_from (Suc j) t. \<exists>d. heap ?w b = Some d \<and> conn_fd d = f)"
      using Suc.hyps(1) [OF d Suc.prems(1), of ?w] by blast
    have eq: "close_slots t j w = Inr w'"
      using j Ptr c rest(1) by (subst close_slots.simps) simp
    have close: "SysClose f \<in> set ([SysClose (conn_fd c), SysFree a] @ tr)
        \<longleftrightarrow> (\<exists>b \<in> owned_from j t. \<exists>d. heap w b = Some d \<and> conn_fd d = f)" for f
      using rest(4) own c fresh by auto
    have "heap w' = (\<lambda>b. if b \<in> owned_from j t then None else heap w b)"
      using rest(3) own by (auto simp: fun_eq_iff)
    moreover have "trace w' = trace w @ [SysClose (conn_fd c), SysFree a] @ tr" using rest(2) by simp
    ultimately show ?thesis using eq close by blast
  qed
qed

lemma destroy_threads_spec:
  "\<forall>t \<in> set ts. inj_on (connections t) (slots t) \<and> (\<forall>a \<in> owned t. heap w a \<noteq> None) \<Longrightarrow>
   \<forall>i < length ts. \<forall>j < length ts. i \<noteq> j \<longrightarrow> owned (ts ! i) \<inter> owned (ts ! j) = {} \<Longrightarrow>
   \<exists>w' tr. destroy_threads ts w = Inr w' \<and> trace w' = trace w @ tr
     \<and> heap w' = (\<lambda>a. if \<exists>t \<in> set ts. a \<in> owned t then None else heap w a)
     \<and> (\<forall>f. SysClose f \<in> set tr \<longleftrightarrow> (\<exists>t \<in> set ts. f = epoll_fd t \<or> f \<in> conn_fds t w))"
proof (induction ts arbitrary: w)
  case Nil
  then show ?case by simp
next
  case (Cons t ts)
  let ?w = "sys_close (epoll_fd t) w"
  have inj: "inj_on (connections t) (slots t)" and live: "\<forall>a \<in> owned_from 0 t. heap ?w a \<noteq> None"
    using Cons.prems(1) by (simp_all add: owned_from_0)
  obtain w1 tr1 where slots: "close_slots t 0 ?w = Inr w1" "trace w1 = trace ?w @ tr1"
    "heap w1 = (\<lambda>a. if a \<in> owned_from 0 t then None else heap ?w a)"
    "\<forall>f. SysClose f \<in> set tr1 \<longleftrightarrow> (\<exists>a \<in> owned_from 0 t. \<exists>c. heap ?w a = Some c \<and> conn_fd c = f)"
    using close_slots_spec [OF inj live] by blast
  then have one: "close_slots t 0 ?w = Inr w1" "trace w1 = trace ?w @ tr1"
    "heap w1 = (\<lambda>a. if a \<in> owned t then None else heap w a)"
    "\<forall>f. SysClose f \<in> set tr1 \<longleftrightarrow> f \<in> conn_fds t w"
    by (simp_all add: owned_from_0 conn_fds_def cong: if_cong)
  have disj: "owned t \<inter> owned u = {}" if "u \<in> set ts" for u
  proof -
    obtain k where "k < length ts" "ts ! k = u" using \<open>u \<in> set ts\<close> by (auto simp: in_set_conv_nth)
    then show ?thesis using Cons.prems(2) [rule_format, of 0 "Suc k"] by simp
  qed
  have same: "heap w1 a = heap w a" if "u \<in> set ts" "a \<in> owned u" for u a
    using one(3) disj [OF that(1)] that(2) by auto
  have cf: "conn_fds u w1 = conn_fds u w" if "u \<in> set ts" for u
    using same [OF that] by (auto simp: conn_fds_def)
  have p1: "\<forall>u \<in> set ts. inj_on (connections u) (slots u) \<and> (\<forall>a \<in> owned u. heap w1 a \<noteq> None)"
    using Cons.prems(1) same by auto
  have p2: "\<forall>i < length ts. \<forall>j < length ts. i \<noteq> j \<longrightarrow> owned (ts ! i) \<inter> owned (ts ! j) = {}"
    using Cons.prems(2) by (metis Suc_less_eq length_Cons nat.inject nth_Cons_Suc)
  obtain w' tr where rest: "destroy_threads ts w1 = Inr w'" "trace w' = trace w1 @ tr"
    "heap w' = (\<lambda>a. if \<exists>u \<in> set ts. a \<in> owned u then None else heap w1 a)"
    "\<forall>f. SysClose f \<in> set tr \<longleftrightarrow> (\<exists>u \<in> set ts. f = epoll_fd u \<or> f \<in> conn_fds u w1)"
    using Cons.IH [OF p1 p2] by blast
  have close: "SysClose f \<in> set ([SysClose (epoll_fd t)] @ tr1 @ tr)
      \<longleftrightarrow> (\<exists>u \<in> set (t # ts). f = epoll_fd u \<or> f \<in> conn_fds u w)" for f
    using one(4) rest(4) cf by auto
  have "heap w' = (\<lambda>a. if \<exists>u \<in> set (t # ts). a \<in> owned u then None else heap w a)"
    using rest(3) one(3) by (auto simp: fun_eq_iff)
  moreover have "trace w' = trace w @ [SysClose (epoll_fd t)] @ tr1 @ tr" using one(2) rest(2) by simp
  moreover have "destroy_threads (t # ts) w = Inr w'" using one(1) rest(1) by simp
  ultimately show ?case using close by blast
qed

end
