(* ===== verification/ReactorServer.thy ===== *)
theory ReactorServer
  imports ReactorLife
begin

text \<open>
  \<open>codes/network/reactor/server.c\<close>: the listening socket, the accepting thread and the program.

  \<^item> \<open>accept_passes\<close> is the loop of \<open>accept_thread_main\<close>, its first \<open>n\<close> passes, as that thread
    alone sees it; \<open>spur k\<close> are the disturbed swaps of the queue push of pass \<open>k\<close>.
  \<^item> \<open>server_main\<close> has two arguments for what the other threads do: \<open>J\<close> as in \<open>reactor_stop\<close>,
    and \<open>S\<close> while the program waits for the Enter key.
\<close>

definition SERVER_PORT :: int where "SERVER_PORT = 8080"

section \<open>The listening socket\<close>

definition create_server_socket :: "kernel \<Rightarrow> int \<Rightarrow> ('o, 'd) world \<Rightarrow> fd \<times> ('o, 'd) world" where
  "create_server_socket K port w = (case sys_newfd K SysSocket w of
     (Inl e, w1) \<Rightarrow> (-1, w1)
   | (Inr f, w1) \<Rightarrow> (case sys_ok K (SysSetsockopt f) w1 of
       (Some e, w2) \<Rightarrow> (-1, sys_close f w2)
     | (None, w2) \<Rightarrow> (case sys_getfl K f w2 of
         (Inl e, w3) \<Rightarrow> (-1, sys_close f w3)
       | (Inr flags, w3) \<Rightarrow> (case sys_setfl K f (flags OR O_NONBLOCK) w3 of
           (Some e, w4) \<Rightarrow> (-1, sys_close f w4)
         | (None, w4) \<Rightarrow> (case sys_ok K (SysBind f port) w4 of
             (Some e, w5) \<Rightarrow> (-1, sys_close f w5)
           | (None, w5) \<Rightarrow> (case sys_ok K (SysListen f 65535) w5 of
               (Some e, w6) \<Rightarrow> (-1, sys_close f w6)
             | (None, w6) \<Rightarrow> (f, w6)))))))"

section \<open>The accepting thread\<close>

fun accept_passes :: "kernel \<Rightarrow> (nat \<Rightarrow> nat \<Rightarrow> bool) \<Rightarrow> nat \<Rightarrow> fd \<Rightarrow> reactor \<times> rworld
    \<Rightarrow> (reactor \<times> rworld) option" where
  "accept_passes K spur 0 sfd st = Some st"
| "accept_passes K spur (Suc n) sfd (r, w) =
     (if reactor_running r
      then case sys_newfd K (SysAccept sfd) w of
          (Inl e, w1) \<Rightarrow>
            if e = EAGAIN \<or> e = EWOULDBLOCK then accept_passes K spur n sfd (r, emit SysSleep w1)
            else Some (r, w1)
        | (Inr f, w1) \<Rightarrow> (case reactor_add_connection (spur n) (Ptr r) f of
            None \<Rightarrow> None
          | Some (code, p) \<Rightarrow>
              accept_passes K spur n sfd (deref p, if code \<noteq> 0 then sys_close f w1 else w1))
      else Some (r, w))"

definition accept_thread_main :: "kernel \<Rightarrow> (nat \<Rightarrow> nat \<Rightarrow> bool) \<Rightarrow> nat \<Rightarrow> reactor \<times> rworld
    \<Rightarrow> (reactor \<times> rworld) option" where
  "accept_thread_main K spur n st = (case st of (r, w) \<Rightarrow>
     (case create_server_socket K SERVER_PORT w of (sfd, w1) \<Rightarrow>
       if sfd = -1 then Some (r, w1)
       else map_option (\<lambda>(r', w'). (r', sys_close sfd w')) (accept_passes K spur n sfd (r, w1))))"

section \<open>The program\<close>

definition server_main :: "kernel \<Rightarrow> (nat \<Rightarrow> reactor \<times> rworld \<Rightarrow> reactor \<times> rworld)
    \<Rightarrow> (reactor ptr \<times> rworld \<Rightarrow> reactor ptr \<times> rworld) \<Rightarrow> int \<Rightarrow> rworld \<Rightarrow> (int \<times> rworld) res" where
  "server_main K J S cpu_cores w =
     (let n = (if 0 < cpu_cores then cpu_cores else 4)
      in case reactor_create K n w of (p, w1) \<Rightarrow>
        if p = NULL then Inr (1, w1)
        else case reactor_run K J p w1 of (code, p2, w2) \<Rightarrow>
          if code \<noteq> 0 then rbind (reactor_destroy J p2 w2) (\<lambda>(_, w3). Inr (1, w3))
          else case sys_ok K SysThread (emit SysSleep w2) of
              (Some e, w3) \<Rightarrow> (case reactor_stop J p2 w3 of (_, p4, w4) \<Rightarrow>
                rbind (reactor_destroy J p4 w4) (\<lambda>(_, w5). Inr (1, w5)))
            | (None, w3) \<Rightarrow> (case S (p2, w3) of (p4, w4) \<Rightarrow>
                case reactor_stop J p4 w4 of (_, p5, w5) \<Rightarrow>
                rbind (reactor_destroy J p5 (emit SysJoin w5)) (\<lambda>(_, w6). Inr (0, w6))))"

section \<open>Lemmas\<close>

text \<open>The server socket: listening and non-blocking, or closed again.\<close>

definition socket_steps :: "fd \<Rightarrow> int \<Rightarrow> u32 \<Rightarrow> sysev list" where
  "socket_steps f port flags = [SysSocket (Inr (nat f)), SysSetsockopt f True, SysGetFlags f True,
     SysSetFlags f (flags OR O_NONBLOCK) True, SysBind f port True, SysListen f 65535 True]"

lemma create_server_socket_cases:
  obtains (ok) f w' flags where "create_server_socket K port w = (f, w')" and "0 \<le> f" and "same_mem w w'"
      and "trace w' = trace w @ socket_steps f port flags"
  | (nosocket) e w' where "create_server_socket K port w = (-1, w')" and "trace w' = trace w @ [SysSocket (Inl e)]"
  | (undone) f tr w' where "create_server_socket K port w = (-1, w')"
      and "trace w' = trace w @ [SysSocket (Inr (nat f))] @ tr @ [SysClose f]" and "0 \<le> f" and "\<forall>r. SysSocket r \<notin> set tr"
proof (cases "k_newfd K (now w)")
  case (Inl e)
  then show ?thesis
    by (intro nosocket [of "emit (SysSocket (Inl e)) w" e]) (simp_all add: create_server_socket_def sys_newfd_def)
next
  case (Inr a)
  let ?f = "int a"
  let ?w1 = "emit (SysSocket (Inr a)) w"
  have new: "sys_newfd K SysSocket w = (Inr ?f, ?w1)" using Inr by (simp add: sys_newfd_def)
  show ?thesis
  proof (cases "k_ok K (now ?w1)")
    case (Some e)
    then show ?thesis
      using new by (intro undone [of "sys_close ?f (emit (SysSetsockopt ?f False) ?w1)" ?f "[SysSetsockopt ?f False]"])
        (simp_all add: create_server_socket_def sys_ok_def)
  next
    case ok1: None
    let ?w2 = "emit (SysSetsockopt ?f True) ?w1"
    show ?thesis
    proof (cases "k_flags K (now ?w2)")
      case (Inl e)
      then show ?thesis
        using new ok1
        by (intro undone [of "sys_close ?f (emit (SysGetFlags ?f False) ?w2)" ?f "[SysSetsockopt ?f True, SysGetFlags ?f False]"])
          (simp_all add: create_server_socket_def sys_ok_def sys_getfl_def)
    next
      case fl: (Inr flags)
      let ?w3 = "emit (SysGetFlags ?f True) ?w2"
      let ?fl = "flags OR O_NONBLOCK"
      show ?thesis
      proof (cases "k_ok K (now ?w3)")
        case (Some e)
        then show ?thesis
          using new ok1 fl
          by (intro undone [of "sys_close ?f (emit (SysSetFlags ?f ?fl False) ?w3)" ?f
                "[SysSetsockopt ?f True, SysGetFlags ?f True, SysSetFlags ?f ?fl False]"])
            (simp_all add: create_server_socket_def sys_ok_def sys_getfl_def sys_setfl_def)
      next
        case ok2: None
        let ?w4 = "emit (SysSetFlags ?f ?fl True) ?w3"
        show ?thesis
        proof (cases "k_ok K (now ?w4)")
          case (Some e)
          then show ?thesis
            using new ok1 fl ok2
            by (intro undone [of "sys_close ?f (emit (SysBind ?f port False) ?w4)" ?f
                  "[SysSetsockopt ?f True, SysGetFlags ?f True, SysSetFlags ?f ?fl True, SysBind ?f port False]"])
              (simp_all add: create_server_socket_def sys_ok_def sys_getfl_def sys_setfl_def)
        next
          case ok3: None
          let ?w5 = "emit (SysBind ?f port True) ?w4"
          show ?thesis
          proof (cases "k_ok K (now ?w5)")
            case (Some e)
            then show ?thesis
              using new ok1 fl ok2 ok3
              by (intro undone [of "sys_close ?f (emit (SysListen ?f 65535 False) ?w5)" ?f
                    "[SysSetsockopt ?f True, SysGetFlags ?f True, SysSetFlags ?f ?fl True, SysBind ?f port True,
                      SysListen ?f 65535 False]"])
                (simp_all add: create_server_socket_def sys_ok_def sys_getfl_def sys_setfl_def)
          next
            case None
            then show ?thesis
              using new ok1 fl ok2 ok3
              by (intro ok [of ?f "emit (SysListen ?f 65535 True) ?w5" flags])
                (simp_all add: create_server_socket_def sys_ok_def sys_getfl_def sys_setfl_def socket_steps_def same_mem_def)
          qed
        qed
      qed
    qed
  qed
qed

end
