(* ===== verification/ReactorProps.thy ===== *)
theory ReactorProps
  imports ReactorLoop RingProps
begin

text \<open>
  What one reactor thread promises: the bytes it sends back, the bound on its read loop, where its
  echo step gets stuck, memory safety of the loop, what happens to the descriptors it takes off its
  queue, closing, and the idle timeout.
\<close>

section \<open>Helper lemmas\<close>

text \<open>The reads of a trace.\<close>

fun reads :: "sysev list \<Rightarrow> nat" where
  "reads [] = 0"
| "reads (SysRead f r # es) = Suc (reads es)"
| "reads (_ # es) = reads es"

lemma reads_append [simp]: "reads (xs @ ys) = reads xs + reads ys"
  by (induction xs rule: reads.induct) auto

lemma handle_read_bound:
  assumes heap: "heap w a = Some c" and wf: "wf_conn c"
  shows "\<exists>t' w' tr. handle_read_event K a (t, w) = Some (Inr (t', w')) \<and> trace w' = trace w @ tr
    \<and> reads tr \<le> read_measure c + 1"
proof -
  let ?Q = "\<lambda>st. \<exists>c' tr. heap (snd st) a = Some c' \<and> wf_conn c' \<and> trace (snd st) = trace w @ tr
    \<and> reads tr + read_measure c' \<le> read_measure c"
  let ?R = "\<lambda>st. \<exists>tr. trace (snd st) = trace w @ tr \<and> reads tr \<le> read_measure c + 1"
  have "\<exists>st'. handle_read_event K a (t, w) = Some (Inr st') \<and> ?R st'"
  proof (rule read_loop_rule [where Q = ?Q])
    show "?Q (t, w)" using heap wf by (intro exI [of _ c] exI [of _ "[]"]) simp
  next
    fix t1 :: reactor_thread and w1 :: rworld and c1 and bs :: "u8 list"
    assume Q: "?Q (t1, w1)" and c1: "heap w1 a = Some c1" "wf_conn c1" and bs: "bs \<noteq> []"
      "unat (read_len c1) + length bs \<le> 8192"
    then obtain tr where tr: "trace w1 = trace w @ tr" "reads tr + read_measure c1 \<le> read_measure c" by auto
    have "read_measure (echoed (appended bs c1)) < read_measure c1" by (rule measure_decreases [OF c1(2) bs])
    moreover have "\<exists>b. trace (snd (after_read K a c1 bs (t1, w1)))
        = trace w @ tr @ [SysRead (conn_fd c1) (Inr bs)] @ [SysEpollMod (epoll_fd t1) (conn_fd c1) OUT_MODE b]"
      using tr by (simp add: after_read_def)
    then obtain b where "trace (snd (after_read K a c1 bs (t1, w1)))
        = trace w @ tr @ [SysRead (conn_fd c1) (Inr bs)] @ [SysEpollMod (epoll_fd t1) (conn_fd c1) OUT_MODE b]" ..
    ultimately show "?Q (after_read K a c1 bs (t1, w1))"
      using c1 bs tr wf_echoed [OF wf_appended [OF c1(2) bs(2)]]
      by (intro exI [of _ "echoed (appended bs c1)"]
          exI [of _ "tr @ [SysRead (conn_fd c1) (Inr bs)] @ [SysEpollMod (epoll_fd t1) (conn_fd c1) OUT_MODE b]"])
        (simp add: after_read_def)
  next
    fix t1 :: reactor_thread and w1 :: rworld and c1 e
    assume "?Q (t1, w1)" and "heap w1 a = Some c1"
    then obtain tr where "trace w1 = trace w @ tr" "reads tr \<le> read_measure c" by auto
    then show "?R (t1, emit (SysRead (conn_fd c1) (Inl e)) w1)"
      by (intro exI [of _ "tr @ [SysRead (conn_fd c1) (Inl e)]"]) simp
  next
    fix t1 :: reactor_thread and w1 :: rworld and c1 r st'
    assume "?Q (t1, w1)" and c1: "heap w1 a = Some c1"
      and close: "handle_close_event K (Ptr a) (t1, emit (SysRead (conn_fd c1) r) w1) = Inr st'"
    then obtain tr where tr: "trace w1 = trace w @ tr" "reads tr \<le> read_measure c" by auto
    let ?w = "emit (SysRead (conn_fd c1) r) w1"
    have "heap ?w a = Some c1" using c1 by simp
    then obtain b where "trace (snd st') = trace w @ tr @ [SysRead (conn_fd c1) r]
        @ [SysEpollDel (epoll_fd t1) (conn_fd c1) b] @ [SysClose (conn_fd c1)] @ [SysFree a]"
      using close tr handle_close_eq [of ?w a c1 K t1] by auto
    then show "?R st'"
      using tr by (intro exI [of _ "tr @ [SysRead (conn_fd c1) r]
        @ [SysEpollDel (epoll_fd t1) (conn_fd c1) b] @ [SysClose (conn_fd c1)] @ [SysFree a]"]) simp
  qed auto
  then show ?thesis by auto
qed

text \<open>What happens to the descriptors of a batch.\<close>

definition grows :: "('o, 'd) world \<Rightarrow> ('o, 'd) world \<Rightarrow> bool" where
  "grows w w' \<longleftrightarrow> prefix (trace w) (trace w')"

lemma grows_refl [simp]: "grows w w"
  by (simp add: grows_def)

lemma grows_trans: "grows w w1 \<Longrightarrow> grows w1 w2 \<Longrightarrow> grows w w2"
  by (auto simp: grows_def)

lemma grows_emit [simp]: "grows w (emit e w)"
  by (simp add: grows_def)

lemma set_nonblocking_grows: "set_nonblocking K f w = (r, w') \<Longrightarrow> grows w w'"
  by (auto simp: grows_def set_nonblocking_def sys_getfl_def sys_setfl_def sys_ok_def split: sum.splits option.splits)

lemma free_grows: "sys_free a w = Inr w' \<Longrightarrow> grows w w'"
  by (auto simp: grows_def sys_free_def split: option.splits)

lemma create_grows: "connection_create K f tid w = Inr (p, w') \<Longrightarrow> grows w w'"
  by (auto simp: grows_def connection_create_def sys_alloc_def get_current_time_ms_def sys_clock_def store_def
      split: prod.splits ptr.splits if_splits option.splits elim!: rbind_Inr_E)

lemma epoll_add_grows: "sys_epoll_add K e f d m w = (x, w') \<Longrightarrow> grows w w'"
  by (auto simp: grows_def sys_epoll_add_def Let_def split: if_splits)

lemma thread_add_grows:
  assumes add: "thread_add_connection K f (t, w) = Inr (r, t', w')"
  shows "grows w w' \<and> accept_queue t' = accept_queue t"
proof (cases "first_free (connections t) 0")
  case None
  then show ?thesis using add by (simp add: thread_add_connection_def)
next
  case (Some k)
  then obtain p w1 where create: "connection_create K f (thread_id t) w = Inr (p, w1)"
    using add by (auto simp: thread_add_connection_def elim!: rbind_Inr_E)
  note one = create_grows [OF create]
  show ?thesis
  proof (cases p)
    case NULL
    then show ?thesis using add Some create one by (simp add: thread_add_connection_def)
  next
    case (Ptr a)
    obtain r2 w2 where nb: "set_nonblocking K f w1 = (r2, w2)" by force
    have two: "grows w w2" by (rule grows_trans [OF one set_nonblocking_grows [OF nb]])
    obtain x w3 where ep: "sys_epoll_add K (epoll_fd t) f (Ptr a) (EPOLLIN OR EPOLLET) w2 = (x, w3)" by force
    have three: "grows w w3" by (rule grows_trans [OF two epoll_add_grows [OF ep]])
    have "accept_queue t' = accept_queue t"
      using add Some create Ptr nb ep
      by (auto simp: thread_add_connection_def split: if_splits option.splits elim!: rbind_Inr_E)
    moreover consider "sys_free a w2 = Inr w'" | "sys_free a w3 = Inr w'" | "w' = w3"
      using add Some create Ptr nb ep
      by (auto simp: thread_add_connection_def split: if_splits option.splits elim!: rbind_Inr_E)
    ultimately show ?thesis using two three free_grows grows_trans by metis
  qed
qed

lemma add_batch_fate:
  "good (fs @ H) t w \<Longrightarrow> \<exists>n' t' w'. add_batch K fs n (t, w) = Inr (n', t', w')
     \<and> conn_fds t w \<subseteq> conn_fds t' w' \<and> conn_fds t' w' \<subseteq> conn_fds t w \<union> set fs \<and> grows w w' \<and> accept_queue t' = accept_queue t
     \<and> (\<forall>f \<in> set fs. f \<in> conn_fds t' w' \<or> SysClose f \<in> set (drop (length (trace w)) (trace w')))
     \<and> n' = n + of_nat (length (filter (\<lambda>f. f \<in> conn_fds t' w') fs))"
proof (induction fs arbitrary: n t w)
  case Nil
  then show ?case by simp
next
  case (Cons f fs)
  obtain r t1 w1 where add: "thread_add_connection K f (t, w) = Inr (r, t1, w1)"
    and res: "r = 0 \<and> good (fs @ H) t1 w1 \<and> conn_fds t1 w1 = insert f (conn_fds t w)
      \<or> r = -1 \<and> t1 = t \<and> heap w1 = heap w \<and> good (f # fs @ H) t1 w1"
    using thread_add_ok [of f "fs @ H" t w K] Cons.prems by auto
  have f: "f \<notin> conn_fds t w" "f \<notin> set fs"
    using Cons.prems by (auto simp: good_def inv_fds_def waiting_fds_def)
  have one: "grows w w1" and q: "accept_queue t1 = accept_queue t" using thread_add_grows [OF add] by auto
  have later: "SysClose g \<in> set (drop (length (trace w)) (trace w2))"
    if "SysClose g \<in> set (drop (length (trace v)) (trace w2))" "grows w v" for g v and w2 :: rworld
    using that set_drop_subset_set_drop [of "length (trace w)" "length (trace v)" "trace w2"]
    by (auto simp: grows_def dest: prefix_length_le)
  show ?case
  proof (cases "r = 0")
    case True
    then have cf: "conn_fds t1 w1 = insert f (conn_fds t w)" and "good (fs @ H) t1 w1" using res by auto
    then obtain n' t' w' where rest: "add_batch K fs (n + 1) (t1, w1) = Inr (n', t', w')"
      "conn_fds t1 w1 \<subseteq> conn_fds t' w'" "conn_fds t' w' \<subseteq> conn_fds t1 w1 \<union> set fs" "grows w1 w'" "accept_queue t' = accept_queue t1"
      "\<forall>f \<in> set fs. f \<in> conn_fds t' w' \<or> SysClose f \<in> set (drop (length (trace w1)) (trace w'))"
      "n' = n + 1 + of_nat (length (filter (\<lambda>f. f \<in> conn_fds t' w') fs))"
      using Cons.IH [of t1 w1 "n + 1"] by blast
    then show ?thesis using add True cf q later [OF _ one] grows_trans [OF one] by auto
  next
    case False
    then have t1: "t1 = t" "heap w1 = heap w" and good1: "good (f # fs @ H) t1 w1" and r: "r \<noteq> 0" using res by auto
    let ?w = "sys_close f w1"
    have two: "grows w ?w" using one by (auto simp: grows_def)
    have cf: "conn_fds t1 ?w = conn_fds t w" using t1 by (simp add: conn_fds_def)
    obtain n' t' w' where rest: "add_batch K fs n (t1, ?w) = Inr (n', t', w')"
      "conn_fds t1 ?w \<subseteq> conn_fds t' w'" "conn_fds t' w' \<subseteq> conn_fds t1 ?w \<union> set fs" "grows ?w w'" "accept_queue t' = accept_queue t1"
      "\<forall>f \<in> set fs. f \<in> conn_fds t' w' \<or> SysClose f \<in> set (drop (length (trace ?w)) (trace w'))"
      "n' = n + of_nat (length (filter (\<lambda>f. f \<in> conn_fds t' w') fs))"
      using Cons.IH [OF close_hand_good(1) [OF good1], of n] by blast
    have "SysClose f \<in> set (drop (length (trace w)) (trace w'))"
      using one rest(4) by (auto simp: grows_def prefix_def)
    moreover have "f \<notin> conn_fds t' w'" using rest(3) cf f by auto
    ultimately show ?thesis
      using add r rest cf t1 later [OF _ two] grows_trans [OF two rest(4)] by auto
  qed
qed

section \<open>The idle timeout\<close>

text \<open>The connections that a sweep from slot \<open>i\<close> on at time \<open>ms\<close> finds idle too long.\<close>

definition expired :: "u64 \<Rightarrow> nat \<Rightarrow> reactor_thread \<Rightarrow> rworld \<Rightarrow> addr set" where
  "expired ms i t w = {a. \<exists>j c. i \<le> j \<and> j < MAX_CONNECTIONS \<and> connections t j = Ptr a
     \<and> heap w a = Some c \<and> 30000 < ms - last_active_time c}"

lemma expired_step:
  assumes "i < MAX_CONNECTIONS"
  shows "expired ms i t w = expired ms (Suc i) t w \<union> {a. connections t i = Ptr a
     \<and> (\<exists>c. heap w a = Some c \<and> 30000 < ms - last_active_time c)}"
proof -
  have "i \<le> j \<longleftrightarrow> j = i \<or> Suc i \<le> j" for j by auto
  then show ?thesis using assms by (auto simp: expired_def)
qed

lemma close_slot:
  assumes good: "good H t w" and i: "i < MAX_CONNECTIONS" "connections t i = Ptr a"
    and close: "handle_close_event K (Ptr a) (t, w) = Inr (t', w')"
  shows "connections t' = (connections t)(i := NULL)" and "good H t' w'"
    and "owned t' = owned t - {a}" and "heap w' = (heap w)(a := None)"
proof -
  have a: "a \<in> owned t" using i by (auto simp: owned_def)
  obtain c where c: "heap w a = Some c" by (rule good_alive [OF good a])
  have "inj_on (connections t) (slots t)" using good by (simp add: good_def inv_mem_def)
  then have "connections (clear_slot a 0 t) = (connections t)(i := NULL)"
    by (simp add: clear_slot_owned [OF _ i])
  then show "connections t' = (connections t)(i := NULL)"
    using close handle_close_eq [OF c, of K t] by auto
  show "good H t' w'" "owned t' = owned t - {a}" "heap w' = (heap w)(a := None)"
    using close_good [OF good a c, of K] close by auto
qed

lemma timeout_sweep_exact:
  "good H t w \<Longrightarrow> timeout_sweep K ms i (t, w) = Inr (t', w') \<Longrightarrow> owned t' = owned t - expired ms i t w"
proof (induction "MAX_CONNECTIONS - i" arbitrary: i t w)
  case 0
  then show ?case by (subst (asm) timeout_sweep.simps) (auto simp: expired_def)
next
  case (Suc n)
  then have i: "i < MAX_CONNECTIONS" and n: "n = MAX_CONNECTIONS - Suc i" by auto
  note IH = Suc.hyps(1) [OF n]
  show ?case
  proof (cases "connections t i")
    case NULL
    then have "timeout_sweep K ms (Suc i) (t, w) = Inr (t', w')"
      using Suc.prems(2) i by (subst (asm) timeout_sweep.simps) simp
    from IH [OF Suc.prems(1) this] show ?thesis using NULL expired_step [OF i] by simp
  next
    case (Ptr a)
    then have a: "a \<in> owned t" using i by (auto simp: owned_def)
    obtain c where c: "heap w a = Some c" by (rule good_alive [OF Suc.prems(1) a])
    show ?thesis
    proof (cases "30000 < ms - last_active_time c")
      case True
      obtain t1 w1 where close: "handle_close_event K (Ptr a) (t, w) = Inr (t1, w1)"
        using close_good [OF Suc.prems(1) a c, of K] by blast
      note cl = close_slot [OF Suc.prems(1) i Ptr close]
      have rest: "timeout_sweep K ms (Suc i) (t1, w1) = Inr (t', w')"
        using Suc.prems(2) i Ptr c True close by (subst (asm) timeout_sweep.simps) simp
      have inj: "inj_on (connections t) (slots t)" using Suc.prems(1) by (simp add: good_def inv_mem_def)
      have other: "b \<noteq> a" if "Suc i \<le> j" "j < MAX_CONNECTIONS" "connections t j = Ptr b" for j b
        using inj_onD [OF inj, of i j] that i Ptr by (auto simp: slots_def)
      have same: "(Suc i \<le> j \<and> j < MAX_CONNECTIONS \<and> connections t1 j = Ptr b \<and> heap w1 b = Some d)
          = (Suc i \<le> j \<and> j < MAX_CONNECTIONS \<and> connections t j = Ptr b \<and> heap w b = Some d)" for j b d
        using other [of j b] cl(1,4) by auto
      have "expired ms (Suc i) t1 w1 = expired ms (Suc i) t w"
        unfolding expired_def using same by blast
      then show ?thesis
        using IH [OF cl(2) rest] cl(3) Ptr c True expired_step [OF i, of ms t w] by auto
    next
      case False
      then have "timeout_sweep K ms (Suc i) (t, w) = Inr (t', w')"
        using Suc.prems(2) i Ptr c by (subst (asm) timeout_sweep.simps) simp
      moreover have "expired ms i t w = expired ms (Suc i) t w"
        using Ptr c False expired_step [OF i, of ms t w] by auto
      ultimately show ?thesis using IH [OF Suc.prems(1)] by simp
    qed
  qed
qed

section \<open>A concrete thread for the examples\<close>

text \<open>One idle connection on descriptor 7, three descriptors waiting in a queue that wraps around.\<close>

definition demo_conn :: connection where
  "demo_conn = zero_connection\<lparr>conn_fd := 7\<rparr>"

definition demo_thread :: reactor_thread where
  "demo_thread = \<lparr>thread_id = 0, thread_started = True, running = True, epoll_fd = 10,
     connections = (\<lambda>_. NULL)(0 := Ptr 0), connection_count = 1, accept_queue = wrapped,
     total_connections = 1, active_connections = 1, processed_events = 0, batch_processed = 0\<rparr>"

definition demo_world :: rworld where
  "demo_world = \<lparr>heap = [0 \<mapsto> demo_conn], next_addr = 1,
     interest = (\<lambda>_ _. None)(10 := [7 \<mapsto> (Ptr 0, IN_MODE)]), trace = []\<rparr>"

definition demo_kernel :: "(nat \<Rightarrow> errno + u8 list) \<Rightarrow> kernel" where
  "demo_kernel rd = \<lparr>k_alloc = \<lambda>_. True, k_ok = \<lambda>_. None, k_flags = \<lambda>_. Inr 2,
     k_newfd = \<lambda>n. Inr (n + 20), k_read = rd, k_write = \<lambda>_. Inr 2, k_poll = \<lambda>_. Inr [(7, 1)],
     k_clock = \<lambda>n. (of_nat n, 0), k_spur = \<lambda>_. False,
     k_submit = \<lambda>_. 1, k_events = \<lambda>_. Inr 0\<rparr>"

lemma demo_conn_wf [simp]: "wf_conn demo_conn" "conn_stream demo_conn = []" "conn_fd demo_conn = 7"
  "read_len demo_conn = 0" "write_len demo_conn = 0"
  by (simp_all add: demo_conn_def wf_conn_def zero_connection_def conn_stream_def pending_def)

lemma demo_simps [simp]: "heap demo_world 0 = Some demo_conn" "trace demo_world = []" "now demo_world = 0"
  "connections demo_thread 0 = Ptr 0" "rq_contents (accept_queue demo_thread) = [1, 2, 3]"
  "epoll_fd demo_thread = 10"
  by (simp_all add: demo_world_def demo_thread_def now_def)

lemma demo_owned [simp]: "owned demo_thread = {0}" "slots demo_thread = {0}" "conn_fds demo_thread demo_world = {7}"
  by (auto simp: owned_def slots_def conn_fds_def demo_thread_def demo_world_def MAX_CONNECTIONS_def split: if_splits)

lemma demo_good [simp]: "good [] demo_thread demo_world"
proof -
  have "inv_mem demo_thread demo_world"
    by (auto simp: inv_mem_def registered_def) (auto simp: demo_world_def split: if_splits)
  moreover have "inv_count demo_thread"
    by (simp add: inv_count_def) (simp add: demo_thread_def)
  moreover have "inv_fds [] demo_thread demo_world"
    by (simp add: inv_fds_def waiting_fds_def thread_fds_def) (simp add: demo_thread_def)
  ultimately show ?thesis by (simp add: good_def)
qed

lemma demo_good_hand: "good [8] demo_thread demo_world"
proof -
  have "inv_fds [8] demo_thread demo_world"
    by (simp add: inv_fds_def waiting_fds_def thread_fds_def) (simp add: demo_thread_def)
  then show ?thesis using demo_good by (simp add: good_def)
qed

section \<open>Properties\<close>

text \<open>C5: the echo is faithful. Whatever the kernel answers and in whatever order read and write
  events are dispatched to a connection that starts with empty buffers, the handlers return without
  a fault, what was sent to the peer is a prefix of what was received from it, and while the
  connection is open the received bytes are the sent ones followed by the buffered ones, at most
  16384 of them.\<close>

theorem echo_integrity:
  assumes "heap w a = Some c" and "wf_conn c" and "conn_stream c = []"
  shows "\<exists>t' w' tr. serve K a es (t, w) = Some (Inr (t', w')) \<and> trace w' = trace w @ tr
    \<and> prefix (sent (conn_fd c) tr) (received (conn_fd c) tr)
    \<and> (\<forall>c'. heap w' a = Some c' \<longrightarrow> received (conn_fd c) tr = sent (conn_fd c) tr @ conn_stream c'
         \<and> length (conn_stream c') \<le> 16384)"
proof -
  obtain t' w' where run: "serve K a es (t, w) = Some (Inr (t', w'))" and post: "echo_post (conn_fd c) a c w w'"
    using serve_echo_gen [OF assms(1,2)] by blast
  have bound: "length (conn_stream c') \<le> 16384" if "wf_conn c'" for c'
    using that by (auto simp: wf_conn_def conn_stream_def pending_def)
  obtain tr where tr: "trace w' = trace w @ tr" and cases: "case heap w' a of
      Some c' \<Rightarrow> wf_conn c' \<and> conn_fd c' = conn_fd c
        \<and> conn_stream c @ received (conn_fd c) tr = sent (conn_fd c) tr @ conn_stream c'
    | None \<Rightarrow> prefix (sent (conn_fd c) tr) (conn_stream c @ received (conn_fd c) tr)"
    using post unfolding echo_post_def by blast
  show ?thesis
    using cases bound assms(3) by (intro exI conjI) (rule run, rule tr, auto split: option.splits)
qed

theorem echo_integrity_witness:
  "\<exists>t' w'. serve (demo_kernel (\<lambda>n. if n = 0 then Inr [1, 2, 3] else Inl 11)) 0 [Readable, Writable, Writable]
     (demo_thread, demo_world) = Some (Inr (t', w')) \<and> prefix (sent 7 (trace w')) (received 7 (trace w'))"
  using echo_integrity [of demo_world 0 demo_conn] by fastforce

text \<open>C32: the edge-triggered read loop always returns, and makes at most 16386 calls of \<open>read\<close>
  however much the peer sends: one call for each byte that the two buffers can take, and one more.\<close>

theorem read_loop_bounded:
  assumes "heap w a = Some c" and "wf_conn c"
  shows "\<exists>t' w' tr. handle_read_event K a (t, w) = Some (Inr (t', w')) \<and> trace w' = trace w @ tr
    \<and> reads tr \<le> 16386"
proof -
  have "read_measure c + 1 \<le> 16386" by (auto simp: read_measure_def)
  then show ?thesis using handle_read_bound [OF assms, of K t] by (meson le_trans)
qed

theorem read_loop_bounded_witness:
  "\<exists>st'. handle_read_event (demo_kernel (\<lambda>_. Inr [1])) 0 (demo_thread, demo_world) = Some (Inr st')"
  using read_loop_bounded [of demo_world 0 demo_conn] by fastforce

text \<open>C21: the echo step loses a connection whose read buffer fills up. When one \<open>read\<close> into empty
  buffers returns 8192 bytes, they do not pass the check \<open>write_sent + read_len < BUFFER_SIZE\<close>:
  nothing is echoed, and no event that is dispatched to the connection afterwards, under any
  behaviour of the kernel, reads, sends or closes anything.\<close>

theorem full_read_wedges:
  assumes "heap w a = Some c" and "wf_conn c" and "read_len c = 0" and "write_len c = 0"
    and "k_read K (now w) = Inr bs" and "8192 \<le> length bs"
  shows "\<exists>w1 c1. handle_read_event K a (t, w) = Some (Inr (t, w1)) \<and> heap w1 a = Some c1
    \<and> conn_stream c1 = take 8192 bs \<and> sent (conn_fd c) (trace w1) = sent (conn_fd c) (trace w)
    \<and> (\<forall>K' es. serve K' a es (t, w1) = Some (Inr (t, w1)))"
proof -
  let ?c = "appended (take 8192 bs) c"
  let ?st = "after_read K a c (take 8192 bs) (t, w)"
  have len: "length (take 8192 bs) = 8192" using assms(6) by simp
  have unat: "unat (read_len ?c) = 8192" using assms(3) len by (subst unat_appended) auto
  then have wedged: "wedged ?c" and c: "echoed ?c = ?c"
    using assms(2,3,4) len wf_appended [OF assms(2), of "take 8192 bs"] by (auto simp: wedged_def echoed_def)
  have "take 8192 bs \<noteq> []" using len by auto
  then have pass: "read_pass K a (t, w) = Inr (True, ?st)"
    using assms(3,5) len
    by (intro read_pass_data [OF assms(1,2)]) (simp_all add: sys_read_def Let_def BUFFER_SIZE_def)
  obtain w1 where st: "?st = (t, w1)" by (simp add: after_read_def)
  have heap1: "heap w1 a = Some ?c" using st c by (auto simp: after_read_def)
  have "read_pass K a (t, w1) = Inr (False, t, w1)"
    using heap1 wedged unat by (intro read_pass_full) (auto simp: wedged_def)
  then have "handle_read_event K a (t, w) = Some (Inr (t, w1))"
    using pass st by (simp add: handle_read_event.simps [of K a "(t, w)"] handle_read_event.simps [of K a "(t, w1)"])
  moreover have "conn_stream ?c = take 8192 bs"
    using assms(2,3,4) len sent_zero [OF assms(2,4)] stream_appended [OF assms(2), of "take 8192 bs"]
    by (simp add: conn_stream_def pending_def)
  moreover have "sent (conn_fd c) (trace w1) = sent (conn_fd c) (trace w)"
    using st by (auto simp: after_read_def)
  ultimately show ?thesis using heap1 wedged_serve [OF heap1 wedged] by blast
qed

theorem full_read_wedges_witness:
  "\<exists>w1. handle_read_event (demo_kernel (\<lambda>_. Inr (replicate 8192 65))) 0 (demo_thread, demo_world) = Some (Inr (demo_thread, w1))
     \<and> sent 7 (trace w1) = []
     \<and> serve (demo_kernel (\<lambda>_. Inr [66])) 0 [Readable, Writable, Readable] (demo_thread, w1) = Some (Inr (demo_thread, w1))"
  using full_read_wedges [of demo_world 0 demo_conn "demo_kernel (\<lambda>_. Inr (replicate 8192 65))" "replicate 8192 65" demo_thread]
  by (fastforce simp: demo_kernel_def)

text \<open>C6: memory safety and the loop invariant of a reactor thread. Whatever the kernel answers, any
  number of passes of the loop returns without a use after free, a double free or a buffer overrun, and
  keeps the invariant: every slot holds its own live connection, the epoll instance knows exactly
  those, the counters are the number of occupied slots, and no descriptor is in two places.\<close>

theorem reactor_thread_safe:
  assumes "good [] t w"
  shows "\<exists>t' w'. reactor_thread_main K n (t, w) = Some (Inr (t', w')) \<and> good [] t' w'"
  using thread_main_ok [OF assms] .

theorem reactor_thread_safe_witness:
  "\<exists>st. reactor_thread_main (demo_kernel (\<lambda>n. Inr (replicate n 1))) 1000 (demo_thread, demo_world) = Some (Inr st)"
  using reactor_thread_safe [OF demo_good, of "demo_kernel (\<lambda>n. Inr (replicate n 1))" 1000] by blast

text \<open>C22: a thread loses no accepted descriptor: a batch takes at most 64 descriptors from the front
  of the queue, each of them ends up with a connection or closed, and the count that the batch
  reports is the number of those with a connection. No connection that was open is lost.\<close>

theorem batch_loses_no_descriptor:
  assumes "good [] t w"
  shows "\<exists>n t' w' fs. process_new_connections_batch K (t, w) = Inr (n, t', w')
    \<and> rq_contents (accept_queue t) = fs @ rq_contents (accept_queue t') \<and> length fs \<le> 64
    \<and> (\<forall>f \<in> set fs. f \<in> conn_fds t' w' \<or> SysClose f \<in> set (drop (length (trace w)) (trace w')))
    \<and> n = of_nat (length (filter (\<lambda>f. f \<in> conn_fds t' w') fs)) \<and> conn_fds t w \<subseteq> conn_fds t' w'"
proof -
  let ?w1 = "emit (SysCas (k_spur K (now w))) w"
  have wf: "rq_wf (accept_queue t)" using assms by (simp add: good_def inv_fds_def)
  obtain fs q where eq: "process_new_connections_batch K (t, w)
      = rbind (add_batch K fs 0 (t\<lparr>accept_queue := q\<rparr>, ?w1)) (\<lambda>(n, t2, w2).
          Inr (n, (if 1 < length fs then t2\<lparr>batch_processed := batch_processed t2 + 1\<rparr> else t2), w2))"
    and q: "rq_wf q" "rq_contents (accept_queue t) = fs @ rq_contents q" and fs: "length fs \<le> 64"
    by (rule process_batch_eq [OF wf, of K w])
  let ?t = "t\<lparr>accept_queue := q\<rparr>"
  have "good [] t ?w1" using same_mem_good [OF assms, of ?w1] by simp
  then have "good (fs @ []) ?t ?w1" using take_from_queue [OF _ q] by (simp add: run_ok_def)
  then obtain n t' w' where add: "add_batch K fs 0 (?t, ?w1) = Inr (n, t', w')"
    and cf: "conn_fds ?t ?w1 \<subseteq> conn_fds t' w'" and tr: "grows ?w1 w'" and q': "accept_queue t' = q"
    and fate: "\<forall>f \<in> set fs. f \<in> conn_fds t' w' \<or> SysClose f \<in> set (drop (length (trace ?w1)) (trace w'))"
    and n: "n = of_nat (length (filter (\<lambda>f. f \<in> conn_fds t' w') fs))"
    using add_batch_fate [of fs "[]" ?t ?w1 K 0] by auto
  let ?t' = "if 1 < length fs then t'\<lparr>batch_processed := batch_processed t' + 1\<rparr> else t'"
  have same: "conn_fds ?t' w' = conn_fds t' w'" "conn_fds ?t ?w1 = conn_fds t w" "accept_queue ?t' = q"
    using q' by (simp_all add: conn_fds_def)
  have "SysClose f \<in> set (drop (length (trace w)) (trace w'))"
    if "SysClose f \<in> set (drop (length (trace ?w1)) (trace w'))" for f
    using that tr by (auto simp: grows_def prefix_def)
  then have "process_new_connections_batch K (t, w) = Inr (n, ?t', w')
    \<and> rq_contents (accept_queue t) = fs @ rq_contents (accept_queue ?t') \<and> length fs \<le> 64
    \<and> (\<forall>f \<in> set fs. f \<in> conn_fds ?t' w' \<or> SysClose f \<in> set (drop (length (trace w)) (trace w')))
    \<and> n = of_nat (length (filter (\<lambda>f. f \<in> conn_fds ?t' w') fs)) \<and> conn_fds t w \<subseteq> conn_fds ?t' w'"
    using eq add q fs fate n cf unfolding same by auto
  then show ?thesis by blast
qed

theorem batch_loses_no_descriptor_witness:
  "\<exists>n t' w' fs. process_new_connections_batch (demo_kernel (\<lambda>_. Inl 11)) (demo_thread, demo_world) = Inr (n, t', w')
     \<and> [1, 2, 3] = fs @ rq_contents (accept_queue t') \<and> {7} \<subseteq> conn_fds t' w'"
  using batch_loses_no_descriptor [OF demo_good, of "demo_kernel (\<lambda>_. Inl 11)"] by auto

text \<open>C34: adding a connection. On success exactly one connection is added, with empty buffers and
  registered for reading, and the three counters go up by one; on failure the thread and its heap are
  as before and the descriptor is still the caller's to close.\<close>

theorem add_connection_outcome:
  assumes "good (f # H) t w"
  shows "\<exists>r t' w'. thread_add_connection K f (t, w) = Inr (r, t', w')
    \<and> (r = 0 \<and> (\<exists>a c. a \<notin> owned t \<and> owned t' = insert a (owned t) \<and> heap w' = (heap w)(a \<mapsto> c)
          \<and> conn_fd c = f \<and> conn_stream c = [] \<and> conn_thread c = thread_id t
          \<and> interest w' (epoll_fd t) f = Some (Ptr a, IN_MODE))
        \<and> connection_count t' = connection_count t + 1 \<and> active_connections t' = active_connections t + 1
        \<and> total_connections t' = total_connections t + 1
      \<or> r = -1 \<and> t' = t \<and> heap w' = heap w \<and> interest w' = interest w)"
proof (cases "first_free (connections t) 0")
  case None
  then show ?thesis by (simp add: thread_add_connection_def)
next
  case (Some k)
  have k: "k < MAX_CONNECTIONS" "connections t k = NULL" using first_free_Some [OF Some] by auto
  have fresh: "heap w (next_addr w) = None" using assms by (auto simp: good_def inv_mem_def)
  then have new: "next_addr w \<notin> owned t" using assms by (auto simp: good_def inv_mem_def)
  show ?thesis
  proof (cases rule: connection_create_cases [of K f "thread_id t" w])
    case (null w1)
    then show ?thesis using Some by (simp add: thread_add_connection_def same_mem_def)
  next
    case (conn c w1)
    obtain r w2 where nb: "set_nonblocking K f w1 = (r, w2)" and w2: "same_mem w1 w2" and r: "r = 0 \<or> r = -1"
      by (rule set_nonblocking_cases)
    have heap2: "heap w2 (next_addr w) = Some c" using conn(2) w2 by (simp add: same_mem_def)
    show ?thesis
    proof (cases "r = -1")
      case True
      then show ?thesis
        using Some conn nb w2 heap2 fresh by (simp add: thread_add_connection_def same_mem_def fun_upd_idem)
    next
      case False
      show ?thesis
      proof (cases rule: sys_epoll_add_cases [of K "epoll_fd t" f "Ptr (next_addr w)" IN_MODE w2])
        case (failed e w3)
        then show ?thesis
          using Some conn nb w2 heap2 fresh False by (simp add: thread_add_connection_def same_mem_def fun_upd_idem)
      next
        case (added w3)
        then show ?thesis
          using Some conn nb w2 False new owned_add [OF k]
          by (auto simp: thread_add_connection_def same_mem_def)
      qed
    qed
  qed
qed

theorem add_connection_outcome_witness:
  "\<exists>r st. thread_add_connection (demo_kernel (\<lambda>_. Inl 11)) 8 (demo_thread, demo_world) = Inr (r, st) \<and> (r = 0 \<or> r = -1)"
  using add_connection_outcome [OF demo_good_hand, of "demo_kernel (\<lambda>_. Inl 11)"] by auto

text \<open>C33: the idle timeout closes exactly the connections of the thread whose last event is more
  than 30000 milliseconds ago, and no other.\<close>

theorem timeout_closes_idle:
  assumes "good [] t w"
  shows "\<exists>t' w'. timeout_sweep K ms 0 (t, w) = Inr (t', w')
    \<and> owned t' = {a \<in> owned t. \<forall>c. heap w a = Some c \<longrightarrow> ms - last_active_time c \<le> 30000}"
proof -
  obtain t' w' where run: "timeout_sweep K ms 0 (t, w) = Inr (t', w')"
    using timeout_sweep_ok [OF assms] by blast
  have "owned t' = owned t - expired ms 0 t w" by (rule timeout_sweep_exact [OF assms run])
  also have "\<dots> = {a \<in> owned t. \<forall>c. heap w a = Some c \<longrightarrow> ms - last_active_time c \<le> 30000}"
    by (auto simp: owned_def expired_def not_less)
  finally show ?thesis using run by blast
qed

theorem timeout_closes_idle_witness:
  "\<exists>t' w'. timeout_sweep (demo_kernel (\<lambda>_. Inl 11)) 30001 0 (demo_thread, demo_world) = Inr (t', w') \<and> owned t' = {}"
proof -
  have "{a \<in> owned demo_thread. \<forall>c. heap demo_world a = Some c \<longrightarrow> 30001 - last_active_time c \<le> 30000} = {}"
    by (auto simp: demo_conn_def zero_connection_def)
  then show ?thesis
    using timeout_closes_idle [OF demo_good, of "demo_kernel (\<lambda>_. Inl 11)" 30001] by metis
qed

text \<open>C35: closing a connection of the thread frees its slot and its memory, closes its descriptor and
  removes it from the epoll instance, takes one off both counters, and touches no other connection.\<close>

theorem close_is_exact:
  assumes "good H t w" and "a \<in> owned t" and "heap w a = Some c"
  shows "\<exists>t' w'. handle_close_event K (Ptr a) (t, w) = Inr (t', w') \<and> good H t' w'
    \<and> owned t' = owned t - {a} \<and> heap w' = (heap w)(a := None)
    \<and> interest w' (epoll_fd t) = (interest w (epoll_fd t))(conn_fd c := None)
    \<and> SysClose (conn_fd c) \<in> set (drop (length (trace w)) (trace w'))"
proof -
  obtain t' w' where close: "handle_close_event K (Ptr a) (t, w) = Inr (t', w')" "good H t' w'"
    "owned t' = owned t - {a}" "heap w' = (heap w)(a := None)"
    "interest w' (epoll_fd t) = (interest w (epoll_fd t))(conn_fd c := None)"
    using close_good [OF assms, of K] by blast
  have "SysClose (conn_fd c) \<in> set (drop (length (trace w)) (trace w'))"
    using close(1) handle_close_eq [OF assms(3), of K t] by auto
  then show ?thesis using close by blast
qed

theorem close_is_exact_witness:
  "\<exists>t' w'. handle_close_event (demo_kernel (\<lambda>_. Inl 11)) (Ptr 0) (demo_thread, demo_world) = Inr (t', w')
     \<and> owned t' = {} \<and> heap w' 0 = None"
  using close_is_exact [OF demo_good, of 0 demo_conn "demo_kernel (\<lambda>_. Inl 11)"] by auto

end
