(* ===== verification/ReactorSysProps.thy ===== *)
theory ReactorSysProps
  imports ReactorServer ReactorProps
begin

text \<open>
  What the reactor as a whole promises: safety of every interleaving of its threads, which thread a
  descriptor goes to, what stopping and destroying achieve and where they fall short, and that the
  accepting side loses no descriptor.
\<close>

section \<open>Helper lemmas\<close>

lemma sys_inv_apart:
  "sys_inv s \<Longrightarrow> i < nthreads (rct s) \<Longrightarrow> j < nthreads (rct s) \<Longrightarrow> i \<noteq> j \<Longrightarrow> apart (thr s i) (thr s j) (wld s)"
  by (simp add: sys_inv_def)

text \<open>Without a fatal error of \<open>epoll_wait\<close> a pass always goes on.\<close>

definition poll_survives :: "kernel \<Rightarrow> bool" where
  "poll_survives K \<longleftrightarrow> (\<forall>n e. k_poll K n = Inl e \<longrightarrow> e = EINTR)"

lemma iteration_goes_on:
  assumes "poll_survives K" and "reactor_iteration K n st = Some (Inr (again, t', w'))"
  shows "again"
  using assms
  by (auto simp: reactor_iteration_def sys_epoll_wait_def poll_survives_def Let_def
      split: sum.splits option.splits prod.splits elim!: rbind_Inr_E)

lemma step_enter:
  assumes "sys_step K s s'" and "sys_inv s" and "pcs s i = Created" and "pcs s' i \<noteq> Created"
  shows "pcs s' i = Looping 0 \<and> running (thr s' i)"
  using assms by (induction rule: sys_step.induct) (auto simp: thr_def sys_inv_def split: if_splits)

lemma running_stays:
  assumes "sys_reachable K s s'" and "poll_survives K" and "sys_inv s" and "i < nthreads (rct s)"
    and "main s = Joining i" and "pcs s i = Created \<or> (\<exists>n. pcs s i = Looping n \<and> running (thr s i))"
  shows "main s' = Joining i \<and> (pcs s' i = Created \<or> (\<exists>n. pcs s' i = Looping n \<and> running (thr s' i)))"
proof -
  let ?P = "\<lambda>s. sys_inv s \<and> i < nthreads (rct s) \<and> main s = Joining i
    \<and> (pcs s i = Created \<or> (\<exists>n. pcs s i = Looping n \<and> running (thr s i)))"
  have "?P s'"
  proof (rule reachable_keeps [where P = ?P, OF assms(1)])
    show "?P s" using assms by blast
  next
    fix s s'
    assume step: "sys_step K s s'" and P: "?P s"
    then have inv: "sys_inv s" and i: "i < nthreads (rct s)" and main: "main s = Joining i"
      and pc: "pcs s i = Created \<or> (\<exists>n. pcs s i = Looping n \<and> running (thr s i))" by auto
    have main': "main s' = Joining i" using step_main [OF step main] pc by auto
    have i': "i < nthreads (rct s')" using step_nthreads [OF step inv] i by simp
    have "pcs s' i = Created \<or> (\<exists>n. pcs s' i = Looping n \<and> running (thr s' i))"
    proof (cases "pcs s i = Created")
      case True
      then show ?thesis using step_enter [OF step inv True] by auto
    next
      case False
      then show ?thesis
        using step_pc [OF step, of i] step_running [OF step inv i] pc main iteration_goes_on [OF assms(2)]
        by (auto split: if_splits)
    qed
    then show "?P s'" using sys_step_inv [OF step inv] i' main' by blast
  qed
  then show ?thesis by blast
qed

text \<open>A thread that was told to stop while it was in its loop.\<close>

lemma leaving_stays:
  assumes "sys_reachable K s s'" and "sys_inv s" and "i < nthreads (rct s)"
    and "pcs s i = Looping n" and "\<not> running (thr s i)"
  shows "sys_inv s' \<and> i < nthreads (rct s') \<and> (pcs s' i = Looping n \<and> \<not> running (thr s' i) \<or> pcs s' i = Exited)"
proof (rule reachable_keeps [where P = "\<lambda>s. sys_inv s \<and> i < nthreads (rct s)
    \<and> (pcs s i = Looping n \<and> \<not> running (thr s i) \<or> pcs s i = Exited)", OF assms(1)])
  fix s s'
  assume step: "sys_step K s s'" and P: "sys_inv s \<and> i < nthreads (rct s)
    \<and> (pcs s i = Looping n \<and> \<not> running (thr s i) \<or> pcs s i = Exited)"
  then have inv: "sys_inv s" and i: "i < nthreads (rct s)" by auto
  have "pcs s' i = Looping n \<and> \<not> running (thr s' i) \<or> pcs s' i = Exited"
    using step_pc [OF step, of i] step_running [OF step inv i] P by auto
  then show "sys_inv s' \<and> i < nthreads (rct s') \<and> (pcs s' i = Looping n \<and> \<not> running (thr s' i) \<or> pcs s' i = Exited)"
    using sys_step_inv [OF step inv] step_nthreads [OF step inv] i by simp
qed (use assms in blast)

text \<open>Stopping right after starting: the main thread waits for a thread that has not begun.\<close>

lemma early_stop_reachable:
  assumes "reactor_running r" and "0 < nthreads r" and "thread_started (threads r ! 0)"
    and "nthreads r \<le> length (threads r)"
  shows "\<exists>s. sys_reachable K (sys_init r w) s \<and> main s = Joining 0 \<and> pcs s 0 = Created \<and> nthreads (rct s) = nthreads r"
proof -
  let ?s0 = "sys_init r w"
  let ?s1 = "?s0\<lparr>rct := (rct ?s0)\<lparr>reactor_running := False\<rparr>, main := Storing 0\<rparr>"
  let ?s2 = "?s1\<lparr>rct := set_thread 0 ((threads (rct ?s1) ! 0)\<lparr>running := False\<rparr>) (rct ?s1),
                    main := (if thread_started (threads (rct ?s1) ! 0) then Joining 0 else Storing (Suc 0))\<rparr>"
  have "sys_step K ?s0 ?s1" using assms(1) by (intro sys_step.stop) (simp_all add: sys_init_def)
  moreover have "sys_step K ?s1 ?s2"
    using assms(2) by (intro sys_step.store) (simp_all add: sys_init_def nthreads_def)
  ultimately have "sys_reachable K ?s0 ?s2" by (simp add: sys_reachable_def)
  moreover have "main ?s2 = Joining 0" "pcs ?s2 0 = Created"
    using assms by (simp_all add: sys_init_def)
  moreover have "nthreads (rct ?s2) = nthreads r" by (simp add: sys_init_def) (simp add: nthreads_def)
  ultimately show ?thesis by blast
qed

text \<open>Stopping after the first thread has entered its loop.\<close>

lemma late_stop_reachable:
  assumes "reactor_running r" and "0 < nthreads r" and "thread_started (threads r ! 0)"
    and "nthreads r \<le> length (threads r)"
  shows "\<exists>s. sys_reachable K (sys_init r w) s \<and> main s = Joining 0 \<and> pcs s 0 = Looping 0 \<and> \<not> running (thr s 0)
    \<and> nthreads (rct s) = nthreads r"
proof -
  let ?s0 = "sys_init r w"
  let ?sa = "?s0\<lparr>rct := set_thread 0 ((threads (rct ?s0) ! 0)\<lparr>running := True\<rparr>) (rct ?s0), pcs := (pcs ?s0)(0 := Looping 0)\<rparr>"
  let ?s1 = "?sa\<lparr>rct := (rct ?sa)\<lparr>reactor_running := False\<rparr>, main := Storing 0\<rparr>"
  let ?s2 = "?s1\<lparr>rct := set_thread 0 ((threads (rct ?s1) ! 0)\<lparr>running := False\<rparr>) (rct ?s1),
                    main := (if thread_started (threads (rct ?s1) ! 0) then Joining 0 else Storing (Suc 0))\<rparr>"
  have len: "0 < length (threads r)" using assms(2,4) by linarith
  have "sys_step K ?s0 ?sa" using assms by (intro sys_step.enter) (simp_all add: sys_init_def)
  moreover have "sys_step K ?sa ?s1" using assms(1) by (intro sys_step.stop) (simp_all add: sys_init_def)
  moreover have "sys_step K ?s1 ?s2"
    using assms(2) by (intro sys_step.store) (simp_all add: sys_init_def nthreads_def)
  ultimately have "sys_reachable K ?s0 ?s2" by (simp add: sys_reachable_def)
  moreover have "main ?s2 = Joining 0" "pcs ?s2 0 = Looping 0" "\<not> running (thr ?s2 0)"
    using assms len by (simp_all add: sys_init_def thr_def)
  moreover have "nthreads (rct ?s2) = nthreads r" by (simp add: sys_init_def) (simp add: nthreads_def)
  ultimately show ?thesis by blast
qed

text \<open>A failed creation closes what it opened.\<close>

lemma close_all_trace: "trace (close_all fs w) = trace w @ map SysClose fs"
  by (induction fs arbitrary: w) simp_all

lemma create_threads_undo:
  "create_threads K [i..<n] ts w = (None, w') \<Longrightarrow> n \<le> length ts \<Longrightarrow>
   \<exists>tr. trace w' = trace w @ tr \<and> (\<forall>j < i. SysClose (epoll_fd (ts ! j)) \<in> set tr)
     \<and> (\<forall>a. SysEpollCreate (Inr a) \<in> set tr \<longrightarrow> SysClose (int a) \<in> set tr)"
proof (induction "n - i" arbitrary: i ts w)
  case 0
  then show ?case by simp
next
  case (Suc d)
  then have lt: "i < n" and d: "d = n - Suc i" by auto
  then have upt: "[i..<n] = i # [Suc i..<n]" by (simp add: upt_rec)
  show ?case
  proof (cases "k_newfd K (now w)")
    case (Inl e)
    let ?tr = "SysEpollCreate (Inl e) # map SysClose (map epoll_fd (take i ts))"
    have "w' = close_all (map epoll_fd (take i ts)) (emit (SysEpollCreate (Inl e)) w)"
      using Suc.prems(1) upt Inl by (simp add: Let_def sys_newfd_def)
    then have "trace w' = trace w @ ?tr" by (simp add: close_all_trace)
    moreover have "SysClose (epoll_fd (ts ! j)) \<in> set ?tr" if "j < i" for j
    proof -
      have "take i ts ! j = ts ! j" "j < length (take i ts)" using that lt Suc.prems(2) by auto
      then have "ts ! j \<in> set (take i ts)" by (metis nth_mem)
      then show ?thesis by auto
    qed
    ultimately show ?thesis by (intro exI [of _ ?tr]) auto
  next
    case (Inr a)
    let ?w = "emit (SysEpollCreate (Inr a)) w"
    define t where "t = (ts ! i)\<lparr>thread_id := int i, running := False, connection_count := 0,
      accept_queue := deref (ring_queue_init (Ptr (accept_queue (ts ! i)))), epoll_fd := int a,
      total_connections := 0, active_connections := 0, processed_events := 0, batch_processed := 0,
      connections := \<lambda>_. NULL\<rparr>"
    have t: "epoll_fd t = int a" and rest: "create_threads K [Suc i..<n] (ts[i := t]) ?w = (None, w')"
      using Suc.prems(1) upt Inr by (simp_all add: Let_def sys_newfd_def t_def)
    obtain tr where tr: "trace w' = trace ?w @ tr" "\<forall>j < Suc i. SysClose (epoll_fd (ts[i := t] ! j)) \<in> set tr"
      "\<forall>a. SysEpollCreate (Inr a) \<in> set tr \<longrightarrow> SysClose (int a) \<in> set tr"
      using Suc.hyps(1) [OF d rest] Suc.prems(2) by auto
    have "SysClose (int a) \<in> set tr" using tr(2) [rule_format, of i] t lt Suc.prems(2) by simp
    moreover have "SysClose (epoll_fd (ts ! j)) \<in> set tr" if "j < i" for j
      using tr(2) [rule_format, of j] that by simp
    ultimately show ?thesis using tr by (intro exI [of _ "SysEpollCreate (Inr a) # tr"]) auto
  qed
qed

text \<open>The queues as the accepting thread sees them.\<close>

definition queues_ok :: "reactor \<Rightarrow> bool" where
  "queues_ok r \<longleftrightarrow> 0 < thread_count r \<and> thread_count r \<le> 16 \<and> nthreads r \<le> length (threads r)
     \<and> (\<forall>i < nthreads r. rq_wf (accept_queue (threads r ! i)))"

definition queued :: "reactor \<Rightarrow> fd set" where
  "queued r = (\<Union>i < nthreads r. set (rq_contents (accept_queue (threads r ! i))))"

lemma add_connection_queues:
  assumes ok: "queues_ok r" and run: "reactor_running r" and f: "0 \<le> f"
    and add: "reactor_add_connection spur (Ptr r) f = Some (code, p)"
  obtains r' where "p = Ptr r'" and "queues_ok r'" and "reactor_running r'" and "code = 0 \<or> code = -1"
    and "queued r' = (if code = 0 then insert f (queued r) else queued r)"
proof -
  have "p \<noteq> NULL"
    using add f run by (auto simp: reactor_add_connection_def Let_def split: option.splits)
  then obtain r' where p: "p = Ptr r'" by (cases p) auto
  obtain i t where i: "i = unat (next_thread r mod word_of_int (thread_count r))" and t: "t = threads r ! i"
    and r': "r' = set_thread i (t\<lparr>accept_queue := snd (push_result (accept_queue t) f)\<rparr>) (r\<lparr>next_thread := next_thread r + 1\<rparr>)"
    and code: "code = (if rq_len (accept_queue t) < 65536 then 0 else -1)"
    by (rule add_connection_eq [OF add [unfolded p] f run])
  have lt: "i < nthreads r" unfolding i nthreads_def using ok by (intro thread_index) (auto simp: queues_ok_def)
  then have len: "i < length (threads r)" using ok by (simp add: queues_ok_def)
  have wf: "rq_wf (accept_queue t)" using ok lt by (simp add: queues_ok_def t)
  let ?q = "snd (push_result (accept_queue t) f)"
  have thr: "accept_queue (threads r' ! j) = (if j = i then ?q else accept_queue (threads r ! j))" for j
    using len by (simp add: r' nth_list_update)
  have n: "nthreads r' = nthreads r" "thread_count r' = thread_count r" "length (threads r') = length (threads r)"
    "reactor_running r' = reactor_running r" by (simp_all add: r' nthreads_def)
  have ok': "queues_ok r'"
    using ok n thr push_result_wf [OF wf] by (auto simp: queues_ok_def)
  have "queued r' = (if code = 0 then insert f (queued r) else queued r)"
    using push_result_queue(2) [OF wf, of f] lt unfolding queued_def n thr code
    by (auto simp: t split: if_splits)
  then show ?thesis using p ok' n run code by (intro that [of r']) auto
qed

lemma accept_passes_fate:
  "queues_ok r \<Longrightarrow> accept_passes K spur n sfd (r, w) = Some (r', w') \<Longrightarrow>
   \<exists>tr. trace w' = trace w @ tr \<and> queues_ok r' \<and> queued r \<subseteq> queued r'
     \<and> (\<forall>a. SysAccept sfd (Inr a) \<in> set tr \<longrightarrow> int a \<in> queued r' \<or> SysClose (int a) \<in> set tr)"
proof (induction n arbitrary: r w)
  case 0
  then show ?case by simp
next
  case (Suc n)
  show ?case
  proof (cases "reactor_running r")
    case False
    then show ?thesis using Suc.prems by simp
  next
    case run: True
    show ?thesis
    proof (cases "k_newfd K (now w)")
      case (Inl e)
      let ?w = "emit (SysAccept sfd (Inl e)) w"
      show ?thesis
      proof (cases "e = EAGAIN")
        case True
        then have "accept_passes K spur n sfd (r, emit SysSleep ?w) = Some (r', w')"
          using Suc.prems(2) run Inl by (simp add: sys_newfd_def)
        from Suc.IH [OF Suc.prems(1) this] obtain tr where tr: "trace w' = trace (emit SysSleep ?w) @ tr"
          "queues_ok r'" "queued r \<subseteq> queued r'"
          "\<forall>a. SysAccept sfd (Inr a) \<in> set tr \<longrightarrow> int a \<in> queued r' \<or> SysClose (int a) \<in> set tr" by blast
        then show ?thesis by (intro exI [of _ "SysAccept sfd (Inl e) # SysSleep # tr"]) auto
      next
        case False
        then have "r' = r" "w' = ?w" using Suc.prems(2) run Inl by (auto simp: sys_newfd_def)
        then show ?thesis using Suc.prems(1) by auto
      qed
    next
      case (Inr a)
      let ?w = "emit (SysAccept sfd (Inr a)) w"
      obtain code p where add: "reactor_add_connection (spur n) (Ptr r) (int a) = Some (code, p)"
        and rest: "accept_passes K spur n sfd (deref p, if code \<noteq> 0 then sys_close (int a) ?w else ?w) = Some (r', w')"
        using Suc.prems(2) run Inr by (auto simp: sys_newfd_def split: option.splits)
      obtain r1 where p: "p = Ptr r1" and ok1: "queues_ok r1" and code: "code = 0 \<or> code = -1"
        and q1: "queued r1 = (if code = 0 then insert (int a) (queued r) else queued r)"
        using add_connection_queues [OF Suc.prems(1) run _ add] by auto
      let ?w1 = "if code \<noteq> 0 then sys_close (int a) ?w else ?w"
      let ?pre = "if code \<noteq> 0 then [SysAccept sfd (Inr a), SysClose (int a)] else [SysAccept sfd (Inr a)]"
      obtain tr where tr: "trace w' = trace ?w1 @ tr" "queues_ok r'" "queued r1 \<subseteq> queued r'"
        "\<forall>a. SysAccept sfd (Inr a) \<in> set tr \<longrightarrow> int a \<in> queued r' \<or> SysClose (int a) \<in> set tr"
        using Suc.IH [OF ok1, of ?w1] rest unfolding p ptr.sel by blast
      have "trace w' = trace w @ ?pre @ tr" using tr(1) by (auto split: if_splits)
      moreover have "queued r \<subseteq> queued r'" using q1 tr(3) by (auto split: if_splits)
      moreover have "int b \<in> queued r' \<or> SysClose (int b) \<in> set (?pre @ tr)"
        if "SysAccept sfd (Inr b) \<in> set (?pre @ tr)" for b
        using that tr(3,4) q1 by (auto split: if_splits)
      ultimately show ?thesis using tr(2) by blast
    qed
  qed
qed

section \<open>A concrete start for the examples\<close>

definition boot_world :: rworld where
  "boot_world = \<lparr>heap = Map.empty, next_addr = 0, interest = (\<lambda>_ _. None), trace = []\<rparr>"

definition boot_kernel :: kernel where
  "boot_kernel = \<lparr>k_alloc = \<lambda>_. True, k_ok = \<lambda>_. None, k_flags = \<lambda>_. Inr 2,
     k_newfd = Inr, k_read = \<lambda>_. Inl 11, k_write = \<lambda>_. Inr 2, k_poll = \<lambda>_. Inr [],
     k_clock = \<lambda>n. (of_nat n, 0), k_spur = \<lambda>_. False,
     k_submit = \<lambda>_. 1, k_events = \<lambda>_. Inr 0\<rparr>"

lemma boot_simps [simp]: "k_newfd boot_kernel = Inr" "k_ok boot_kernel = (\<lambda>_. None)" "k_alloc boot_kernel = (\<lambda>_. True)"
  "heap boot_world a = None" "interest boot_world ep f = None" "poll_survives boot_kernel"
  by (simp_all add: boot_kernel_def boot_world_def poll_survives_def)

lemma boot_starts:
  "\<exists>r0 w1 r w. reactor_create boot_kernel 2 boot_world = (Ptr r0, w1) \<and> reactor_run boot_kernel J (Ptr r0) w1 = (0, Ptr r, w)"
proof -
  have "[0..<nat 2] = [0, 1]" by (simp add: upt_rec)
  then show ?thesis
    by (simp add: reactor_create_def reactor_run_def MAX_REACTOR_THREADS_def sys_block_def sys_newfd_def sys_ok_def Let_def)
qed

section \<open>Properties\<close>



text \<open>C20: \<open>reactor_stop\<close> may never return. A reactor thread sets its own \<open>running\<close> flag when it
  enters its loop; when the reactor is stopped before a started thread got that far, the thread overrides
  the stop, and the stopping thread waits for it for ever, unless \<open>epoll_wait\<close> fails fatally.\<close>

theorem early_stop_hangs:
  assumes "reactor_create K n w0 = (Ptr r0, w1)" and "reactor_run K J (Ptr r0) w1 = (0, Ptr r, w)"
    and "\<forall>a. heap w0 a = None" and "\<forall>ep f. interest w0 ep f = None"
    and "\<forall>m m' a. k_newfd K m = Inr a \<and> k_newfd K m' = Inr a \<longrightarrow> m = m'" and "poll_survives K"
  shows "\<exists>s. sys_reachable K (sys_init r w) s \<and> main s = Joining 0
    \<and> (\<forall>s'. sys_reachable K s s' \<longrightarrow> main s' = Joining 0 \<and> pcs s' 0 \<noteq> Exited)"
proof -
  note start = started_inv [OF assms(1-5)]
  have n: "0 < nthreads r" "nthreads r \<le> length (threads r)" using start(1) by (auto simp: sys_inv_def sys_init_def)
  then obtain s where s: "sys_reachable K (sys_init r w) s" "main s = Joining 0" "pcs s 0 = Created"
    "nthreads (rct s) = nthreads r"
    using early_stop_reachable [of r K w] start(2,3) by blast
  have inv: "sys_inv s" by (rule sys_reachable_inv [OF s(1) start(1)])
  have "main s' = Joining 0 \<and> pcs s' 0 \<noteq> Exited" if "sys_reachable K s s'" for s'
    using running_stays [OF that assms(6) inv _ s(2)] s(3,4) n by auto
  then show ?thesis using s by blast
qed

theorem early_stop_hangs_witness:
  "\<exists>r w s. main s = Joining 0 \<and> sys_reachable boot_kernel (sys_init r w) s
     \<and> (\<forall>s'. sys_reachable boot_kernel s s' \<longrightarrow> main s' = Joining 0)"
proof -
  obtain r0 w1 r w where "reactor_create boot_kernel 2 boot_world = (Ptr r0, w1)"
    "reactor_run boot_kernel (\<lambda>_. id) (Ptr r0) w1 = (0, Ptr r, w)" using boot_starts by blast
  from early_stop_hangs [OF this] show ?thesis by auto
qed

text \<open>C37: stopping a thread that is in its loop works. Once its flag is cleared it makes no further pass
  in any reachable state, and from each of them the waiting \<open>pthread_join\<close> can complete.\<close>

theorem stopped_thread_leaves:
  assumes "sys_inv s" and "i < nthreads (rct s)" and "pcs s i = Looping n" and "\<not> running (thr s i)"
    and "sys_reachable K s s'"
  shows "(pcs s' i = Looping n \<or> pcs s' i = Exited)
    \<and> (main s' = Joining i \<longrightarrow> (\<exists>s2. sys_reachable K s' s2 \<and> pcs s2 i = Exited \<and> main s2 = Storing (Suc i)))"
proof -
  have keep: "sys_inv s'" "i < nthreads (rct s')"
    "pcs s' i = Looping n \<and> \<not> running (thr s' i) \<or> pcs s' i = Exited"
    using leaving_stays [OF assms(5,1,2,3,4)] by auto
  have "\<exists>s2. sys_reachable K s' s2 \<and> pcs s2 i = Exited \<and> main s2 = Storing (Suc i)" if main: "main s' = Joining i"
  proof -
    let ?s1 = "if pcs s' i = Exited then s' else s'\<lparr>pcs := (pcs s')(i := Exited)\<rparr>"
    let ?s2 = "?s1\<lparr>wld := emit SysJoin (wld ?s1), main := Storing (Suc i)\<rparr>"
    have one: "sys_reachable K s' ?s1"
      using keep sys_step.leave [of i s' n K] by (auto simp: sys_reachable_def thr_def)
    have "main ?s1 = Joining i" "pcs ?s1 i = Exited" using main by auto
    then have "sys_step K ?s1 ?s2" by (rule sys_step.join)
    then have "sys_reachable K s' ?s2" using one by (simp add: sys_reachable_def)
    moreover have "pcs ?s2 i = Exited" "main ?s2 = Storing (Suc i)" by auto
    ultimately show ?thesis by blast
  qed
  then show ?thesis using keep(3) by blast
qed

theorem stopped_thread_leaves_witness:
  "\<exists>s s2. main s = Joining 0 \<and> pcs s 0 = Looping 0 \<and> sys_reachable boot_kernel s s2 \<and> main s2 = Storing 1"
proof -
  obtain r0 w1 r w where boot: "reactor_create boot_kernel 2 boot_world = (Ptr r0, w1)"
    "reactor_run boot_kernel (\<lambda>_. id) (Ptr r0) w1 = (0, Ptr r, w)" using boot_starts by blast
  have start: "sys_inv (sys_init r w)" "reactor_running r"
    "\<forall>i < nthreads r. thread_started (threads r ! i) \<and> \<not> running (threads r ! i)"
    using started_inv [OF boot] by auto
  have n: "0 < nthreads r" "nthreads r \<le> length (threads r)" using start(1) by (auto simp: sys_inv_def sys_init_def)
  then obtain s where s: "sys_reachable boot_kernel (sys_init r w) s" "main s = Joining 0" "pcs s 0 = Looping 0"
    "\<not> running (thr s 0)" "nthreads (rct s) = nthreads r"
    using late_stop_reachable [of r boot_kernel w] start(2,3) by blast
  have "sys_inv s" by (rule sys_reachable_inv [OF s(1) start(1)])
  moreover have "sys_reachable boot_kernel s s" by (simp add: sys_reachable_def)
  ultimately show ?thesis using stopped_thread_leaves [of s 0 0 boot_kernel s] s n by auto
qed

text \<open>C36: handing over. The descriptor goes to the thread that the round robin counter selects, at the
  end of its queue, or is refused when that queue holds 65536; the counter advances either way, and no
  other thread changes.\<close>

theorem handover_round_robin:
  assumes "queues_ok r" and "reactor_running r" and "0 \<le> f" and "\<not> spur k"
  shows "\<exists>i code r'. i < nthreads r \<and> int i = uint (next_thread r) mod thread_count r
    \<and> reactor_add_connection spur (Ptr r) f = Some (code, Ptr r')
    \<and> next_thread r' = next_thread r + 1 \<and> (\<forall>j. j \<noteq> i \<longrightarrow> threads r' ! j = threads r ! j)
    \<and> (if length (rq_contents (accept_queue (threads r ! i))) < 65536
        then code = 0 \<and> rq_contents (accept_queue (threads r' ! i)) = rq_contents (accept_queue (threads r ! i)) @ [f]
        else code = -1 \<and> rq_contents (accept_queue (threads r' ! i)) = rq_contents (accept_queue (threads r ! i)))"
proof -
  let ?i = "unat (next_thread r mod word_of_int (thread_count r))"
  let ?t = "threads r ! ?i"
  have lt: "?i < nthreads r"
    unfolding nthreads_def using assms(1) by (intro thread_index) (auto simp: queues_ok_def)
  then have len: "?i < length (threads r)" and wf: "rq_wf (accept_queue ?t)"
    using assms(1) by (auto simp: queues_ok_def)
  have "uint (word_of_int (thread_count r) :: u32) = thread_count r"
    using assms(1) by (simp add: uint_word_of_int queues_ok_def)
  then have i: "int ?i = uint (next_thread r) mod thread_count r" by (simp add: uint_mod)
  let ?q = "snd (push_result (accept_queue ?t) f)"
  let ?r = "set_thread ?i (?t\<lparr>accept_queue := ?q\<rparr>) (r\<lparr>next_thread := next_thread r + 1\<rparr>)"
  let ?code = "if rq_len (accept_queue ?t) < 65536 then 0 else -1 :: int"
  have "push_loop spur 0 (accept_queue ?t) f = Some (push_result (accept_queue ?t) f)"
    using push_loop_returns [of spur 0 k] assms(4) by simp
  then have "reactor_add_connection spur (Ptr r) f = Some (?code, Ptr ?r)"
    using assms(2,3) by (simp add: reactor_add_connection_def ring_queue_push_def Let_def push_result_def)
  moreover have "accept_queue (threads ?r ! ?i) = ?q" using len by simp
  ultimately show ?thesis
    using lt i push_result_queue(2) [OF wf, of f] by (intro exI [of _ ?i] exI [of _ ?code] exI [of _ ?r]) simp
qed

text \<open>A reactor with two idle threads.\<close>

definition demo_reactor :: reactor where
  "demo_reactor = \<lparr>threads = [new_thread 0 20, demo_thread], thread_count = 2, reactor_running = True, next_thread = 3,
     on_connect = NULL, on_data = NULL, on_write = NULL, on_close = NULL\<rparr>"

lemma demo_reactor_simps [simp]:
  "nthreads demo_reactor = 2" "reactor_running demo_reactor" "thread_count demo_reactor = 2"
  "next_thread demo_reactor = 3" "threads demo_reactor = [new_thread 0 20, demo_thread]"
  by (simp_all add: demo_reactor_def nthreads_def)

lemma demo_queue [simp]: "accept_queue demo_thread = wrapped"
  by (simp add: demo_thread_def)

lemma demo_reactor_queues [simp]: "queues_ok demo_reactor"
  by (auto simp: queues_ok_def less_2_cases_iff)

theorem handover_round_robin_witness:
  "\<exists>r'. reactor_add_connection (\<lambda>_. False) (Ptr demo_reactor) 9 = Some (0, Ptr r')
     \<and> rq_contents (accept_queue (threads r' ! 1)) = [1, 2, 3, 9]"
proof -
  obtain i code r' where h: "i < 2" "int i = 3 mod 2"
    "reactor_add_connection (\<lambda>_. False) (Ptr demo_reactor) 9 = Some (code, Ptr r')"
    "if length (rq_contents (accept_queue (threads demo_reactor ! i))) < 65536
     then code = 0 \<and> rq_contents (accept_queue (threads r' ! i)) = rq_contents (accept_queue (threads demo_reactor ! i)) @ [9]
     else code = -1 \<and> rq_contents (accept_queue (threads r' ! i)) = rq_contents (accept_queue (threads demo_reactor ! i))"
    using handover_round_robin [OF demo_reactor_queues, of 9 "\<lambda>_. False" 0] by auto
  have i: "i = 1" using h(2) by simp
  then show ?thesis using h(3,4) by auto
qed

text \<open>C23: the accepting loop loses no descriptor. Over any number of passes, every descriptor that
  \<open>accept\<close> returned is in the queue of a thread or has been closed, and nothing that was queued
  disappears.\<close>

theorem accept_loses_no_descriptor:
  assumes "queues_ok r" and "accept_passes K spur n sfd (r, w) = Some (r', w')"
  shows "\<exists>tr. trace w' = trace w @ tr \<and> queued r \<subseteq> queued r'
    \<and> (\<forall>a. SysAccept sfd (Inr a) \<in> set tr \<longrightarrow> int a \<in> queued r' \<or> SysClose (int a) \<in> set tr)"
  using accept_passes_fate [OF assms] by blast

theorem accept_loses_no_descriptor_witness:
  "\<exists>r' w'. accept_passes boot_kernel (\<lambda>_ _. False) 2 5 (demo_reactor, boot_world) = Some (r', w')
     \<and> {1, 2, 3} \<subseteq> queued r'"
proof -
  have q: "{1, 2, 3} \<subseteq> queued demo_reactor" by (auto simp: queued_def intro!: bexI [of _ 1])
  have "accept_passes boot_kernel (\<lambda>_ _. False) n 5 (r, w) \<noteq> None" if "queues_ok r" for n r w
    using that
  proof (induction n arbitrary: r w)
    case (Suc n)
    let ?f = "int (now w)"
    show ?case
    proof (cases "reactor_running r")
      case True
      have "reactor_add_connection (\<lambda>_. False) (Ptr r) ?f \<noteq> None"
        using True by (simp add: reactor_add_connection_def ring_queue_push_def Let_def
            push_loop_returns [of "\<lambda>_. False" 0 0, simplified] split: prod.splits)
      then obtain code p where add: "reactor_add_connection (\<lambda>_. False) (Ptr r) ?f = Some (code, p)" by auto
      obtain r1 where p: "p = Ptr r1" and ok: "queues_ok r1"
        by (rule add_connection_queues [OF Suc.prems True _ add]) auto
      show ?thesis using Suc.IH [OF ok] True add p by (simp add: sys_newfd_def)
    qed simp
  qed simp
  then obtain r' w' where "accept_passes boot_kernel (\<lambda>_ _. False) 2 5 (demo_reactor, boot_world) = Some (r', w')"
    using demo_reactor_queues by fastforce
  then show ?thesis using accept_loses_no_descriptor [OF demo_reactor_queues] q by blast
qed

text \<open>A descriptor that waits in a queue belongs to no connection and is no epoll instance.\<close>

lemma queued_not_held:
  assumes "sys_inv s" and "f \<in> queued (rct s)" and "i < nthreads (rct s)"
  shows "f \<noteq> epoll_fd (thr s i) \<and> f \<notin> conn_fds (thr s i) (wld s)"
proof -
  obtain j where j: "j < nthreads (rct s)" "f \<in> set (rq_contents (accept_queue (thr s j)))"
    using assms(2) by (auto simp: queued_def thr_def)
  have "good [] (thr s j) (wld s)" using assms(1) j(1) by (simp add: sys_inv_def)
  moreover have "f \<in> thread_fds [] (thr s j) (wld s)" using j(2) by (simp add: thread_fds_def waiting_fds_def)
  ultimately show ?thesis
    using j sys_inv_apart [OF assms(1,3) j(1)]
    by (cases "i = j") (auto simp: good_def inv_fds_def apart_def thread_fds_def waiting_fds_def)
qed

text \<open>C24: destroying a stopped reactor frees all its memory and closes the epoll instances and the
  connections, each once per owner; but the descriptors that still wait in the accept queues are
  never closed.\<close>

theorem destroy_frees_but_forgets_queued:
  assumes "sys_inv s" and "\<not> reactor_running (rct s)"
  shows "\<exists>w' tr. reactor_destroy J (Ptr (rct s)) (wld s) = Inr (0, w') \<and> trace w' = trace (wld s) @ tr
    \<and> (\<forall>a. heap w' a = None)
    \<and> (\<forall>i < nthreads (rct s). SysClose (epoll_fd (thr s i)) \<in> set tr
         \<and> (\<forall>f \<in> conn_fds (thr s i) (wld s). SysClose f \<in> set tr))
    \<and> (\<forall>f \<in> queued (rct s). SysClose f \<notin> set tr)"
proof -
  let ?n = "nthreads (rct s)"
  let ?ts = "take ?n (threads (rct s))"
  have len: "length ?ts = ?n" using assms(1) by (simp add: sys_inv_def)
  have nth: "?ts ! i = thr s i" if "i < ?n" for i using that by (simp add: thr_def)
  have set_ts: "set ?ts = thr s ` {..<?n}"
    using nth_image [of ?n "threads (rct s)"] assms(1)
    by (simp add: sys_inv_def thr_def [abs_def] atLeast0LessThan)
  have good: "good [] (thr s i) (wld s)" if "i < ?n" for i using assms(1) that by (simp add: sys_inv_def)
  have alive: "inj_on (connections (thr s i)) (slots (thr s i)) \<and> (\<forall>a \<in> owned (thr s i). heap (wld s) a \<noteq> None)"
    if "i < ?n" for i using good [OF that] by (auto simp: good_def inv_mem_def)
  have p1: "\<forall>t \<in> set ?ts. inj_on (connections t) (slots t) \<and> (\<forall>a \<in> owned t. heap (wld s) a \<noteq> None)"
    unfolding set_ts using alive by blast
  have p2: "\<forall>i < length ?ts. \<forall>j < length ?ts. i \<noteq> j \<longrightarrow> owned (?ts ! i) \<inter> owned (?ts ! j) = {}"
    unfolding len using nth sys_inv_apart [OF assms(1)] by (simp add: apart_def)
  obtain w1 tr where d: "destroy_threads ?ts (wld s) = Inr w1" "trace w1 = trace (wld s) @ tr"
    "heap w1 = (\<lambda>a. if \<exists>t \<in> set ?ts. a \<in> owned t then None else heap (wld s) a)"
    "\<forall>f. SysClose f \<in> set tr \<longleftrightarrow> (\<exists>t \<in> set ?ts. f = epoll_fd t \<or> f \<in> conn_fds t (wld s))"
    using destroy_threads_spec [OF p1 p2] by blast
  have run: "reactor_destroy J (Ptr (rct s)) (wld s) = Inr (0, emit SysFreeBlock w1)"
    using d(1) assms(2) by (simp add: reactor_destroy_def reactor_stop_def nthreads_def)
  have free: "heap w1 a = None" for a
  proof (cases "heap (wld s) a")
    case (Some c)
    then obtain i where "i < ?n" "a \<in> owned (thr s i)" using assms(1) unfolding sys_inv_def by blast
    then show ?thesis using d(3) set_ts by auto
  qed (simp add: d(3))
  have close: "SysClose f \<in> set tr \<longleftrightarrow> (\<exists>i < ?n. f = epoll_fd (thr s i) \<or> f \<in> conn_fds (thr s i) (wld s))" for f
    using d(4) unfolding set_ts by auto
  have "SysClose f \<notin> set tr" if "f \<in> queued (rct s)" for f
    using close queued_not_held [OF assms(1) that] by blast
  moreover have "SysClose f \<in> set (tr @ [SysFreeBlock]) \<longleftrightarrow> SysClose f \<in> set tr" for f by auto
  ultimately show ?thesis
    using run d(2) free close by (intro exI [of _ "emit SysFreeBlock w1"] exI [of _ "tr @ [SysFreeBlock]"]) auto
qed

text \<open>The reactor with two threads, as a state of the system.\<close>

definition demo_sys :: sys where
  "demo_sys = \<lparr>rct = demo_reactor\<lparr>reactor_running := False\<rparr>, wld = demo_world, pcs = \<lambda>_. Exited, main = Stopped\<rparr>"

lemma demo_sys_simps [simp]: "nthreads (rct demo_sys) = 2" "wld demo_sys = demo_world" "\<not> reactor_running (rct demo_sys)"
  "thr demo_sys 0 = new_thread 0 20" "thr demo_sys (Suc 0) = demo_thread" "queued (rct demo_sys) = {1, 2, 3}"
proof -
  have n: "nthreads (rct demo_sys) = 2" by (simp add: demo_sys_def demo_reactor_def nthreads_def)
  have "{..<2} = {0, 1 :: nat}" by auto
  then show "queued (rct demo_sys) = {1, 2, 3}"
    unfolding queued_def n by (simp add: demo_sys_def demo_reactor_def)
qed (simp_all add: demo_sys_def demo_reactor_def nthreads_def thr_def)

lemma demo_sys_inv [simp]: "sys_inv demo_sys"
proof -
  have new: "good [] (new_thread 0 20) demo_world"
    by (auto simp: good_def inv_mem_def inv_count_def inv_fds_def) (auto simp: demo_world_def split: if_splits)
  have ap: "apart (new_thread 0 20) demo_thread demo_world"
    by (simp add: apart_def thread_fds_def waiting_fds_def)
  have "length (threads (rct demo_sys)) = 2" by (simp add: demo_sys_def demo_reactor_def)
  moreover have "\<exists>i < 2. a \<in> owned (thr demo_sys i)" if "heap demo_world a \<noteq> None" for a
    using that by (intro exI [of _ 1]) (auto simp: demo_world_def split: if_splits)
  ultimately show ?thesis
    using new ap apart_sym [OF ap] by (auto simp: sys_inv_def less_2_cases_iff)
qed

theorem destroy_frees_but_forgets_queued_witness:
  "\<exists>w'. reactor_destroy (\<lambda>_. id) (Ptr (rct demo_sys)) demo_world = Inr (0, w') \<and> heap w' 0 = None
     \<and> SysClose 7 \<in> set (trace w') \<and> SysClose 2 \<notin> set (trace w')"
  using destroy_frees_but_forgets_queued [OF demo_sys_inv demo_sys_simps(3), of "\<lambda>_. id"]
  by (auto simp: less_2_cases_iff)

text \<open>C39: a failed \<open>reactor_create\<close> leaves nothing behind: when it returns \<open>NULL\<close>, every epoll instance
  that it opened is closed again.\<close>

theorem failed_create_closes:
  assumes "reactor_create K n w = (NULL, w')"
  shows "\<exists>tr. trace w' = trace w @ tr \<and> (\<forall>a. SysEpollCreate (Inr a) \<in> set tr \<longrightarrow> SysClose (int a) \<in> set tr)"
proof -
  consider "w' = w" | b where "sys_block K w = (b, w')"
    | w1 w2 where "sys_block K w = (True, w1)" "create_threads K [0..<nat n] (replicate 16 zero_thread) w1 = (None, w2)"
        "w' = emit SysFreeBlock w2" "n \<le> 16"
    using assms by (auto simp: reactor_create_def MAX_REACTOR_THREADS_def split: if_splits prod.splits bool.splits option.splits)
  then show ?thesis
  proof cases
    case 3
    obtain tr where tr: "trace w2 = trace w1 @ tr"
      "\<forall>a. SysEpollCreate (Inr a) \<in> set tr \<longrightarrow> SysClose (int a) \<in> set tr"
      using create_threads_undo [OF 3(2)] 3(4) unfolding length_replicate
      by (metis nat_le_iff of_nat_numeral)
    have "trace w1 = trace w @ [SysBlock True]" using 3(1) by (auto simp: sys_block_def)
    then show ?thesis
      using tr 3(3) by (intro exI [of _ "[SysBlock True] @ tr @ [SysFreeBlock]"]) auto
  qed (auto simp: sys_block_def)
qed

theorem failed_create_closes_witness:
  "\<exists>tr. trace (snd (reactor_create (boot_kernel\<lparr>k_newfd := \<lambda>n. if n = 1 then Inr 4 else Inl 24\<rparr>) 3 boot_world)) = tr
     \<and> SysEpollCreate (Inr 4) \<in> set tr \<and> SysClose 4 \<in> set tr"
proof -
  let ?K = "boot_kernel\<lparr>k_newfd := \<lambda>n. if n = 1 then Inr 4 else Inl 24\<rparr>"
  have three: "[0..<3] = [0, 1, 2 :: nat]" by (simp add: upt_rec)
  have eq: "reactor_create ?K 3 boot_world = (NULL, snd (reactor_create ?K 3 boot_world))"
    and opened: "SysEpollCreate (Inr 4) \<in> set (trace (snd (reactor_create ?K 3 boot_world)))"
    by (simp_all add: reactor_create_def MAX_REACTOR_THREADS_def sys_block_def sys_newfd_def three Let_def now_def boot_world_def close_all_trace)
  from failed_create_closes [OF eq] have "SysClose 4 \<in> set (trace (snd (reactor_create ?K 3 boot_world)))"
    using opened by (auto simp: boot_world_def)
  then show ?thesis using opened by blast
qed

text \<open>The listening socket: \<open>create_server_socket\<close> returns a descriptor that is bound to the port,
  listening and non-blocking, or -1 with the socket closed again.\<close>

theorem server_socket_or_closed:
  "\<exists>f w' tr. create_server_socket K port w = (f, w') \<and> trace w' = trace w @ tr
    \<and> (0 \<le> f \<and> (\<exists>flags. tr = socket_steps f port flags)
      \<or> f = -1 \<and> (\<forall>a. SysSocket (Inr a) \<in> set tr \<longrightarrow> SysClose (int a) \<in> set tr))"
proof (cases rule: create_server_socket_cases [of K port w])
  case (undone f tr w')
  let ?tr = "[SysSocket (Inr (nat f))] @ tr @ [SysClose f]"
  have "SysClose (int a) \<in> set ?tr" if "SysSocket (Inr a) \<in> set ?tr" for a
    using that undone(3,4) by auto
  then show ?thesis using undone(1,2) by blast
qed auto

theorem server_socket_or_closed_witness:
  "\<exists>f w'. create_server_socket boot_kernel 8080 boot_world = (f, w') \<and> (0 \<le> f \<or> f = -1)"
  using server_socket_or_closed [of boot_kernel 8080 boot_world] by blast

text \<open>The server does not start on a machine with more than 16 processors: it asks for one reactor
  thread per processor, \<open>reactor_create\<close> accepts at most 16, and \<open>main\<close> returns 1 before it opens
  anything.\<close>

theorem server_needs_few_cores:
  assumes "16 < cpu_cores"
  shows "server_main K J S cpu_cores w = Inr (1, w)"
  using assms by (simp add: server_main_def reactor_create_def MAX_REACTOR_THREADS_def Let_def)

theorem server_needs_few_cores_witness: "server_main boot_kernel (\<lambda>_. id) id 32 boot_world = Inr (1, boot_world)"
  using server_needs_few_cores [of 32 boot_kernel "\<lambda>_. id" id boot_world] by simp

end
