(* ===== verification/RingConc.thy ===== *)
theory RingConc
  imports RingProps
begin

text \<open>
  \<open>codes/network/reactor/ring_queue.c\<close> as it is used: one thread pushes while another one pops, with
  every load, compare-and-swap and buffer access a step of its own.

  \<^item> \<open>producer\<close> and \<open>consumer\<close> are the program counters of \<open>ring_queue_push\<close>, and of
    \<open>ring_queue_pop\<close> and \<open>ring_queue_pop_batch\<close>; the locals of the C functions are their arguments.
  \<^item> \<open>pushed\<close>, \<open>taken\<close> and \<open>log\<close> are history: the elements whose push claimed a slot, the number of
    slots that pops claimed, and for every slot a pop read its position, the value it got and how many
    elements had been written into the ring by then.
  \<^item> A weak swap may fail for no reason, so \<open>push_retry\<close>, \<open>pop_retry\<close> and \<open>batch_retry\<close> are always
    enabled; the steps are sequentially consistent, as the default order of the C11 atomics is.
\<close>

section \<open>Steps\<close>

datatype producer = PIdle | PStart int | PTail int u32 | PCas int u32 | PWrite int u32 | PCount

datatype consumer = CIdle | CHead u32 | CRead u32 | CCas u32 int nat | CCount
  | BStart u32 | BHead u32 u32 | BCas u32 u32 | BCopy u32 u32 | BCount u32

record ring_run =
  ring :: ring_queue
  prod :: producer
  cons :: consumer
  pushed :: "int list"
  taken :: nat
  log :: "(nat \<times> int \<times> nat) list"

text \<open>How many elements the producer has written: one less than claimed while it is at its write.\<close>

definition written_by :: "producer \<Rightarrow> int list \<Rightarrow> nat" where
  "written_by p xs = length xs - (case p of PWrite x t \<Rightarrow> 1 | _ \<Rightarrow> 0)"

definition entries :: "nat \<Rightarrow> int list \<Rightarrow> nat \<Rightarrow> (nat \<times> int \<times> nat) list" where
  "entries k vs W = map (\<lambda>i. (k + i, vs ! i, W)) [0..<length vs]"

inductive ring_step :: "ring_run \<Rightarrow> ring_run \<Rightarrow> bool" where
  push_call: "prod s = PIdle \<Longrightarrow> ring_step s (s\<lparr>prod := PStart x\<rparr>)"
| push_tail: "prod s = PStart x \<Longrightarrow> ring_step s (s\<lparr>prod := PTail x (tail (ring s))\<rparr>)"
| push_full: "prod s = PTail x t \<Longrightarrow> RING_QUEUE_SIZE \<le> t - head (ring s) \<Longrightarrow>
    ring_step s (s\<lparr>ring := (ring s)\<lparr>push_fail_count := push_fail_count (ring s) + 1\<rparr>, prod := PIdle\<rparr>)"
| push_room: "prod s = PTail x t \<Longrightarrow> \<not> RING_QUEUE_SIZE \<le> t - head (ring s) \<Longrightarrow>
    ring_step s (s\<lparr>prod := PCas x t\<rparr>)"
| push_swap: "prod s = PCas x t \<Longrightarrow> tail (ring s) = t \<Longrightarrow>
    ring_step s (s\<lparr>ring := (ring s)\<lparr>tail := t + 1\<rparr>, prod := PWrite x t, pushed := pushed s @ [x]\<rparr>)"
| push_retry: "prod s = PCas x t \<Longrightarrow> ring_step s (s\<lparr>prod := PStart x\<rparr>)"
| push_write: "prod s = PWrite x t \<Longrightarrow>
    ring_step s (s\<lparr>ring := (ring s)\<lparr>buffer := (buffer (ring s))[cell t := x]\<rparr>, prod := PCount\<rparr>)"
| push_count: "prod s = PCount \<Longrightarrow>
    ring_step s (s\<lparr>ring := (ring s)\<lparr>push_count := push_count (ring s) + 1\<rparr>, prod := PIdle\<rparr>)"
| pop_head: "cons s = CIdle \<Longrightarrow> ring_step s (s\<lparr>cons := CHead (head (ring s))\<rparr>)"
| pop_empty: "cons s = CHead h \<Longrightarrow> h = tail (ring s) \<Longrightarrow> ring_step s (s\<lparr>cons := CIdle\<rparr>)"
| pop_some: "cons s = CHead h \<Longrightarrow> h \<noteq> tail (ring s) \<Longrightarrow> ring_step s (s\<lparr>cons := CRead h\<rparr>)"
| pop_read: "cons s = CRead h \<Longrightarrow>
    ring_step s (s\<lparr>cons := CCas h (buffer (ring s) ! cell h) (written_by (prod s) (pushed s))\<rparr>)"
| pop_swap: "cons s = CCas h v W \<Longrightarrow> head (ring s) = h \<Longrightarrow>
    ring_step s (s\<lparr>ring := (ring s)\<lparr>head := h + 1\<rparr>, cons := CCount,
      taken := Suc (taken s), log := log s @ entries (taken s) [v] W\<rparr>)"
| pop_retry: "cons s = CCas h v W \<Longrightarrow> ring_step s (s\<lparr>cons := CIdle\<rparr>)"
| pop_count: "cons s = CCount \<Longrightarrow>
    ring_step s (s\<lparr>ring := (ring s)\<lparr>pop_count := pop_count (ring s) + 1\<rparr>, cons := CIdle\<rparr>)"
| batch_call: "cons s = CIdle \<Longrightarrow> 0 < n \<Longrightarrow> ring_step s (s\<lparr>cons := BStart n\<rparr>)"
| batch_head: "cons s = BStart n \<Longrightarrow> ring_step s (s\<lparr>cons := BHead n (head (ring s))\<rparr>)"
| batch_empty: "cons s = BHead n h \<Longrightarrow> tail (ring s) - h = 0 \<Longrightarrow> ring_step s (s\<lparr>cons := CIdle\<rparr>)"
| batch_some: "cons s = BHead n h \<Longrightarrow> tail (ring s) - h \<noteq> 0 \<Longrightarrow>
    ring_step s (s\<lparr>cons := BCas (if n < tail (ring s) - h then n else tail (ring s) - h) h\<rparr>)"
| batch_swap: "cons s = BCas n h \<Longrightarrow> head (ring s) = h \<Longrightarrow>
    ring_step s (s\<lparr>ring := (ring s)\<lparr>head := h + n\<rparr>, cons := BCopy n h, taken := taken s + unat n\<rparr>)"
| batch_retry: "cons s = BCas n h \<Longrightarrow> ring_step s (s\<lparr>cons := CIdle\<rparr>)"
| batch_copy: "cons s = BCopy n h \<Longrightarrow>
    ring_step s (s\<lparr>cons := BCount n, log := log s @ entries (taken s - unat n)
      (window 65536 (buffer (ring s)) (unat h) (unat n)) (written_by (prod s) (pushed s))\<rparr>)"
| batch_count: "cons s = BCount n \<Longrightarrow>
    ring_step s (s\<lparr>ring := (ring s)\<lparr>pop_count := pop_count (ring s) + ucast n\<rparr>, cons := CIdle\<rparr>)"

definition ring_start :: ring_run where
  "ring_start = \<lparr>ring = \<lparr>head = 0, tail = 0, buffer = replicate 65536 0, push_count = 0, pop_count = 0,
     push_fail_count = 0\<rparr>, prod = PIdle, cons = CIdle, pushed = [], taken = 0, log = []\<rparr>"

definition ring_reachable :: "ring_run \<Rightarrow> bool" where
  "ring_reachable s = ring_step\<^sup>*\<^sup>* ring_start s"

section \<open>The invariant\<close>

text \<open>The counters are the lengths of the history, never more than the ring apart, and a cell holds
  the element of the last position that was written there.\<close>

definition prod_ok :: "ring_run \<Rightarrow> bool" where
  "prod_ok s = (case prod s of
     PTail x t \<Rightarrow> t = tail (ring s)
   | PCas x t \<Rightarrow> t = tail (ring s) \<and> length (pushed s) < taken s + 65536
   | PWrite x t \<Rightarrow> t + 1 = tail (ring s) \<and> pushed s \<noteq> [] \<and> last (pushed s) = x
   | _ \<Rightarrow> True)"

definition cons_ok :: "ring_run \<Rightarrow> bool" where
  "cons_ok s = (case cons s of
     CHead h \<Rightarrow> h = head (ring s)
   | CRead h \<Rightarrow> h = head (ring s) \<and> taken s < length (pushed s)
   | CCas h v W \<Rightarrow> h = head (ring s) \<and> taken s < length (pushed s) \<and> W \<le> length (pushed s) \<and> taken s \<le> W
       \<and> (taken s < W \<longrightarrow> v = pushed s ! taken s)
   | BHead n h \<Rightarrow> h = head (ring s)
   | BCas n h \<Rightarrow> h = head (ring s) \<and> taken s + unat n \<le> length (pushed s)
   | BCopy n h \<Rightarrow> h + n = head (ring s) \<and> unat n \<le> taken s
   | _ \<Rightarrow> True)"

text \<open>An entry of the log: the position was claimed, and when it was written and not yet overwritten at
  the time of the read, the value is the element that was pushed there.\<close>

definition entry_ok :: "int list \<Rightarrow> nat \<times> int \<times> nat \<Rightarrow> bool" where
  "entry_ok xs e = (case e of (k, v, W) \<Rightarrow> k \<le> W \<and> W \<le> length xs \<and> k < length xs
     \<and> (k < W \<and> W \<le> k + 65536 \<longrightarrow> v = xs ! k))"

definition log_ok :: "ring_run \<Rightarrow> bool" where
  "log_ok s \<longleftrightarrow> map fst (log s) = [0..<(case cons s of BCopy n h \<Rightarrow> taken s - unat n | _ \<Rightarrow> taken s)]
     \<and> (\<forall>e \<in> set (log s). entry_ok (pushed s) e)"

definition ring_inv :: "ring_run \<Rightarrow> bool" where
  "ring_inv s \<longleftrightarrow> length (buffer (ring s)) = 65536
     \<and> head (ring s) = of_nat (taken s) \<and> tail (ring s) = of_nat (length (pushed s))
     \<and> taken s \<le> length (pushed s) \<and> length (pushed s) \<le> taken s + 65536
     \<and> (\<forall>k. k < written_by (prod s) (pushed s) \<and> written_by (prod s) (pushed s) \<le> k + 65536 \<longrightarrow>
          buffer (ring s) ! (k mod 65536) = pushed s ! k)
     \<and> prod_ok s \<and> cons_ok s \<and> log_ok s"

lemma cell_of_nat: "cell (of_nat k) = k mod 65536"
  by (simp add: cell_mod unat_of_nat mod_mod_cancel)

lemma word_diff: "k \<le> n \<Longrightarrow> n \<le> k + 65536 \<Longrightarrow> unat (of_nat n - of_nat k :: u32) = n - k"
proof -
  assume "k \<le> n" "n \<le> k + 65536"
  then have "of_nat n - of_nat k = (of_nat (n - k) :: u32)" and "n - k < 2 ^ 32" by (simp_all add: of_nat_diff)
  then show ?thesis by (simp only: unat_of_nat_u32)
qed

lemma window_of_nat: "window 65536 b (unat (of_nat k :: u32)) n = window 65536 b k n"
proof -
  have "unat (of_nat k :: u32) mod 65536 = k mod 65536" using cell_of_nat [of k] by (simp add: cell_mod)
  then show ?thesis by (metis window_mod)
qed

lemma written_le: "written_by p xs \<le> length xs" "length xs \<le> Suc (written_by p xs)"
  by (auto simp: written_by_def split: producer.splits)

lemma set_entries: "(k', v, W') \<in> set (entries k vs W) \<longleftrightarrow> W' = W \<and> (\<exists>i < length vs. k' = k + i \<and> v = vs ! i)"
  by (auto simp: entries_def)

lemma fst_entries: "map fst (entries k vs W) = [k..<k + length vs]"
  by (rule nth_equalityI) (simp_all add: entries_def)

lemma ring_start_inv: "ring_inv ring_start"
  by (simp add: ring_inv_def ring_start_def prod_ok_def cons_ok_def log_ok_def written_by_def)

text \<open>Parts of the state that the three local conditions do not look at.\<close>

lemma ok_simps [simp]:
  "cons_ok (s\<lparr>prod := p\<rparr>) = cons_ok s" "log_ok (s\<lparr>prod := p\<rparr>) = log_ok s" "prod_ok (s\<lparr>cons := c\<rparr>) = prod_ok s"
  "cons_ok (s\<lparr>ring := (ring s)\<lparr>push_fail_count := n\<rparr>\<rparr>) = cons_ok s"
  "log_ok (s\<lparr>ring := (ring s)\<lparr>push_fail_count := n\<rparr>\<rparr>) = log_ok s"
  "cons_ok (s\<lparr>ring := (ring s)\<lparr>push_count := n\<rparr>\<rparr>) = cons_ok s"
  "log_ok (s\<lparr>ring := (ring s)\<lparr>push_count := n\<rparr>\<rparr>) = log_ok s"
  "prod_ok (s\<lparr>ring := (ring s)\<lparr>pop_count := n\<rparr>\<rparr>) = prod_ok s"
  by (auto simp: cons_ok_def log_ok_def prod_ok_def split: consumer.splits producer.splits)

text \<open>The log does not depend on the ring, and survives a longer history.\<close>

lemma entry_ok_append: "entry_ok xs e \<Longrightarrow> entry_ok (xs @ ys) e"
  by (auto simp: entry_ok_def nth_append split: prod.splits)

lemma log_ok_mono:
  assumes "log_ok s" and "log s' = log s" and "cons s' = cons s" and "taken s' = taken s" and "pushed s' = pushed s @ ys"
  shows "log_ok s'"
  using assms(1) entry_ok_append unfolding log_ok_def assms(2-5) by simp

lemma cons_ok_mono:
  assumes "cons_ok s" and "cons s' = cons s" and "head (ring s') = head (ring s)" and "taken s' = taken s"
    and "pushed s' = pushed s @ ys"
  shows "cons_ok s'"
  using assms by (auto simp: cons_ok_def nth_append split: consumer.splits)

text \<open>The swap of a push: room for one more was left, and is still left.\<close>

lemma swap_inv:
  assumes inv: "ring_inv s" and pc: "prod s = PCas x t"
  shows "ring_inv (s\<lparr>ring := (ring s)\<lparr>tail := t + 1\<rparr>, prod := PWrite x t, pushed := pushed s @ [x]\<rparr>)"
proof -
  let ?s = "s\<lparr>ring := (ring s)\<lparr>tail := t + 1\<rparr>, prod := PWrite x t, pushed := pushed s @ [x]\<rparr>"
  have w: "written_by (prod ?s) (pushed ?s) = length (pushed s)" "written_by (prod s) (pushed s) = length (pushed s)"
    using pc by (simp_all add: written_by_def)
  have "log_ok ?s" using inv by (intro log_ok_mono [of s ?s "[x]"]) (simp_all add: ring_inv_def)
  moreover have "cons_ok ?s" using inv by (intro cons_ok_mono [of s ?s "[x]"]) (simp_all add: ring_inv_def)
  moreover have "buffer (ring ?s) ! (k mod 65536) = pushed ?s ! k"
    if "k < length (pushed s)" "length (pushed s) \<le> k + 65536" for k
    using inv that w(2) by (auto simp: ring_inv_def nth_append)
  ultimately show ?thesis
    using inv pc unfolding ring_inv_def w by (auto simp: prod_ok_def add.commute)
qed

text \<open>The write of a push: the claimed position becomes visible.\<close>

lemma write_inv:
  assumes inv: "ring_inv s" and pc: "prod s = PWrite x t"
  shows "ring_inv (s\<lparr>ring := (ring s)\<lparr>buffer := (buffer (ring s))[cell t := x]\<rparr>, prod := PCount\<rparr>)"
proof -
  let ?s = "s\<lparr>ring := (ring s)\<lparr>buffer := (buffer (ring s))[cell t := x]\<rparr>, prod := PCount\<rparr>"
  let ?n = "length (pushed s)"
  have p: "t + 1 = of_nat ?n" "pushed s \<noteq> []" "last (pushed s) = x" and len: "length (buffer (ring s)) = 65536"
    using inv pc by (auto simp: ring_inv_def prod_ok_def)
  then have n: "0 < ?n" "pushed s ! (?n - 1) = x" by (auto simp: last_conv_nth)
  obtain m where m: "?n = Suc m" using n(1) gr0_implies_Suc by blast
  have "t = of_nat (?n - 1)" using p(1) unfolding m by simp
  then have cell: "cell t = (?n - 1) mod 65536" by (simp only: cell_of_nat)
  have w: "written_by (prod s) (pushed s) = ?n - 1" "written_by (prod ?s) (pushed ?s) = ?n"
    using pc by (simp_all add: written_by_def)
  have "buffer (ring ?s) ! (k mod 65536) = pushed s ! k" if k: "k < ?n" "?n \<le> k + 65536" for k
  proof (cases "k = ?n - 1")
    case True
    then show ?thesis using n len cell by simp
  next
    case False
    have "k mod 65536 \<noteq> (?n - 1) mod 65536"
    proof
      assume "k mod 65536 = (?n - 1) mod 65536"
      then have "k = ?n - 1"
        using mod_shift_inj [of k "?n - 1" 65536 0] k False by simp
      then show False using False by simp
    qed
    then have "buffer (ring ?s) ! (k mod 65536) = buffer (ring s) ! (k mod 65536)" using cell by simp
    also have "\<dots> = pushed s ! k"
    proof -
      have "k < ?n - 1" "?n - 1 \<le> k + 65536" using k False by auto
      then show ?thesis using inv unfolding ring_inv_def w(1) by blast
    qed
    finally show ?thesis .
  qed
  moreover have "log_ok ?s" using inv by (intro log_ok_mono [of s ?s "[]"]) (simp_all add: ring_inv_def)
  moreover have "cons_ok ?s" using inv by (intro cons_ok_mono [of s ?s "[]"]) (simp_all add: ring_inv_def)
  ultimately show ?thesis
    using inv len unfolding ring_inv_def w by (simp add: prod_ok_def)
qed

text \<open>The claims of the pops.\<close>

lemma pop_swap_inv:
  assumes inv: "ring_inv s" and pc: "cons s = CCas h v W"
  shows "ring_inv (s\<lparr>ring := (ring s)\<lparr>head := h + 1\<rparr>, cons := CCount,
      taken := Suc (taken s), log := log s @ entries (taken s) [v] W\<rparr>)"
proof -
  let ?s = "s\<lparr>ring := (ring s)\<lparr>head := h + 1\<rparr>, cons := CCount, taken := Suc (taken s),
      log := log s @ entries (taken s) [v] W\<rparr>"
  have "log_ok ?s"
    using inv pc by (auto simp: ring_inv_def log_ok_def entry_ok_def cons_ok_def fst_entries set_entries)
  moreover have "prod_ok ?s" using inv pc by (auto simp: ring_inv_def prod_ok_def split: producer.splits)
  ultimately show ?thesis
    using inv pc by (auto simp: ring_inv_def cons_ok_def add.commute)
qed

lemma batch_swap_inv:
  assumes inv: "ring_inv s" and pc: "cons s = BCas n h"
  shows "ring_inv (s\<lparr>ring := (ring s)\<lparr>head := h + n\<rparr>, cons := BCopy n h, taken := taken s + unat n\<rparr>)"
proof -
  let ?s = "s\<lparr>ring := (ring s)\<lparr>head := h + n\<rparr>, cons := BCopy n h, taken := taken s + unat n\<rparr>"
  have "log_ok ?s" using inv pc by (auto simp: ring_inv_def log_ok_def)
  moreover have "prod_ok ?s" using inv pc by (auto simp: ring_inv_def prod_ok_def split: producer.splits)
  ultimately show ?thesis
    using inv pc by (auto simp: ring_inv_def cons_ok_def)
qed

lemma batch_copy_inv:
  assumes inv: "ring_inv s" and pc: "cons s = BCopy n h"
  shows "ring_inv (s\<lparr>cons := BCount n, log := log s @ entries (taken s - unat n)
      (window 65536 (buffer (ring s)) (unat h) (unat n)) (written_by (prod s) (pushed s))\<rparr>)"
proof -
  let ?W = "written_by (prod s) (pushed s)"
  let ?k = "taken s - unat n"
  have n: "unat n \<le> taken s" "h + n = of_nat (taken s)" and le: "taken s \<le> length (pushed s)"
    using inv pc by (auto simp: ring_inv_def cons_ok_def)
  have "h = of_nat (taken s) - n" using n(2) by (simp add: eq_diff_eq)
  also have "\<dots> = of_nat ?k" using n(1) by (simp add: of_nat_diff)
  finally have h: "h = of_nat ?k" .
  have v: "window 65536 (buffer (ring s)) (unat h) (unat n) ! i = pushed s ! (?k + i)"
    if "i < unat n" "?k + i < ?W" "?W \<le> ?k + i + 65536" for i
    using inv that unfolding h window_of_nat by (simp add: ring_inv_def)
  have upt: "[0..<?k] @ [?k..<taken s] = [0..<taken s]"
    using upt_add_eq_append [of 0 ?k "taken s - ?k"] by simp
  have "log_ok (s\<lparr>cons := BCount n, log := log s @ entries ?k
      (window 65536 (buffer (ring s)) (unat h) (unat n)) ?W\<rparr>)"
    using inv pc n le v upt written_le [where p = "prod s" and xs = "pushed s"]
    by (auto simp: ring_inv_def log_ok_def entry_ok_def fst_entries set_entries)
  then show ?thesis
    using inv by (simp add: ring_inv_def) (simp add: cons_ok_def prod_ok_def split: producer.splits)
qed

text \<open>Every step keeps the invariant.\<close>

lemma push_room_inv:
  assumes inv: "ring_inv s" and pc: "prod s = PTail x t" and room: "\<not> RING_QUEUE_SIZE \<le> t - head (ring s)"
  shows "ring_inv (s\<lparr>prod := PCas x t\<rparr>)"
proof -
  have t: "t = of_nat (length (pushed s))" using inv pc by (simp add: ring_inv_def prod_ok_def)
  have "unat (t - head (ring s)) < 65536"
    using room by (simp add: RING_QUEUE_SIZE_def not_le word_less_nat_alt)
  then have "length (pushed s) < taken s + 65536"
    using inv word_diff [of "taken s" "length (pushed s)"] t by (simp add: ring_inv_def)
  then show ?thesis
    using inv pc by (simp add: ring_inv_def written_by_def) (simp add: prod_ok_def)
qed

lemma batch_some_inv:
  assumes inv: "ring_inv s" and pc: "cons s = BHead n h"
  shows "ring_inv (s\<lparr>cons := BCas (if n < tail (ring s) - h then n else tail (ring s) - h) h\<rparr>)"
proof -
  let ?n = "if n < tail (ring s) - h then n else tail (ring s) - h"
  have h: "h = head (ring s)" using inv pc by (simp add: ring_inv_def cons_ok_def)
  have "unat (tail (ring s) - h) = length (pushed s) - taken s"
    using inv word_diff [of "taken s" "length (pushed s)"] h by (simp add: ring_inv_def)
  moreover have "unat ?n \<le> unat (tail (ring s) - h)" by (simp only: unat_if_less)
  moreover have "taken s \<le> length (pushed s)" using inv by (simp add: ring_inv_def)
  ultimately have "taken s + unat ?n \<le> length (pushed s)" by linarith
  then show ?thesis
    using inv pc h by (simp add: ring_inv_def cons_ok_def log_ok_def)
qed

lemma some_inv:
  assumes inv: "ring_inv s" and pc: "cons s = CHead h" and some: "h \<noteq> tail (ring s)"
  shows "ring_inv (s\<lparr>cons := CRead h\<rparr>)"
proof -
  have "taken s \<noteq> length (pushed s)" using inv pc some by (auto simp: ring_inv_def cons_ok_def)
  then show ?thesis using inv pc by (auto simp: ring_inv_def cons_ok_def log_ok_def)
qed

lemma read_inv:
  assumes inv: "ring_inv s" and pc: "cons s = CRead h"
  shows "ring_inv (s\<lparr>cons := CCas h (buffer (ring s) ! cell h) (written_by (prod s) (pushed s))\<rparr>)"
proof -
  let ?W = "written_by (prod s) (pushed s)"
  have h: "h = of_nat (taken s)" and lt: "taken s < length (pushed s)" "length (pushed s) \<le> taken s + 65536"
    using inv pc by (auto simp: ring_inv_def cons_ok_def)
  note W = written_le [where p = "prod s" and xs = "pushed s"]
  have "taken s < ?W \<longrightarrow> buffer (ring s) ! cell h = pushed s ! taken s"
    using inv lt W unfolding h cell_of_nat ring_inv_def by auto
  then show ?thesis
    using inv pc lt W by (simp add: ring_inv_def cons_ok_def log_ok_def)
qed

lemma other_push_steps:
  assumes "ring_inv s"
  shows "prod s = PIdle \<Longrightarrow> ring_inv (s\<lparr>prod := PStart x\<rparr>)"
    and "prod s = PStart x \<Longrightarrow> ring_inv (s\<lparr>prod := PTail x (tail (ring s))\<rparr>)"
    and "prod s = PTail x t \<Longrightarrow> ring_inv (s\<lparr>ring := (ring s)\<lparr>push_fail_count := n\<rparr>, prod := PIdle\<rparr>)"
    and "prod s = PCas x t \<Longrightarrow> ring_inv (s\<lparr>prod := PStart x\<rparr>)"
    and "prod s = PCount \<Longrightarrow> ring_inv (s\<lparr>ring := (ring s)\<lparr>push_count := n\<rparr>, prod := PIdle\<rparr>)"
  using assms by (simp_all add: ring_inv_def written_by_def) (simp_all add: prod_ok_def)

lemma other_pop_steps:
  assumes "ring_inv s"
  shows "cons s = CIdle \<Longrightarrow> ring_inv (s\<lparr>cons := CHead (head (ring s))\<rparr>)"
    and "cons s = CHead h \<Longrightarrow> ring_inv (s\<lparr>cons := CIdle\<rparr>)"
    and "cons s = CCas h v W \<Longrightarrow> ring_inv (s\<lparr>cons := CIdle\<rparr>)"
    and "cons s = CCount \<Longrightarrow> ring_inv (s\<lparr>ring := (ring s)\<lparr>pop_count := m\<rparr>, cons := CIdle\<rparr>)"
    and "cons s = CIdle \<Longrightarrow> ring_inv (s\<lparr>cons := BStart n\<rparr>)"
    and "cons s = BStart n \<Longrightarrow> ring_inv (s\<lparr>cons := BHead n (head (ring s))\<rparr>)"
    and "cons s = BHead n h \<Longrightarrow> ring_inv (s\<lparr>cons := CIdle\<rparr>)"
    and "cons s = BCas n h \<Longrightarrow> ring_inv (s\<lparr>cons := CIdle\<rparr>)"
    and "cons s = BCount n \<Longrightarrow> ring_inv (s\<lparr>ring := (ring s)\<lparr>pop_count := m\<rparr>, cons := CIdle\<rparr>)"
  using assms by (simp_all add: ring_inv_def) (simp_all add: cons_ok_def log_ok_def)

lemma ring_step_inv: "ring_step s s' \<Longrightarrow> ring_inv s \<Longrightarrow> ring_inv s'"
  by (induction rule: ring_step.induct)
    (blast intro: swap_inv write_inv push_room_inv pop_swap_inv some_inv read_inv batch_some_inv batch_swap_inv
      batch_copy_inv other_push_steps other_pop_steps)+

lemma ring_reachable_inv:
  assumes "ring_reachable s"
  shows "ring_inv s"
  using assms unfolding ring_reachable_def
  by (induction rule: rtranclp_induct) (auto intro: ring_step_inv ring_start_inv)

section \<open>A push alone is the sequential push\<close>

lemma steps_reachable: "ring_reachable s \<Longrightarrow> ring_step\<^sup>*\<^sup>* s s' \<Longrightarrow> ring_reachable s'"
  unfolding ring_reachable_def by (rule rtranclp_trans)

lemma solo_push:
  assumes "prod s = PIdle"
  shows "ring_step\<^sup>*\<^sup>* s (s\<lparr>ring := snd (push_result (ring s) x),
    pushed := (if rq_len (ring s) < 65536 then pushed s @ [x] else pushed s)\<rparr>)"
proof -
  let ?t = "tail (ring s)"
  let ?s1 = "s\<lparr>prod := PStart x\<rparr>"
  let ?s2 = "?s1\<lparr>prod := PTail x ?t\<rparr>"
  have one: "ring_step s ?s1" using assms by (rule ring_step.push_call)
  have two: "ring_step ?s1 ?s2" using ring_step.push_tail [of ?s1 x] by simp
  have idle: "t\<lparr>prod := PIdle\<rparr> = t" if "prod t = PIdle" for t using that by simp
  show ?thesis
  proof (cases "rq_len (ring s) < 65536")
    case False
    let ?s3 = "?s2\<lparr>ring := (ring s)\<lparr>push_fail_count := push_fail_count (ring s) + 1\<rparr>, prod := PIdle\<rparr>"
    have "ring_step ?s2 ?s3"
      using ring_step.push_full [of ?s2 x ?t] False not_full_iff [of "ring s"] by simp
    with one two have "ring_step\<^sup>*\<^sup>* s ?s3" by (meson converse_rtranclp_into_rtranclp rtranclp.rtrancl_refl)
    moreover have "?s3 = s\<lparr>ring := snd (push_result (ring s) x), pushed := pushed s\<rparr>"
      using False assms by (cases s) (simp add: push_result_def)
    ultimately show ?thesis using False by simp
  next
    case True
    let ?s3 = "?s2\<lparr>prod := PCas x ?t\<rparr>"
    let ?s4 = "?s3\<lparr>ring := (ring s)\<lparr>tail := ?t + 1\<rparr>, prod := PWrite x ?t, pushed := pushed s @ [x]\<rparr>"
    let ?s5 = "?s4\<lparr>ring := (ring s)\<lparr>tail := ?t + 1, buffer := (buffer (ring s))[cell ?t := x]\<rparr>, prod := PCount\<rparr>"
    let ?s6 = "?s5\<lparr>ring := snd (push_result (ring s) x), prod := PIdle\<rparr>"
    have three: "ring_step ?s2 ?s3"
      using ring_step.push_room [of ?s2 x ?t] True not_full_iff [of "ring s"] by simp
    have four: "ring_step ?s3 ?s4" using ring_step.push_swap [of ?s3 x ?t] by simp
    have five: "ring_step ?s4 ?s5" using ring_step.push_write [of ?s4 x ?t] by simp
    have "ring_step ?s5 ?s6" using ring_step.push_count [of ?s5] True by (simp add: push_result_def)
    with one two three four five have "ring_step\<^sup>*\<^sup>* s ?s6"
      by (meson converse_rtranclp_into_rtranclp rtranclp.rtrancl_refl)
    moreover have "?s6 = s\<lparr>ring := snd (push_result (ring s) x), pushed := pushed s @ [x]\<rparr>"
      using assms by (cases s) simp
    ultimately show ?thesis using True by simp
  qed
qed

lemma rq_len_inv: "ring_inv s \<Longrightarrow> rq_len (ring s) = length (pushed s) - taken s"
  using word_diff [of "taken s" "length (pushed s)"] by (simp add: ring_inv_def rq_len_def)

text \<open>Pushing on and on while a batch pop sleeps between its swap and its copy.\<close>

lemma push_many:
  assumes "ring_reachable s" and "prod s = PIdle" and "m + length (pushed s) \<le> taken s + 65536"
  shows "\<exists>s'. ring_reachable s' \<and> prod s' = PIdle \<and> cons s' = cons s \<and> taken s' = taken s \<and> log s' = log s
    \<and> pushed s' = pushed s @ replicate m x"
  using assms(3)
proof (induction m)
  case 0
  then show ?case using assms by (intro exI [of _ s]) simp
next
  case (Suc m)
  then obtain s1 where s1: "ring_reachable s1" "prod s1 = PIdle" "cons s1 = cons s" "taken s1 = taken s" "log s1 = log s"
    "pushed s1 = pushed s @ replicate m x" by auto
  have "rq_len (ring s1) = length (pushed s1) - taken s1" by (rule rq_len_inv [OF ring_reachable_inv [OF s1(1)]])
  moreover have "length (pushed s1) < taken s1 + 65536" using Suc.prems s1(4,6) by simp
  ultimately have "rq_len (ring s1) < 65536" by simp
  then have "ring_reachable (s1\<lparr>ring := snd (push_result (ring s1) x), pushed := pushed s1 @ [x]\<rparr>)"
    using steps_reachable [OF s1(1) solo_push [OF s1(2), of x]] by simp
  then show ?case
    using s1 by (intro exI [of _ "s1\<lparr>ring := snd (push_result (ring s1) x), pushed := pushed s1 @ [x]\<rparr>"])
      (simp add: replicate_append_same)
qed

section \<open>Properties\<close>

text \<open>C15: what a consumer gets while a producer runs beside it. In every interleaving the pops deliver
  the positions 0, 1, 2, ... without gap or repetition, at most 65536 elements are in the ring, and the
  value delivered for a position is the element pushed there provided that at the time of the read the
  producer had written it and had not yet gone once around the ring.\<close>

theorem spsc_delivery:
  assumes "ring_reachable s"
  shows "map fst (log s) = [0..<length (log s)] \<and> taken s \<le> length (pushed s) \<and> length (pushed s) \<le> taken s + 65536
    \<and> (\<forall>k v W. (k, v, W) \<in> set (log s) \<and> k < W \<and> W \<le> k + 65536 \<longrightarrow> v = pushed s ! k)"
proof -
  have inv: "ring_inv s" by (rule ring_reachable_inv [OF assms])
  then obtain n where n: "map fst (log s) = [0..<n]" by (auto simp: ring_inv_def log_ok_def)
  then have "length (log s) = n" by (metis length_map length_upt diff_zero)
  then show ?thesis using inv n by (auto simp: ring_inv_def log_ok_def entry_ok_def)
qed

theorem spsc_delivery_witness:
  "\<exists>s. ring_reachable s \<and> pushed s = replicate 3 5 \<and> length (pushed s) \<le> taken s + 65536"
proof -
  have "ring_reachable ring_start" "prod ring_start = PIdle" "3 + length (pushed ring_start) \<le> taken ring_start + 65536"
    "pushed ring_start = []"
    by (simp_all add: ring_reachable_def ring_start_def)
  then obtain s where s: "ring_reachable s" "pushed s = replicate 3 5" using push_many [of ring_start 3 5] by auto
  then show ?thesis using spsc_delivery [OF s(1)] by blast
qed

text \<open>C16: a pop can deliver a slot before it is written. The push publishes the new tail with its swap
  and stores the element only afterwards, so a pop in between returns what the slot held before: after
  initialisation the descriptor 0, although 7 was pushed.\<close>

theorem pop_before_write:
  "\<exists>s. ring_reachable s \<and> pushed s = [7] \<and> log s = [(0, 0, 0)]"
proof -
  let ?s0 = ring_start
  let ?s1 = "?s0\<lparr>prod := PStart 7\<rparr>"
  let ?s2 = "?s1\<lparr>prod := PTail 7 0\<rparr>"
  let ?s3 = "?s2\<lparr>prod := PCas 7 0\<rparr>"
  let ?s4 = "?s3\<lparr>ring := (ring ?s3)\<lparr>tail := 0 + 1\<rparr>, prod := PWrite 7 0, pushed := [7]\<rparr>"
  let ?s5 = "?s4\<lparr>cons := CHead 0\<rparr>"
  let ?s6 = "?s5\<lparr>cons := CRead 0\<rparr>"
  let ?s7 = "?s6\<lparr>cons := CCas 0 (buffer (ring ?s6) ! cell 0) (written_by (prod ?s6) (pushed ?s6))\<rparr>"
  let ?s8 = "?s7\<lparr>ring := (ring ?s7)\<lparr>head := 0 + 1\<rparr>, cons := CCount, taken := Suc (taken ?s7),
    log := log ?s7 @ entries (taken ?s7) [buffer (ring ?s6) ! cell 0] (written_by (prod ?s6) (pushed ?s6))\<rparr>"
  note d = ring_start_def RING_QUEUE_SIZE_def
  have "ring_step ?s0 ?s1" by (rule ring_step.push_call) (simp add: d)
  moreover have "ring_step ?s1 ?s2" using ring_step.push_tail [of ?s1 7] by (simp add: d)
  moreover have "ring_step ?s2 ?s3" by (rule ring_step.push_room) (simp_all add: d)
  moreover have "ring_step ?s3 ?s4" using ring_step.push_swap [of ?s3 7 0] by (simp add: d)
  moreover have "ring_step ?s4 ?s5" using ring_step.pop_head [of ?s4] by (simp add: d)
  moreover have "ring_step ?s5 ?s6" by (rule ring_step.pop_some) (simp_all add: d)
  moreover have "ring_step ?s6 ?s7" by (rule ring_step.pop_read) (simp add: d)
  moreover have "ring_step ?s7 ?s8" by (rule ring_step.pop_swap) (simp_all add: d)
  ultimately have "ring_step\<^sup>*\<^sup>* ?s0 ?s8" by (meson converse_rtranclp_into_rtranclp rtranclp.rtrancl_refl)
  then have "ring_reachable ?s8" by (simp add: ring_reachable_def)
  moreover have "pushed ?s8 = [7]" "log ?s8 = [(0, 0, 0)]"
    by (simp_all add: d written_by_def entries_def cell_def)
  ultimately show ?thesis by blast
qed

text \<open>C17: a batch pop can deliver a slot after it was overwritten. It claims its slots with the swap and
  copies them only afterwards; a producer that goes once around the ring in between replaces them, and
  the consumer gets the element of position 65536 instead of the one of position 0.\<close>

theorem batch_after_overwrite:
  "\<exists>s. ring_reachable s \<and> pushed s ! 0 = 7 \<and> log s = [(0, 9, 65537)]"
proof -
  have start: "ring_reachable ring_start" "prod ring_start = PIdle" by (simp_all add: ring_reachable_def ring_start_def)
  obtain s1 where s1: "ring_reachable s1" "prod s1 = PIdle" "cons s1 = CIdle" "taken s1 = 0" "log s1 = []" "pushed s1 = [7]"
    using push_many [OF start, of 1 7] by (auto simp: ring_start_def)
  have r1: "head (ring s1) = 0" "tail (ring s1) = 1"
    using ring_reachable_inv [OF s1(1)] s1(4,6) by (simp_all add: ring_inv_def)
  let ?a = "s1\<lparr>cons := BStart 1\<rparr>"
  let ?b = "?a\<lparr>cons := BHead 1 0\<rparr>"
  let ?c = "?b\<lparr>cons := BCas 1 0\<rparr>"
  let ?d = "?c\<lparr>ring := (ring ?c)\<lparr>head := 0 + 1\<rparr>, cons := BCopy 1 0, taken := 1\<rparr>"
  have "ring_step s1 ?a" by (rule ring_step.batch_call) (simp_all add: s1)
  moreover have "ring_step ?a ?b" using ring_step.batch_head [of ?a 1] by (simp add: r1)
  moreover have "ring_step ?b ?c" using ring_step.batch_some [of ?b 1 0] by (simp add: r1)
  moreover have "ring_step ?c ?d" using ring_step.batch_swap [of ?c 1 0] by (simp add: r1 s1)
  ultimately have "ring_step\<^sup>*\<^sup>* s1 ?d" by (meson converse_rtranclp_into_rtranclp rtranclp.rtrancl_refl)
  then have reach: "ring_reachable ?d" by (rule steps_reachable [OF s1(1)])
  have "prod ?d = PIdle" "65536 + length (pushed ?d) \<le> taken ?d + 65536" using s1 by simp_all
  from push_many [OF reach this, of 9] obtain s2 where s2: "ring_reachable s2" "prod s2 = PIdle" "cons s2 = BCopy 1 0"
    "taken s2 = 1" "log s2 = []" "pushed s2 = [7] @ replicate 65536 9"
    using s1 by auto
  have w: "written_by (prod s2) (pushed s2) = 65537" using s2 by (simp add: written_by_def)
  have "\<forall>k. k < 65537 \<and> 65537 \<le> k + 65536 \<longrightarrow> buffer (ring s2) ! (k mod 65536) = pushed s2 ! k"
    using ring_reachable_inv [OF s2(1)] w by (simp add: ring_inv_def)
  from this [rule_format, of 65536] have "buffer (ring s2) ! 0 = pushed s2 ! 65536" by simp
  then have b0: "buffer (ring s2) ! 0 = 9" using s2(6) by (simp add: nth_append)
  let ?e = "s2\<lparr>cons := BCount 1, log := log s2 @ entries (taken s2 - unat (1::u32))
      (window 65536 (buffer (ring s2)) (unat (0::u32)) (unat (1::u32))) (written_by (prod s2) (pushed s2))\<rparr>"
  have "ring_step s2 ?e" by (rule ring_step.batch_copy [OF s2(3)])
  then have "ring_reachable ?e" using steps_reachable [OF s2(1)] by blast
  moreover have "log ?e = [(0, 9, 65537)]" by (simp add: s2(4,5) w b0 entries_def window_def)
  moreover have "pushed ?e ! 0 = 7" using s2(6) by simp
  ultimately show ?thesis by blast
qed



end
