(* ===== verification/HeapList.thy ===== *)
theory HeapList
  imports Kernel
begin

text \<open>
  Singly linked lists on the heap: \<open>pending_ops\<close> of \<open>proactor.c\<close> (through
  \<open>op->next\<close>) and \<open>worker->connections\<close> of \<open>hybrid_proactor.c\<close> (through \<open>conn->next\<close>).

  \<^item> \<open>linked nx p xs\<close>: following \<open>nx\<close> from \<open>p\<close> visits exactly the addresses \<open>xs\<close> and
    ends in \<open>NULL\<close>; \<open>nx a = None\<close> when the block at \<open>a\<close> is not a list node.
  \<^item> \<open>lifo_pool\<close> is the contract of a pool that returns the element put in last, with what a
    client can conclude from it.
\<close>

section \<open>Linked lists\<close>

fun linked :: "(addr \<Rightarrow> addr ptr option) \<Rightarrow> addr ptr \<Rightarrow> addr list \<Rightarrow> bool" where
  "linked nx p [] \<longleftrightarrow> p = NULL"
| "linked nx p (a # as) \<longleftrightarrow> p = Ptr a \<and> (case nx a of None \<Rightarrow> False | Some q \<Rightarrow> linked nx q as)"

lemma linked_NULL [simp]: "linked nx NULL xs \<longleftrightarrow> xs = []"
  by (cases xs) auto

lemma linked_Ptr: "linked nx (Ptr a) xs \<longleftrightarrow> (\<exists>q ys. xs = a # ys \<and> nx a = Some q \<and> linked nx q ys)"
  by (cases xs) (auto split: option.splits)

lemma linked_cong: "(\<And>a. a \<in> set xs \<Longrightarrow> nx a = nx' a) \<Longrightarrow> linked nx p xs \<longleftrightarrow> linked nx' p xs"
  by (induction xs arbitrary: p) (auto split: option.splits)

lemma linked_unique: "linked nx p xs \<Longrightarrow> linked nx p ys \<Longrightarrow> xs = ys"
  by (induction xs arbitrary: p ys) (auto simp: linked_Ptr split: option.splits)

lemma linked_append:
  "linked nx p (xs @ a # ys) \<Longrightarrow> linked nx (Ptr a) (a # ys)"
proof (induction xs arbitrary: p)
  case Nil
  then show ?case by simp
next
  case (Cons b xs)
  then obtain q where "linked nx q (xs @ a # ys)" by (auto split: option.splits)
  then show ?case by (rule Cons.IH)
qed

lemma linked_distinct: "linked nx p xs \<Longrightarrow> distinct xs"
proof (induction xs arbitrary: p)
  case Nil
  then show ?case by simp
next
  case (Cons a xs)
  then obtain q where q: "nx a = Some q" "linked nx q xs" by (auto split: option.splits)
  have "a \<notin> set xs"
  proof
    assume "a \<in> set xs"
    then obtain us vs where xs: "xs = us @ a # vs" by (auto simp: in_set_conv_decomp)
    then have "linked nx (Ptr a) (a # vs)" using q(2) linked_append by blast
    moreover have "linked nx (Ptr a) (a # xs)" using q by simp
    ultimately have "a # vs = a # xs" by (rule linked_unique)
    then show False using xs by simp
  qed
  then show ?case using Cons.IH [OF q(2)] by simp
qed

text \<open>A node that is put in front of a list.\<close>

lemma linked_push:
  "linked nx p xs \<Longrightarrow> a \<notin> set xs \<Longrightarrow> nx' a = Some p \<Longrightarrow> (\<And>b. b \<noteq> a \<Longrightarrow> nx' b = nx b) \<Longrightarrow>
   linked nx' (Ptr a) (a # xs)"
  using linked_cong [of xs nx' nx p] by (simp, metis)

text \<open>The visited addresses as a function, with the number of steps bounded.\<close>

fun walk :: "nat \<Rightarrow> (addr \<Rightarrow> addr ptr option) \<Rightarrow> addr ptr \<Rightarrow> addr list" where
  "walk 0 nx p = []"
| "walk (Suc n) nx p = (case p of NULL \<Rightarrow> [] | Ptr a \<Rightarrow>
     a # (case nx a of None \<Rightarrow> [] | Some q \<Rightarrow> walk n nx q))"

lemma walk_linked: "linked nx p xs \<Longrightarrow> length xs \<le> n \<Longrightarrow> walk n nx p = xs"
proof (induction xs arbitrary: p n)
  case Nil
  then show ?case by (cases n) auto
next
  case (Cons a xs)
  then obtain m where n: "n = Suc m" by (cases n) auto
  from Cons show ?case by (auto simp: n split: option.splits)
qed

section \<open>Pools that return the last element first\<close>

text \<open>Putting in several elements, taking out at most \<open>n\<close>.\<close>

fun put_all :: "('a \<Rightarrow> 's \<Rightarrow> 's res) \<Rightarrow> 'a list \<Rightarrow> 's \<Rightarrow> 's res" where
  "put_all p [] s = Inr s"
| "put_all p (a # as) s = rbind (p a s) (put_all p as)"

fun take_all :: "('s \<Rightarrow> ('a ptr \<times> 's) res) \<Rightarrow> nat \<Rightarrow> 's \<Rightarrow> ('a list \<times> 's) res" where
  "take_all t 0 s = Inr ([], s)"
| "take_all t (Suc n) s = rbind (t s) (\<lambda>(p, s'). case p of
     NULL \<Rightarrow> Inr ([], s')
   | Ptr a \<Rightarrow> rbind (take_all t n s') (\<lambda>(as, s''). Inr (a # as, s'')))"

locale lifo_pool =
  fixes invar :: "'s \<Rightarrow> bool"
    and items :: "'s \<Rightarrow> 'a list"
    and insertable :: "'a \<Rightarrow> 's \<Rightarrow> bool"
    and put_in :: "'a \<Rightarrow> 's \<Rightarrow> 's res"
    and take_out :: "'s \<Rightarrow> ('a ptr \<times> 's) res"
  assumes put_in_spec: "invar s \<Longrightarrow> insertable a s \<Longrightarrow>
      \<exists>s'. put_in a s = Inr s' \<and> invar s' \<and> items s' = a # items s
         \<and> (\<forall>b. insertable b s' \<longleftrightarrow> insertable b s \<and> b \<noteq> a)"
    and take_out_empty: "invar s \<Longrightarrow> items s = [] \<Longrightarrow> take_out s = Inr (NULL, s)"
    and take_out_spec: "invar s \<Longrightarrow> items s = a # as \<Longrightarrow>
      \<exists>s'. take_out s = Inr (Ptr a, s') \<and> invar s' \<and> items s' = as"
begin

lemma put_all_items:
  "invar s \<Longrightarrow> distinct as \<Longrightarrow> (\<forall>a\<in>set as. insertable a s) \<Longrightarrow>
   \<exists>s'. put_all put_in as s = Inr s' \<and> invar s' \<and> items s' = rev as @ items s"
proof (induction as arbitrary: s)
  case Nil
  then show ?case by simp
next
  case (Cons a as)
  obtain s1 where s1: "put_in a s = Inr s1" "invar s1" "items s1 = a # items s"
      "\<forall>b. insertable b s1 \<longleftrightarrow> insertable b s \<and> b \<noteq> a"
    using put_in_spec [of s a] Cons.prems by auto
  have "\<forall>b\<in>set as. insertable b s1" using Cons.prems s1(4) by auto
  then obtain s2 where "put_all put_in as s1 = Inr s2" "invar s2" "items s2 = rev as @ items s1"
    using Cons.IH [OF s1(2)] Cons.prems(2) by auto
  then show ?case using s1 by simp
qed

lemma take_all_items:
  "invar s \<Longrightarrow> items s = as @ bs \<Longrightarrow>
   \<exists>s'. take_all take_out (length as) s = Inr (as, s') \<and> invar s' \<and> items s' = bs"
proof (induction as arbitrary: s)
  case Nil
  then show ?case by simp
next
  case (Cons a as)
  obtain s1 where s1: "take_out s = Inr (Ptr a, s1)" "invar s1" "items s1 = as @ bs"
    using take_out_spec [of s a "as @ bs"] Cons.prems by auto
  then show ?case using Cons.IH [OF s1(2, 3)] by auto
qed

text \<open>What is put in first comes out last.\<close>

lemma put_take_reverses:
  assumes "invar s" and "distinct as" and "\<forall>a\<in>set as. insertable a s"
  shows "\<exists>s1 s2. put_all put_in as s = Inr s1 \<and> take_all take_out (length as) s1 = Inr (rev as, s2) \<and> invar s2
           \<and> items s2 = items s"
proof -
  obtain s1 where s1: "put_all put_in as s = Inr s1" "invar s1" "items s1 = rev as @ items s"
    using put_all_items [OF assms] by auto
  show ?thesis using take_all_items [OF s1(2, 3)] s1(1) by auto
qed

end

end
