(* ===== verification/Aio.thy ===== *)
theory Aio
  imports HeapList
begin

text \<open>
  Linux asynchronous I/O as \<open>proactor.c\<close> and \<open>hybrid_proactor.c\<close> use it through
  \<open>libaio\<close>.

  \<^item> \<open>iocb\<close> is a control block; \<open>io_submit\<close> copies it, so that a context holds control blocks
    by value: those \<open>in_flight\<close>, and the events of those \<open>finished\<close> and not yet reaped.
  \<^item> \<open>io_finish\<close> is the kernel's own step: it moves the bytes between socket and buffer at some
    time after the submission and queues the event. The buffer is an address of the process, so a
    block freed in between is written or read after \<open>free\<close>.
  \<^item> \<open>res\<close> and \<open>res2\<close> of an event are \<open>unsigned long\<close> in \<open>libaio.h\<close>: 64-bit words; an
    error \<open>e\<close> is the word \<open>-e\<close>, with \<open>0 < e < 4096\<close>.
\<close>

section \<open>Control blocks\<close>

datatype buffer_name = ReadBuf | WriteBuf

type_synonym bufptr = "addr \<times> buffer_name"

datatype io_command = IO_CMD_PREAD | IO_CMD_PWRITE

record iocb =
  io_data :: "addr ptr"
  io_opcode :: io_command
  io_fd :: fd
  io_buf :: "bufptr ptr"
  io_nbytes :: u64
  io_offset :: u64

definition io_prep_pread :: "fd \<Rightarrow> bufptr ptr \<Rightarrow> u64 \<Rightarrow> u64 \<Rightarrow> iocb" where
  "io_prep_pread f b n off = \<lparr>io_data = NULL, io_opcode = IO_CMD_PREAD, io_fd = f, io_buf = b,
     io_nbytes = n, io_offset = off\<rparr>"

definition io_prep_pwrite :: "fd \<Rightarrow> bufptr ptr \<Rightarrow> u64 \<Rightarrow> u64 \<Rightarrow> iocb" where
  "io_prep_pwrite f b n off = \<lparr>io_data = NULL, io_opcode = IO_CMD_PWRITE, io_fd = f, io_buf = b,
     io_nbytes = n, io_offset = off\<rparr>"

section \<open>Contexts\<close>

record io_event =
  ev_data :: "addr ptr"
  ev_res :: u64
  ev_res2 :: u64

record aio =
  in_flight :: "iocb list"
  finished :: "io_event list"

definition empty_aio :: aio where
  "empty_aio = \<lparr>in_flight = [], finished = []\<rparr>"

text \<open>\<open>io_submit\<close> of one block: 1 when it was queued, else 0 or a negative \<open>errno\<close>.\<close>

definition io_submit :: "kernel \<Rightarrow> iocb \<Rightarrow> aio \<Rightarrow> ('o, 'd) world \<Rightarrow> int \<times> aio \<times> ('o, 'd) world" where
  "io_submit K c q w =
     (let r = k_submit K (now w)
      in (r, if r = 1 then q\<lparr>in_flight := in_flight q @ [c]\<rparr> else q, emit (SysIoSubmit (io_fd c) r) w))"

text \<open>\<open>io_getevents\<close>: an \<open>errno\<close>, or the first events that are ready, at most \<open>n\<close>.\<close>

definition io_getevents ::
  "kernel \<Rightarrow> nat \<Rightarrow> aio \<Rightarrow> ('o, 'd) world \<Rightarrow> (errno + io_event list) \<times> aio \<times> ('o, 'd) world" where
  "io_getevents K n q w = (case k_events K (now w) of
     Inl e \<Rightarrow> (Inl e, q, emit SysIoEvents w)
   | Inr m \<Rightarrow> (Inr (take (min m n) (finished q)), q\<lparr>finished := drop (min m n) (finished q)\<rparr>,
       emit SysIoEvents w))"

section \<open>The kernel's side\<close>

datatype io_outcome = IoError errno | IoData "u8 list" | IoCount nat

fun outcome_fits :: "io_command \<Rightarrow> io_outcome \<Rightarrow> bool" where
  "outcome_fits c (IoError e) \<longleftrightarrow> 0 < e \<and> e < 4096"
| "outcome_fits c (IoData bs) \<longleftrightarrow> c = IO_CMD_PREAD"
| "outcome_fits c (IoCount n) \<longleftrightarrow> c = IO_CMD_PWRITE"

text \<open>
  \<open>io_transfer\<close> moves the bytes of one control block. \<open>rd\<close> and \<open>wr\<close> access a buffer of
  the process. The result is the \<open>res\<close> of the event.
\<close>

definition io_transfer ::
  "(bufptr \<Rightarrow> ('o, 'd) world \<Rightarrow> u8 list res) \<Rightarrow> (bufptr \<Rightarrow> u8 list \<Rightarrow> ('o, 'd) world \<Rightarrow> ('o, 'd) world res)
    \<Rightarrow> iocb \<Rightarrow> io_outcome \<Rightarrow> ('o, 'd) world \<Rightarrow> (u64 \<times> ('o, 'd) world) res" where
  "io_transfer rd wr c out w = (case out of
     IoError e \<Rightarrow> Inr (- word_of_int e, emit (if io_opcode c = IO_CMD_PREAD then SysRead (io_fd c) (Inl e)
                                              else SysWrite (io_fd c) (Inl e)) w)
   | IoData bs \<Rightarrow> (case io_buf c of
       NULL \<Rightarrow> Inl NullDeref
     | Ptr b \<Rightarrow> rbind (rd b w) (\<lambda>old.
         let data = take (unat (io_nbytes c)) bs
         in rbind (memcpy 0 data old) (\<lambda>new. rbind (wr b new w) (\<lambda>w'.
              Inr (of_nat (length data), emit (SysRead (io_fd c) (Inr data)) w')))))
   | IoCount n \<Rightarrow> (case io_buf c of
       NULL \<Rightarrow> Inl NullDeref
     | Ptr b \<Rightarrow> rbind (rd b w) (\<lambda>old. rbind (mem_read 0 (unat (io_nbytes c)) old) (\<lambda>bs.
         Inr (of_nat (length (take n bs)), emit (SysWrite (io_fd c) (Inr (take n bs))) w)))))"

text \<open>The \<open>i\<close>-th control block in flight finishes.\<close>

definition io_finish ::
  "(bufptr \<Rightarrow> ('o, 'd) world \<Rightarrow> u8 list res) \<Rightarrow> (bufptr \<Rightarrow> u8 list \<Rightarrow> ('o, 'd) world \<Rightarrow> ('o, 'd) world res)
    \<Rightarrow> nat \<Rightarrow> io_outcome \<Rightarrow> u64 \<Rightarrow> aio \<Rightarrow> ('o, 'd) world \<Rightarrow> (aio \<times> ('o, 'd) world) res" where
  "io_finish rd wr i out r2 q w =
     (let c = in_flight q ! i
      in rbind (io_transfer rd wr c out w) (\<lambda>(r, w').
           Inr (\<lparr>in_flight = take i (in_flight q) @ drop (Suc i) (in_flight q),
                 finished = finished q @ [\<lparr>ev_data = io_data c, ev_res = r, ev_res2 = r2\<rparr>]\<rparr>, w')))"

section \<open>Lemmas\<close>

lemma word_of_errno:
  assumes "0 < e" and "e < 4096"
  shows "sint (- word_of_int e :: u64) = - e"
proof -
  have "(- word_of_int e :: u64) = word_of_int (- e)" by simp
  then have "sint (- word_of_int e :: u64) = signed_take_bit 63 (- e)"
    by (simp only: sint_sbintrunc') simp
  then show ?thesis using assms by (simp add: signed_take_bit_int_eq_self)
qed

text \<open>
  The \<open>int error_code = -res\<close> of a 64-bit \<open>res\<close>: for an error it is the \<open>errno\<close>, for a number
  of bytes its negative.
\<close>

lemma ucast_word_of_int: "ucast (word_of_int k :: u64) = (word_of_int k :: u32)"
  by (rule bit_word_eqI) (simp add: bit_simps)

lemma error_code_word: "- (2 ^ 31) \<le> k \<Longrightarrow> k < 2 ^ 31 \<Longrightarrow> sint (ucast (word_of_int k :: u64) :: u32) = k"
  unfolding ucast_word_of_int sint_sbintrunc' by (simp add: signed_take_bit_int_eq_self)

lemma error_code_bytes:
  assumes "n < 4096"
  shows "sint (ucast (- word_of_nat n :: u64) :: u32) = - int n"
proof -
  have "(- word_of_nat n :: u64) = word_of_int (- int n)" by simp
  then show ?thesis using assms error_code_word [of "- int n"] by (simp del: of_int_minus)
qed

lemma error_code_errno: "0 < e \<Longrightarrow> e < 4096 \<Longrightarrow> sint (ucast (- (- word_of_int e) :: u64) :: u32) = e"
  using error_code_word [of e] by simp

lemma sint_bytes: "n < 4096 \<Longrightarrow> sint (word_of_nat n :: u64) = int n"
  by (simp add: signed_of_nat signed_take_bit_int_eq_self)

end
