(* ===== verification/Proactor.thy ===== *)
theory Proactor
  imports Aio
begin

text \<open>
  \<open>codes/network/proactor/proactor.h\<close> and the operation pool and connection table of
  \<open>codes/network/proactor/proactor.c\<close>: \<open>proactor_submit_operation\<close>,
  \<open>proactor_add_connection\<close>, \<open>proactor_remove_connection\<close>.

  \<^item> An \<open>async_operation_t *\<close>, a \<open>connection_ctx_t *\<close> and a \<open>completion_handler_t *\<close> are addresses
    of the heap of the world; a load of a block of another kind is a use after \<open>free\<close>, since
    addresses are not reused.
  \<^item> The functions of the source take the \<open>proactor_t\<close> by pointer; here it is a part of the state
    that is passed on, beside the world and the AIO context. \<open>queue_mutex\<close> makes the accesses
    to \<open>pending_ops\<close> atomic, so it has no counterpart.
  \<^item> \<open>client_addr\<close> is only stored and printed and is left out, as all printing.
\<close>

section \<open>Data\<close>

datatype operation_type = OP_ACCEPT | OP_READ | OP_WRITE | OP_CLOSE

text \<open>The functions that the server stores in a handler (\<open>async_server_proactor.c\<close>).\<close>

datatype callback = HandleReadCompletion | HandleWriteCompletion | HandleErrorCompletion

record completion_handler =
  handle_read :: "callback ptr"
  handle_write :: "callback ptr"
  handle_error :: "callback ptr"
  handler_data :: "addr ptr"

record async_operation =
  op_type :: operation_type
  op_fd :: fd
  op_handler :: "addr ptr"
  op_buffer :: "bufptr ptr"
  op_size :: u64
  op_offset :: u64
  op_iocb :: iocb
  op_next :: "addr ptr"

record connection_ctx =
  ctx_fd :: fd
  ctx_read_buf :: "u8 list"
  ctx_write_buf :: "u8 list"
  ctx_handler :: "addr ptr"
  ctx_proactor :: bool

text \<open>
  \<open>proactor_t\<close>. \<open>ctx_proactor\<close> above and \<open>aio_ctx\<close>, \<open>dispatcher_thread\<close> here say whether the
  field is non-zero. The thread array comes from \<open>malloc\<close>: an entry is \<open>None\<close> until
  \<open>pthread_create\<close> writes it.
\<close>

record proactor =
  aio_ctx :: bool
  pr_epoll_fd :: fd
  pr_listen_fd :: fd
  pr_running :: bool
  pr_exit_event_fd :: fd
  worker_threads :: "nat option list ptr"
  dispatcher_thread :: bool
  pr_thread_count :: nat
  pending_ops :: "addr ptr"
  ctx_table :: "addr ptr list ptr"
  max_connections :: int

datatype pobj = Op async_operation | Ctx connection_ctx | Handler completion_handler

type_synonym pworld = "(pobj, fd) world"

record pstate =
  pro :: proactor
  mem :: pworld
  aio_state :: aio

section \<open>Access to the heap\<close>

definition load_op :: "addr \<Rightarrow> pworld \<Rightarrow> async_operation res" where
  "load_op a w = (case heap w a of Some (Op x) \<Rightarrow> Inr x | _ \<Rightarrow> Inl UseAfterFree)"

definition load_ctx :: "addr \<Rightarrow> pworld \<Rightarrow> connection_ctx res" where
  "load_ctx a w = (case heap w a of Some (Ctx x) \<Rightarrow> Inr x | _ \<Rightarrow> Inl UseAfterFree)"

definition load_handler :: "addr \<Rightarrow> pworld \<Rightarrow> completion_handler res" where
  "load_handler a w = (case heap w a of Some (Handler x) \<Rightarrow> Inr x | _ \<Rightarrow> Inl UseAfterFree)"

text \<open>\<open>proactor->connections[fd]\<close> for an index in range.\<close>

definition table_at :: "proactor \<Rightarrow> fd \<Rightarrow> addr ptr res" where
  "table_at p f = (case ctx_table p of
     NULL \<Rightarrow> Inl NullDeref
   | Ptr t \<Rightarrow> if 0 \<le> f \<and> nat f < length t then Inr (t ! nat f) else Inl OutOfBounds)"

definition table_put :: "fd \<Rightarrow> addr ptr \<Rightarrow> proactor \<Rightarrow> proactor res" where
  "table_put f v p = (case ctx_table p of
     NULL \<Rightarrow> Inl NullDeref
   | Ptr t \<Rightarrow> if 0 \<le> f \<and> nat f < length t then Inr (p\<lparr>ctx_table := Ptr (t[nat f := v])\<rparr>) else Inl OutOfBounds)"

text \<open>The block that \<open>memset\<close> clears after \<open>malloc\<close>.\<close>

definition zero_op :: async_operation where
  "zero_op = \<lparr>op_type = OP_ACCEPT, op_fd = 0, op_handler = NULL, op_buffer = NULL, op_size = 0,
     op_offset = 0, op_iocb = io_prep_pread 0 NULL 0 0, op_next = NULL\<rparr>"

definition zero_ctx :: connection_ctx where
  "zero_ctx = \<lparr>ctx_fd = 0, ctx_read_buf = replicate 4096 0, ctx_write_buf = replicate 4096 0,
     ctx_handler = NULL, ctx_proactor = False\<rparr>"

definition zero_handler :: completion_handler where
  "zero_handler = \<lparr>handle_read = NULL, handle_write = NULL, handle_error = NULL, handler_data = NULL\<rparr>"

section \<open>The pool of operations\<close>

definition proactor_submit_operation :: "addr \<Rightarrow> pstate \<Rightarrow> pstate res" where
  "proactor_submit_operation a s =
     rbind (load_op a (mem s)) (\<lambda>x.
     rbind (store a (Op (x\<lparr>op_next := pending_ops (pro s)\<rparr>)) (mem s)) (\<lambda>w.
       Inr (s\<lparr>mem := w, pro := (pro s)\<lparr>pending_ops := Ptr a\<rparr>\<rparr>)))"

text \<open>The part of \<open>worker_thread_func\<close> that takes an operation, under the same mutex.\<close>

definition take_operation :: "pstate \<Rightarrow> (addr ptr \<times> pstate) res" where
  "take_operation s = (case pending_ops (pro s) of
     NULL \<Rightarrow> Inr (NULL, s)
   | Ptr a \<Rightarrow> rbind (load_op a (mem s)) (\<lambda>x.
       Inr (Ptr a, s\<lparr>pro := (pro s)\<lparr>pending_ops := op_next x\<rparr>\<rparr>)))"

section \<open>The connection table\<close>

definition proactor_add_connection :: "kernel \<Rightarrow> fd \<Rightarrow> pstate \<Rightarrow> (int \<times> pstate) res" where
  "proactor_add_connection K f s =
     (if f < 0 \<or> max_connections (pro s) \<le> f then Inr (-1, s)
      else rbind (table_at (pro s) f) (\<lambda>old.
        if old \<noteq> NULL then Inr (-1, s)
        else (case sys_alloc K (Ctx (zero_ctx\<lparr>ctx_fd := f, ctx_proactor := True\<rparr>)) (mem s) of
            (NULL, w) \<Rightarrow> Inr (-1, s\<lparr>mem := w\<rparr>)
          | (Ptr c, w) \<Rightarrow> rbind (table_put f (Ptr c) (pro s)) (\<lambda>p. Inr (0, s\<lparr>mem := w, pro := p\<rparr>)))))"

definition proactor_remove_connection :: "kernel \<Rightarrow> fd \<Rightarrow> pstate \<Rightarrow> pstate res" where
  "proactor_remove_connection K f s =
     (if f < 0 \<or> max_connections (pro s) \<le> f then Inr s
      else rbind (table_at (pro s) f) (\<lambda>q. case q of
          NULL \<Rightarrow> Inr s
        | Ptr c \<Rightarrow>
          let w1 = (if 0 \<le> pr_epoll_fd (pro s) then snd (sys_epoll_del K (pr_epoll_fd (pro s)) f (mem s)) else mem s);
              w2 = sys_close f w1
          in rbind (load_ctx c w2) (\<lambda>x.
             rbind (case ctx_handler x of
                 NULL \<Rightarrow> Inr w2
               | Ptr h \<Rightarrow> rbind (sys_free h w2) (store c (Ctx (x\<lparr>ctx_handler := NULL\<rparr>)))) (\<lambda>w3.
             rbind (table_put f NULL (pro s)) (\<lambda>p.
             rbind (sys_free c w3) (\<lambda>w4. Inr (s\<lparr>mem := w4, pro := p\<rparr>)))))))"

end
