(* ===== verification/ProactorServer.thy ===== *)
theory ProactorServer
  imports Proactor
begin

text \<open>
  \<open>codes/network/proactor/async_server_proactor.c\<close>: the completion handlers of the echo
  server, the set-up of a connection and the listening socket.

  \<^item> A connection runs the protocol read, echo, read: \<open>handle_read_completion\<close> answers a
    completed read with a write operation, \<open>handle_write_completion\<close> a completed write with the
    next read operation, so that a connection has at most one operation at a time.
  \<^item> \<open>ssize_t bytes\<close> is an \<open>int\<close>; \<open>strlen(echo_prefix)\<close> is the length of \<open>echo_prefix\<close>.
\<close>

definition PROACTOR_PORT :: int where "PROACTOR_PORT = 8080"
definition PROACTOR_BUFFER_SIZE :: nat where "PROACTOR_BUFFER_SIZE = 4096"

text \<open>\<open>"Echo: "\<close>.\<close>

definition echo_prefix :: "u8 list" where
  "echo_prefix = [69, 99, 104, 111, 58, 32]"

section \<open>Submitting reads\<close>

definition submit_next_read_operation :: "kernel \<Rightarrow> addr \<Rightarrow> pstate \<Rightarrow> pstate res" where
  "submit_next_read_operation K c s = (case sys_alloc K (Op zero_op) (mem s) of
     (NULL, w) \<Rightarrow> Inr (s\<lparr>mem := w\<rparr>)
   | (Ptr a, w) \<Rightarrow> rbind (load_ctx c w) (\<lambda>x.
       rbind (store a (Op (zero_op\<lparr>op_type := OP_READ, op_fd := ctx_fd x, op_handler := ctx_handler x,
           op_buffer := Ptr (c, ReadBuf), op_size := of_nat (PROACTOR_BUFFER_SIZE - 1), op_offset := 0\<rparr>)) w) (\<lambda>w'.
         proactor_submit_operation a (s\<lparr>mem := w'\<rparr>))))"

definition submit_welcome_message :: "kernel \<Rightarrow> addr \<Rightarrow> pstate \<Rightarrow> pstate res" where
  "submit_welcome_message K c s = submit_next_read_operation K c s"

section \<open>The completion handlers\<close>

text \<open>
  What the three handlers check first. \<open>data\<close> is the context that the handler carries;
  \<open>None\<close> means that the handler returns at once.
\<close>

definition valid_context :: "fd \<Rightarrow> addr ptr \<Rightarrow> pstate \<Rightarrow> addr option res" where
  "valid_context f data s = (case data of
     NULL \<Rightarrow> Inr None
   | Ptr c \<Rightarrow> rbind (load_ctx c (mem s)) (\<lambda>x.
       if \<not> ctx_proactor x then Inr None
       else if f < 0 \<or> max_connections (pro s) \<le> f then Inr None
       else rbind (table_at (pro s) f) (\<lambda>q. Inr (if q = Ptr c then Some c else None))))"

text \<open>
  The write operation of an echo. The block is not cleared after \<open>malloc\<close>: the fields \<open>next\<close>
  and \<open>iocb\<close>, which this function does not set, are written by
  \<open>proactor_submit_operation\<close> and \<open>io_prep_pwrite\<close> before they are read.
\<close>

definition submit_echo :: "kernel \<Rightarrow> fd \<Rightarrow> addr \<Rightarrow> nat \<Rightarrow> pstate \<Rightarrow> pstate res" where
  "submit_echo K f c total_len s = (case sys_alloc K (Op zero_op) (mem s) of
     (NULL, w) \<Rightarrow> Inr (s\<lparr>mem := w\<rparr>)
   | (Ptr a, w) \<Rightarrow> rbind (load_ctx c w) (\<lambda>x.
       rbind (store a (Op (zero_op\<lparr>op_type := OP_WRITE, op_fd := f, op_handler := ctx_handler x,
           op_buffer := Ptr (c, WriteBuf), op_size := of_nat total_len, op_offset := 0\<rparr>)) w) (\<lambda>w'.
         proactor_submit_operation a (s\<lparr>mem := w'\<rparr>))))"

definition handle_read_completion :: "kernel \<Rightarrow> fd \<Rightarrow> addr ptr \<Rightarrow> int \<Rightarrow> pstate \<Rightarrow> pstate res" where
  "handle_read_completion K f data bytes s = rbind (valid_context f data s) (\<lambda>v. case v of
     None \<Rightarrow> Inr s
   | Some c \<Rightarrow>
      if bytes = 0 then proactor_remove_connection K f s
      else if bytes < 0 then proactor_remove_connection K f s
      else
        let safe_bytes = (if bytes < int PROACTOR_BUFFER_SIZE then nat bytes else PROACTOR_BUFFER_SIZE - 1);
            prefix_len = length echo_prefix;
            total_len = prefix_len + safe_bytes
        in rbind (load_ctx c (mem s)) (\<lambda>x.
           rbind (memcpy safe_bytes [0] (ctx_read_buf x)) (\<lambda>rb.
             if total_len < PROACTOR_BUFFER_SIZE then
               rbind (memcpy 0 echo_prefix (ctx_write_buf x)) (\<lambda>wb1.
               rbind (mem_read 0 safe_bytes rb) (\<lambda>bs.
               rbind (memcpy prefix_len bs wb1) (\<lambda>wb2.
               rbind (store c (Ctx (x\<lparr>ctx_read_buf := rb, ctx_write_buf := wb2\<rparr>)) (mem s)) (\<lambda>w.
                 submit_echo K f c total_len (s\<lparr>mem := w\<rparr>)))))
             else
               rbind (store c (Ctx (x\<lparr>ctx_read_buf := rb\<rparr>)) (mem s)) (\<lambda>w.
                 submit_next_read_operation K c (s\<lparr>mem := w\<rparr>)))))"

definition handle_write_completion :: "kernel \<Rightarrow> fd \<Rightarrow> addr ptr \<Rightarrow> int \<Rightarrow> pstate \<Rightarrow> pstate res" where
  "handle_write_completion K f data bytes s = rbind (valid_context f data s) (\<lambda>v. case v of
     None \<Rightarrow> Inr s
   | Some c \<Rightarrow>
      if bytes \<le> 0 then proactor_remove_connection K f s
      else submit_next_read_operation K c s)"

definition handle_error_completion :: "kernel \<Rightarrow> fd \<Rightarrow> addr ptr \<Rightarrow> int \<Rightarrow> pstate \<Rightarrow> pstate res" where
  "handle_error_completion K f data error s = (case data of
     NULL \<Rightarrow> Inr s
   | Ptr c \<Rightarrow> rbind (load_ctx c (mem s)) (\<lambda>x.
       if \<not> ctx_proactor x then Inr s else proactor_remove_connection K f s))"

text \<open>A call through a function pointer of a handler; a null pointer is not called.\<close>

definition call_back :: "kernel \<Rightarrow> callback ptr \<Rightarrow> fd \<Rightarrow> addr ptr \<Rightarrow> int \<Rightarrow> pstate \<Rightarrow> pstate res" where
  "call_back K p f data n s = (case p of
     NULL \<Rightarrow> Inr s
   | Ptr HandleReadCompletion \<Rightarrow> handle_read_completion K f data n s
   | Ptr HandleWriteCompletion \<Rightarrow> handle_write_completion K f data n s
   | Ptr HandleErrorCompletion \<Rightarrow> handle_error_completion K f data n s)"

section \<open>New connections\<close>

definition setup_new_connection :: "kernel \<Rightarrow> fd \<Rightarrow> pstate \<Rightarrow> pstate res" where
  "setup_new_connection K f s = rbind (proactor_add_connection K f s) (\<lambda>(r, s1).
     if r < 0 then Inr (s1\<lparr>mem := sys_close f (mem s1)\<rparr>)
     else rbind (table_at (pro s1) f) (\<lambda>q. case q of
         NULL \<Rightarrow> Inr s1
       | Ptr c \<Rightarrow> (case sys_alloc K (Handler zero_handler) (mem s1) of
            (NULL, w) \<Rightarrow> proactor_remove_connection K f (s1\<lparr>mem := w\<rparr>)
          | (Ptr h, w) \<Rightarrow>
              rbind (store h (Handler \<lparr>handle_read = Ptr HandleReadCompletion, handle_write = Ptr HandleWriteCompletion,
                  handle_error = Ptr HandleErrorCompletion, handler_data = Ptr c\<rparr>) w) (\<lambda>w1.
              rbind (load_ctx c w1) (\<lambda>x.
              rbind (store c (Ctx (x\<lparr>ctx_handler := Ptr h\<rparr>)) w1) (\<lambda>w2.
                submit_welcome_message K c (s1\<lparr>mem := w2\<rparr>)))))))"

text \<open>\<open>create_server_socket\<close> of this program.\<close>

definition proactor_server_socket :: "kernel \<Rightarrow> int \<Rightarrow> ('o, 'd) world \<Rightarrow> int \<times> ('o, 'd) world" where
  "proactor_server_socket K port w = (case sys_newfd K SysSocket w of
     (Inl e, w1) \<Rightarrow> (-1, w1)
   | (Inr f, w1) \<Rightarrow> (case sys_ok K (SysSetsockopt f) w1 of
       (Some e, w2) \<Rightarrow> (-1, sys_close f w2)
     | (None, w2) \<Rightarrow> (case sys_getfl K f w2 of
         (Inl e, w3) \<Rightarrow> (-1, sys_close f w3)
       | (Inr flags, w3) \<Rightarrow> (case sys_setfl K f (flags OR O_NONBLOCK) w3 of
           (Some e, w4) \<Rightarrow> (-1, sys_close f w4)
         | (None, w4) \<Rightarrow> (case sys_ok K (SysBind f port) w4 of
             (Some e, w5) \<Rightarrow> (-1, sys_close f w5)
           | (None, w5) \<Rightarrow> (case sys_ok K (SysListen f 1024) w5 of
               (Some e, w6) \<Rightarrow> (-1, sys_close f w6)
             | (None, w6) \<Rightarrow> (f, w6)))))))"

end
