(* ===== verification/ProactorLoop.thy ===== *)
theory ProactorLoop
  imports ProactorServer
begin

text \<open>
  The threads of \<open>codes/network/proactor/proactor.c\<close>: \<open>worker_thread_func\<close>,
  \<open>dispatcher_thread_func\<close> and the event handlers they call, and their interleaving.

  \<^item> A thread is a step function on a program counter and the shared state. A step of a worker
    is the critical section that takes an operation, its submission, the resubmission after
    \<open>EAGAIN\<close>, or the message that reads \<open>op->fd\<close> once more after a submitted write. A step
    of the dispatcher is a system call of its loop or the handling of one event.
  \<^item> \<open>proactor_act\<close> is one step of the program: of the dispatcher, of a worker, of the kernel (one
    operation in flight finishes) or of the signal handler.
  \<^item> The timed wait on \<open>queue_cond\<close> ends with an operation or after a second without one; both
    are steps of \<open>WTop\<close>.
\<close>

section \<open>Events\<close>

definition set_nonblock :: "kernel \<Rightarrow> fd \<Rightarrow> ('o, 'd) world \<Rightarrow> int \<times> ('o, 'd) world" where
  "set_nonblock K f w = (case sys_getfl K f w of
     (Inl e, w1) \<Rightarrow> (-1, w1)
   | (Inr flags, w1) \<Rightarrow> (case sys_setfl K f (flags OR O_NONBLOCK) w1 of
       (None, w2) \<Rightarrow> (0, w2) | (Some e, w2) \<Rightarrow> (-1, w2)))"

definition handle_connection_event :: "kernel \<Rightarrow> fd \<Rightarrow> u32 \<Rightarrow> pstate \<Rightarrow> pstate res" where
  "handle_connection_event K f events s =
     (if events AND (EPOLLERR OR EPOLLHUP) \<noteq> 0 then proactor_remove_connection K f s else Inr s)"

definition handle_new_connection :: "kernel \<Rightarrow> pstate \<Rightarrow> pstate res" where
  "handle_new_connection K s = (case sys_newfd K (SysAccept (pr_listen_fd (pro s))) (mem s) of
     (Inl e, w1) \<Rightarrow> Inr (s\<lparr>mem := w1\<rparr>)
   | (Inr f, w1) \<Rightarrow> (case set_nonblock K f w1 of (r, w2) \<Rightarrow>
       if r < 0 then Inr (s\<lparr>mem := sys_close f w2\<rparr>)
       else rbind (setup_new_connection K f (s\<lparr>mem := w2\<rparr>)) (\<lambda>s1.
         Inr (s1\<lparr>mem := snd (sys_epoll_add K (pr_epoll_fd (pro s1)) f f
                                (EPOLLERR OR EPOLLHUP OR EPOLLRDHUP) (mem s1))\<rparr>))))"

definition free_op :: "addr \<Rightarrow> pstate \<Rightarrow> pstate res" where
  "free_op a s = rbind (sys_free a (mem s)) (\<lambda>w. Inr (s\<lparr>mem := w\<rparr>))"

text \<open>
  One completed operation. \<open>res\<close> is unsigned, so that \<open>res < 0\<close> is the comparison of words;
  \<open>error_code\<close> is an \<open>int\<close>.
\<close>

definition dispatch_completion :: "kernel \<Rightarrow> io_event \<Rightarrow> pstate \<Rightarrow> pstate res" where
  "dispatch_completion K e s = (case ev_data e of
     NULL \<Rightarrow> Inr s
   | Ptr a \<Rightarrow> rbind (load_op a (mem s)) (\<lambda>x.
      let f = op_fd x in
      if f < 0 \<or> max_connections (pro s) \<le> f then free_op a s
      else rbind (table_at (pro s) f) (\<lambda>q. case q of
        NULL \<Rightarrow> free_op a s
      | Ptr c \<Rightarrow> (case op_handler x of
          NULL \<Rightarrow> free_op a s
        | Ptr h \<Rightarrow> rbind (load_handler h (mem s)) (\<lambda>hd.
            if handler_data hd \<noteq> Ptr c then free_op a s
            else if ev_res e < 0 then
              rbind (call_back K (handle_error hd) f (handler_data hd) (sint (- ev_res e)) s) (free_op a)
            else
              let error_code = sint (ucast (- ev_res e) :: u32) in
              if error_code = EAGAIN \<or> error_code = EWOULDBLOCK
              then proactor_submit_operation a (s\<lparr>mem := emit SysSleep (mem s)\<rparr>)
              else rbind (case op_type x of
                  OP_READ \<Rightarrow> call_back K (handle_read hd) f (handler_data hd) (sint (ev_res e)) s
                | OP_WRITE \<Rightarrow> call_back K (handle_write hd) f (handler_data hd) (sint (ev_res e)) s
                | _ \<Rightarrow> Inr s) (free_op a))))))"

section \<open>The dispatcher\<close>

datatype dispatcher_pc =
    DEnter
  | DTop
  | DEvents "(fd \<times> u32) list"
  | DAio
  | DCompletions "io_event list"
  | DLeft

definition dispatcher_enter :: "kernel \<Rightarrow> pstate \<Rightarrow> pstate" where
  "dispatcher_enter K s =
     (let ep = pr_epoll_fd (pro s); ex = pr_exit_event_fd (pro s); l = pr_listen_fd (pro s);
          w1 = snd (sys_epoll_add K ep ex ex EPOLLIN (mem s));
          w2 = snd (sys_epoll_add K ep l l EPOLLIN w1)
      in s\<lparr>mem := w2\<rparr>)"

fun dispatcher_step :: "kernel \<Rightarrow> dispatcher_pc \<Rightarrow> pstate \<Rightarrow> (dispatcher_pc \<times> pstate) res" where
  "dispatcher_step K DEnter s = Inr (DTop, dispatcher_enter K s)"
| "dispatcher_step K DTop s =
     (if pr_running (pro s)
      then case sys_epoll_wait K (pr_epoll_fd (pro s)) 64 (mem s) of
          (Inl e, w) \<Rightarrow> Inr (DEvents [], s\<lparr>mem := w\<rparr>)
        | (Inr evs, w) \<Rightarrow> Inr (DEvents evs, s\<lparr>mem := w\<rparr>)
      else Inr (DLeft, s))"
| "dispatcher_step K (DEvents []) s = Inr (if pr_running (pro s) then DAio else DLeft, s)"
| "dispatcher_step K (DEvents ((f, ev) # es)) s =
     (if f = pr_exit_event_fd (pro s) then Inr (DEvents [], s\<lparr>pro := (pro s)\<lparr>pr_running := False\<rparr>\<rparr>)
      else if f = pr_listen_fd (pro s) then rbind (handle_new_connection K s) (\<lambda>s'. Inr (DEvents es, s'))
      else rbind (handle_connection_event K f ev s) (\<lambda>s'. Inr (DEvents es, s')))"
| "dispatcher_step K DAio s = (case io_getevents K 64 (aio_state s) (mem s) of
     (Inl e, q, w) \<Rightarrow> Inr (DTop, s\<lparr>aio_state := q, mem := w\<rparr>)
   | (Inr evs, q, w) \<Rightarrow> Inr (DCompletions evs, s\<lparr>aio_state := q, mem := w\<rparr>))"
| "dispatcher_step K (DCompletions []) s = Inr (DTop, s)"
| "dispatcher_step K (DCompletions (e # es)) s =
     rbind (dispatch_completion K e s) (\<lambda>s'. Inr (DCompletions es, s'))"
| "dispatcher_step K DLeft s = Inr (DLeft, s)"

section \<open>The workers\<close>

datatype worker_pc = WTop | WHas addr | WRetry addr | WLog addr | WLeft

text \<open>The control block that a worker prepares for an operation.\<close>

definition op_block :: "addr \<Rightarrow> async_operation \<Rightarrow> iocb" where
  "op_block a x =
     (if op_type x = OP_READ then io_prep_pread (op_fd x) (op_buffer x) (op_size x) (op_offset x)
      else io_prep_pwrite (op_fd x) (op_buffer x) (op_size x) (op_offset x))\<lparr>io_data := Ptr a\<rparr>"

definition execute_operation :: "kernel \<Rightarrow> addr \<Rightarrow> pstate \<Rightarrow> (worker_pc \<times> pstate) res" where
  "execute_operation K a s = rbind (load_op a (mem s)) (\<lambda>x.
     if op_type x = OP_READ \<or> op_type x = OP_WRITE then
       rbind (store a (Op (x\<lparr>op_iocb := op_block a x\<rparr>)) (mem s)) (\<lambda>w.
       case io_submit K (op_block a x) (aio_state s) w of (ret, q, w1) \<Rightarrow>
         let s1 = s\<lparr>mem := w1, aio_state := q\<rparr> in
         if ret \<noteq> 1 then
           if ret = - EAGAIN then Inr (WRetry a, s1\<lparr>mem := emit SysSleep w1\<rparr>)
           else rbind (free_op a s1) (\<lambda>s2. Inr (WTop, s2))
         else Inr (if op_type x = OP_READ then WTop else WLog a, s1))
     else rbind (free_op a s) (\<lambda>s1. Inr (WTop, s1)))"

fun worker_step :: "kernel \<Rightarrow> worker_pc \<Rightarrow> pstate \<Rightarrow> (worker_pc \<times> pstate) res" where
  "worker_step K WTop s =
     (if pr_running (pro s)
      then rbind (take_operation s) (\<lambda>(p, s'). Inr (case p of NULL \<Rightarrow> WTop | Ptr a \<Rightarrow> WHas a, s'))
      else Inr (WLeft, s))"
| "worker_step K (WHas a) s = execute_operation K a s"
| "worker_step K (WRetry a) s = rbind (proactor_submit_operation a s) (\<lambda>s'. Inr (WTop, s'))"
| "worker_step K (WLog a) s = rbind (load_op a (mem s)) (\<lambda>x. Inr (WTop, s))"
| "worker_step K WLeft s = Inr (WLeft, s)"

section \<open>Interleaving\<close>

record psys =
  pst :: pstate
  disp :: dispatcher_pc
  wpcs :: "worker_pc list"

text \<open>The kernel's access to the buffers of a context.\<close>

definition buffer_of :: "bufptr \<Rightarrow> pworld \<Rightarrow> u8 list res" where
  "buffer_of b w = (case b of (c, sel) \<Rightarrow> rbind (load_ctx c w) (\<lambda>x.
     Inr (case sel of ReadBuf \<Rightarrow> ctx_read_buf x | WriteBuf \<Rightarrow> ctx_write_buf x)))"

definition set_buffer :: "bufptr \<Rightarrow> u8 list \<Rightarrow> pworld \<Rightarrow> pworld res" where
  "set_buffer b bs w = (case b of (c, sel) \<Rightarrow> rbind (load_ctx c w) (\<lambda>x.
     store c (Ctx (case sel of ReadBuf \<Rightarrow> x\<lparr>ctx_read_buf := bs\<rparr> | WriteBuf \<Rightarrow> x\<lparr>ctx_write_buf := bs\<rparr>)) w))"

definition signal_handler :: "pstate \<Rightarrow> pstate" where
  "signal_handler s = s\<lparr>pro := (pro s)\<lparr>pr_running := False\<rparr>\<rparr>"

datatype pact = DispatcherRuns | WorkerRuns nat | KernelFinishes nat io_outcome u64 | SignalArrives

fun proactor_enabled :: "pact \<Rightarrow> psys \<Rightarrow> bool" where
  "proactor_enabled (WorkerRuns i) s \<longleftrightarrow> i < length (wpcs s)"
| "proactor_enabled (KernelFinishes i out r2) s \<longleftrightarrow> i < length (in_flight (aio_state (pst s)))
     \<and> outcome_fits (io_opcode (in_flight (aio_state (pst s)) ! i)) out"
| "proactor_enabled _ s \<longleftrightarrow> True"

fun proactor_act :: "kernel \<Rightarrow> pact \<Rightarrow> psys \<Rightarrow> psys res" where
  "proactor_act K DispatcherRuns s =
     rbind (dispatcher_step K (disp s) (pst s)) (\<lambda>(d, s'). Inr (s\<lparr>pst := s', disp := d\<rparr>))"
| "proactor_act K (WorkerRuns i) s =
     rbind (worker_step K (wpcs s ! i) (pst s)) (\<lambda>(p, s'). Inr (s\<lparr>pst := s', wpcs := (wpcs s)[i := p]\<rparr>))"
| "proactor_act K (KernelFinishes i out r2) s =
     rbind (io_finish buffer_of set_buffer i out r2 (aio_state (pst s)) (mem (pst s))) (\<lambda>(q, w).
       Inr (s\<lparr>pst := (pst s)\<lparr>aio_state := q, mem := w\<rparr>\<rparr>))"
| "proactor_act K SignalArrives s = Inr (s\<lparr>pst := signal_handler (pst s)\<rparr>)"

inductive proactor_reach :: "kernel \<Rightarrow> psys \<Rightarrow> psys \<Rightarrow> bool" for K s0 where
  here: "proactor_reach K s0 s0"
| step: "proactor_reach K s0 s \<Longrightarrow> proactor_enabled a s \<Longrightarrow> proactor_act K a s = Inr s' \<Longrightarrow> proactor_reach K s0 s'"

end
