(* ===== verification/ProactorInv.thy ===== *)
theory ProactorInv
  imports ProactorLoop "HOL-Library.Multiset"
begin

text \<open>
  The invariant of the proactor and how the basic operations keep it.

  \<^item> \<open>heap_inv t H n D\<close>: the heap \<open>H\<close> agrees with the connection table \<open>t\<close>: contexts, handlers
    and table entries refer to each other, an operation refers to a handler and a context that are
    both alive or both freed, and two operations never have the same handler. The operations in
    \<open>D\<close>, which are about to be freed, are exempt from the last clause.
  \<^item> \<open>owns H p pool rest\<close>: the live operations are those of the pool that starts at \<open>p\<close> and those of
    \<open>rest\<close>, each once.
\<close>

section \<open>The heap\<close>

definition op_ok :: "nat \<Rightarrow> (addr \<Rightarrow> pobj option) \<Rightarrow> addr \<Rightarrow> async_operation \<Rightarrow> bool" where
  "op_ok l H n x \<longleftrightarrow> 0 \<le> op_fd x \<and> nat (op_fd x) < l \<and> (\<exists>h c. op_handler x = Ptr h \<and> h < n \<and> c < n
     \<and> (op_type x = OP_READ \<and> op_buffer x = Ptr (c, ReadBuf) \<and> op_size x = 4095
        \<or> op_type x = OP_WRITE \<and> op_buffer x = Ptr (c, WriteBuf) \<and> 6 < unat (op_size x) \<and> unat (op_size x) < 4096)
     \<and> (H h = None \<and> H c = None
        \<or> (\<exists>hx cx. H h = Some (Handler hx) \<and> H c = Some (Ctx cx) \<and> handler_data hx = Ptr c
             \<and> ctx_handler cx = Ptr h \<and> ctx_fd cx = op_fd x
             \<and> (op_type x = OP_WRITE \<longrightarrow> take (unat (op_size x)) (ctx_write_buf cx)
                  = echo_prefix @ take (unat (op_size x) - 6) (ctx_read_buf cx)))))"

definition ctx_ok :: "addr ptr list \<Rightarrow> (addr \<Rightarrow> pobj option) \<Rightarrow> addr \<Rightarrow> connection_ctx \<Rightarrow> bool" where
  "ctx_ok t H c x \<longleftrightarrow> 0 \<le> ctx_fd x \<and> nat (ctx_fd x) < length t \<and> t ! nat (ctx_fd x) = Ptr c \<and> ctx_proactor x
     \<and> length (ctx_read_buf x) = 4096 \<and> length (ctx_write_buf x) = 4096
     \<and> (\<exists>h. ctx_handler x = Ptr h \<and> H h = Some (Handler \<lparr>handle_read = Ptr HandleReadCompletion,
          handle_write = Ptr HandleWriteCompletion, handle_error = Ptr HandleErrorCompletion,
          handler_data = Ptr c\<rparr>))"

definition handler_ok :: "(addr \<Rightarrow> pobj option) \<Rightarrow> addr \<Rightarrow> completion_handler \<Rightarrow> bool" where
  "handler_ok H h x \<longleftrightarrow> (\<exists>c cx. handler_data x = Ptr c \<and> H c = Some (Ctx cx) \<and> ctx_handler cx = Ptr h)"

definition table_ok :: "addr ptr list \<Rightarrow> (addr \<Rightarrow> pobj option) \<Rightarrow> bool" where
  "table_ok t H \<longleftrightarrow> (\<forall>i c. i < length t \<longrightarrow> t ! i = Ptr c \<longrightarrow> (\<exists>cx. H c = Some (Ctx cx) \<and> ctx_fd cx = int i))"

definition heap_inv :: "addr ptr list \<Rightarrow> (addr \<Rightarrow> pobj option) \<Rightarrow> addr \<Rightarrow> addr set \<Rightarrow> bool" where
  "heap_inv t H n D \<longleftrightarrow> table_ok t H
     \<and> (\<forall>a v. H a = Some v \<longrightarrow> a < n)
     \<and> (\<forall>a x. H a = Some (Op x) \<longrightarrow> op_ok (length t) H n x)
     \<and> (\<forall>c x. H c = Some (Ctx x) \<longrightarrow> ctx_ok t H c x)
     \<and> (\<forall>h x. H h = Some (Handler x) \<longrightarrow> handler_ok H h x)
     \<and> (\<forall>a b x y. H a = Some (Op x) \<longrightarrow> H b = Some (Op y) \<longrightarrow> a \<notin> D \<longrightarrow> b \<notin> D \<longrightarrow> op_handler x = op_handler y
          \<longrightarrow> a = b)"

lemma heap_invD:
  assumes "heap_inv t H n D"
  shows "table_ok t H" and "H a = Some v \<Longrightarrow> a < n" and "H a = Some (Op x) \<Longrightarrow> op_ok (length t) H n x"
    and "H c = Some (Ctx cx) \<Longrightarrow> ctx_ok t H c cx" and "H h = Some (Handler hx) \<Longrightarrow> handler_ok H h hx"
    and "H a = Some (Op x) \<Longrightarrow> H b = Some (Op y) \<Longrightarrow> a \<notin> D \<Longrightarrow> b \<notin> D \<Longrightarrow> op_handler x = op_handler y \<Longrightarrow> a = b"
  using assms by (auto simp: heap_inv_def)

lemma heap_invI:
  assumes "table_ok t H" and "\<And>a v. H a = Some v \<Longrightarrow> a < n" and "\<And>a x. H a = Some (Op x) \<Longrightarrow> op_ok (length t) H n x"
    and "\<And>c cx. H c = Some (Ctx cx) \<Longrightarrow> ctx_ok t H c cx" and "\<And>h hx. H h = Some (Handler hx) \<Longrightarrow> handler_ok H h hx"
    and "\<And>a b x y. H a = Some (Op x) \<Longrightarrow> H b = Some (Op y) \<Longrightarrow> a \<notin> D \<Longrightarrow> b \<notin> D \<Longrightarrow> op_handler x = op_handler y
           \<Longrightarrow> a = b"
  shows "heap_inv t H n D"
  unfolding heap_inv_def by (intro conjI allI impI; (rule assms(1) | rule assms(2-6); assumption))

lemma heap_inv_mono:
  assumes inv: "heap_inv t H n D" and sub: "D \<subseteq> E"
  shows "heap_inv t H n E"
proof (rule heap_invI)
  show "a = b" if "H a = Some (Op x)" "H b = Some (Op y)" "a \<notin> E" "b \<notin> E" "op_handler x = op_handler y" for a b x y
    by (rule heap_invD(6) [OF inv that(1, 2) _ _ that(5)]) (use that sub in auto)
qed (rule heap_invD [OF inv]; assumption)+

lemma heap_inv_unused: "heap_inv t H n D \<Longrightarrow> n \<le> a \<Longrightarrow> H a = None"
  using heap_invD(2) [of t H n D a] by (cases "H a") auto

text \<open>The context, the handler and the table entry of a live connection.\<close>

lemma ctx_facts:
  assumes "heap_inv t H n D" and "H c = Some (Ctx x)"
  obtains h where "ctx_handler x = Ptr h" and "H h = Some (Handler \<lparr>handle_read = Ptr HandleReadCompletion,
      handle_write = Ptr HandleWriteCompletion, handle_error = Ptr HandleErrorCompletion, handler_data = Ptr c\<rparr>)"
    and "0 \<le> ctx_fd x" and "nat (ctx_fd x) < length t" and "t ! nat (ctx_fd x) = Ptr c" and "ctx_proactor x"
    and "length (ctx_read_buf x) = 4096" and "length (ctx_write_buf x) = 4096"
  using heap_invD(4) [OF assms] by (auto simp: ctx_ok_def)

lemma table_facts:
  assumes "heap_inv t H n D" and "i < length t" and "t ! i = Ptr c"
  obtains x where "H c = Some (Ctx x)" and "ctx_fd x = int i"
  using heap_invD(1) [OF assms(1)] assms(2, 3) by (auto simp: table_ok_def)

subsection \<open>Changes of operations\<close>

text \<open>Blocks of operations do not matter to contexts, handlers and the table.\<close>

definition same_conns :: "(addr \<Rightarrow> pobj option) \<Rightarrow> (addr \<Rightarrow> pobj option) \<Rightarrow> bool" where
  "same_conns H H' \<longleftrightarrow> (\<forall>a. H' a = H a \<or> (\<exists>x. H a = Some (Op x)) \<and> (H' a = None \<or> (\<exists>y. H' a = Some (Op y)))
       \<or> H a = None \<and> (\<exists>y. H' a = Some (Op y)))"

lemma same_connsD:
  assumes "same_conns H H'"
  shows "H' a = Some (Ctx x) \<longleftrightarrow> H a = Some (Ctx x)" and "H' a = Some (Handler y) \<longleftrightarrow> H a = Some (Handler y)"
  using assms [unfolded same_conns_def, rule_format, of a] by auto

lemma same_conns_ok:
  assumes s: "same_conns H H'"
  shows "table_ok t H' = table_ok t H" and "ctx_ok t H' c cx = ctx_ok t H c cx" and "handler_ok H' h hx = handler_ok H h hx"
  by (simp_all add: table_ok_def ctx_ok_def handler_ok_def same_connsD [OF s])

text \<open>An operation stays right when only blocks of other operations, not a handler or a context it refers to, change.\<close>

lemma op_ok_frame:
  assumes ok: "op_ok l H n x" and le: "n \<le> n'"
    and same: "\<And>a. a < n \<Longrightarrow> H a = None \<Longrightarrow> H' a = None" "\<And>a v. H a = Some (Ctx v) \<Longrightarrow> H' a = Some (Ctx v)"
      "\<And>a v. H a = Some (Handler v) \<Longrightarrow> H' a = Some (Handler v)"
  shows "op_ok l H' n' x"
proof -
  obtain h c where hc: "op_handler x = Ptr h" "h < n" "c < n"
      "op_type x = OP_READ \<and> op_buffer x = Ptr (c, ReadBuf) \<and> op_size x = 4095
        \<or> op_type x = OP_WRITE \<and> op_buffer x = Ptr (c, WriteBuf) \<and> 6 < unat (op_size x) \<and> unat (op_size x) < 4096"
      and alive: "H h = None \<and> H c = None
        \<or> (\<exists>hx cx. H h = Some (Handler hx) \<and> H c = Some (Ctx cx) \<and> handler_data hx = Ptr c
             \<and> ctx_handler cx = Ptr h \<and> ctx_fd cx = op_fd x
             \<and> (op_type x = OP_WRITE \<longrightarrow> take (unat (op_size x)) (ctx_write_buf cx)
                  = echo_prefix @ take (unat (op_size x) - 6) (ctx_read_buf cx)))"
    and fd: "0 \<le> op_fd x" "nat (op_fd x) < l"
    using ok unfolding op_ok_def by blast
  have alive': "H' h = None \<and> H' c = None
        \<or> (\<exists>hx cx. H' h = Some (Handler hx) \<and> H' c = Some (Ctx cx) \<and> handler_data hx = Ptr c
             \<and> ctx_handler cx = Ptr h \<and> ctx_fd cx = op_fd x
             \<and> (op_type x = OP_WRITE \<longrightarrow> take (unat (op_size x)) (ctx_write_buf cx)
                  = echo_prefix @ take (unat (op_size x) - 6) (ctx_read_buf cx)))"
    using alive same(1) [OF hc(2)] same(1) [OF hc(3)] same(2, 3) by blast
  show ?thesis
    unfolding op_ok_def using fd hc(1, 4) alive' less_le_trans [OF hc(2) le] less_le_trans [OF hc(3) le] by blast
qed

text \<open>The fields that the invariant reads.\<close>

definition same_op :: "async_operation \<Rightarrow> async_operation \<Rightarrow> bool" where
  "same_op x y \<longleftrightarrow> op_type x = op_type y \<and> op_fd x = op_fd y \<and> op_handler x = op_handler y
     \<and> op_buffer x = op_buffer y \<and> op_size x = op_size y \<and> op_offset x = op_offset y"

lemma op_ok_same: "same_op x y \<Longrightarrow> op_ok l H n y \<longleftrightarrow> op_ok l H n x"
  by (simp add: same_op_def op_ok_def)

lemma op_block_same: "same_op x y \<Longrightarrow> op_block a y = op_block a x"
  by (simp add: same_op_def op_block_def)

text \<open>The clauses on connections are kept when only operations change.\<close>

lemma heap_inv_conns:
  assumes inv: "heap_inv t H n D" and sc: "same_conns H H'"
    and "\<And>a v. H' a = Some v \<Longrightarrow> a < n'" and "\<And>a x. H' a = Some (Op x) \<Longrightarrow> op_ok (length t) H' n' x"
    and "\<And>a b x y. H' a = Some (Op x) \<Longrightarrow> H' b = Some (Op y) \<Longrightarrow> a \<notin> E \<Longrightarrow> b \<notin> E \<Longrightarrow> op_handler x = op_handler y
           \<Longrightarrow> a = b"
  shows "heap_inv t H' n' E"
proof (rule heap_invI)
  note sc_ok = same_conns_ok [OF sc] and inv_facts = heap_invD [OF inv]
  show "table_ok t H'" unfolding sc_ok by (rule inv_facts(1))
  show "ctx_ok t H' c cx" if "H' c = Some (Ctx cx)" for c cx
    using that unfolding sc_ok same_connsD [OF sc] by (rule inv_facts(4))
  show "handler_ok H' h hx" if "H' h = Some (Handler hx)" for h hx
    using that unfolding sc_ok same_connsD [OF sc] by (rule inv_facts(5))
qed (rule assms(3-5); assumption)+

lemma heap_inv_skip:
  assumes inv: "heap_inv t H n D"
  shows "heap_inv t H (Suc n) D"
proof (rule heap_inv_conns [OF inv])
  note inv_facts = heap_invD [OF inv]
  show "same_conns H H" by (simp add: same_conns_def)
  show "a < Suc n" if "H a = Some v" for a v using inv_facts(2) [OF that] by simp
  show "op_ok (length t) H (Suc n) x" if "H a = Some (Op x)" for a x
    by (rule op_ok_frame [OF inv_facts(3) [OF that]]) auto
qed (rule heap_invD(6) [OF inv]; assumption)

lemma heap_inv_op_update:
  assumes inv: "heap_inv t H n D" and a: "H a = Some (Op x)" and same: "same_op x y"
  shows "heap_inv t (H(a \<mapsto> Op y)) n D"
proof (rule heap_inv_conns [OF inv])
  let ?H = "H(a \<mapsto> Op y)"
  note inv_facts = heap_invD [OF inv]
  show "same_conns H ?H" using a by (auto simp: same_conns_def)
  show "b < n" if "?H b = Some v" for b v using that inv_facts(2) a by (auto split: if_splits)
  have frame: "op_ok (length t) ?H n z" if "op_ok (length t) H n z" for z
    by (rule op_ok_frame [OF that]) (use a in auto)
  show "op_ok (length t) ?H n z" if z: "?H b = Some (Op z)" for b z
  proof (cases "b = a")
    case True
    then show ?thesis using z frame [OF inv_facts(3) [OF a]] op_ok_same [OF same] by simp
  next
    case False
    then show ?thesis using z frame [OF inv_facts(3)] by simp
  qed
  have handler: "op_handler y = op_handler x" using same by (simp add: same_op_def)
  have old: "\<exists>z. H b = Some (Op z) \<and> op_handler z = op_handler u" if "?H b = Some (Op u)" for b u
    using that a handler by (cases "b = a") auto
  show "b = d" if u: "?H b = Some (Op u)" and v: "?H d = Some (Op v)" and nD: "b \<notin> D" "d \<notin> D"
      and eq: "op_handler u = op_handler v" for b d u v
    using old [OF u] old [OF v] inv_facts(6) [OF _ _ nD] eq by metis
qed

lemma heap_inv_op_free:
  assumes inv: "heap_inv t H n D" and a: "H a = Some (Op x)"
  shows "heap_inv t (H(a := None)) n (D - {a})"
proof (rule heap_inv_conns [OF inv])
  let ?H = "H(a := None)"
  note inv_facts = heap_invD [OF inv]
  show "same_conns H ?H" using a by (auto simp: same_conns_def)
  show "b < n" if "?H b = Some v" for b v using that inv_facts(2) by (auto split: if_splits)
  show "op_ok (length t) ?H n z" if z: "?H b = Some (Op z)" for b z
  proof (rule op_ok_frame)
    show "op_ok (length t) H n z" using z by (intro inv_facts(3) [of b]) (auto split: if_splits)
  qed (use a in auto)
  show "b = d" if u: "?H b = Some (Op u)" and v: "?H d = Some (Op v)" and nD: "b \<notin> D - {a}" "d \<notin> D - {a}"
      and eq: "op_handler u = op_handler v" for b d u v
    by (rule inv_facts(6) [OF _ _ _ _ eq]) (use u v nD in \<open>auto split: if_splits\<close>)
qed

lemma heap_inv_op_alloc:
  assumes inv: "heap_inv t H n D" and ok: "op_ok (length t) H n y"
    and new: "\<And>b z. H b = Some (Op z) \<Longrightarrow> b \<notin> D \<Longrightarrow> op_handler z \<noteq> op_handler y"
  shows "heap_inv t (H(n \<mapsto> Op y)) (Suc n) D"
proof (rule heap_inv_conns [OF inv])
  let ?H = "H(n \<mapsto> Op y)"
  note inv_facts = heap_invD [OF inv]
  have n: "H n = None" by (rule heap_inv_unused [OF inv]) simp
  show "same_conns H ?H" using n by (auto simp: same_conns_def)
  show "b < Suc n" if "?H b = Some v" for b v
    using that inv_facts(2) [of b] by (auto split: if_splits intro: less_SucI)
  have frame: "op_ok (length t) ?H (Suc n) z" if "op_ok (length t) H n z" for z
    by (rule op_ok_frame [OF that]) (use n in auto)
  show "op_ok (length t) ?H (Suc n) z" if z: "?H b = Some (Op z)" for b z
  proof (cases "b = n")
    case True
    then show ?thesis using z frame [OF ok] by simp
  next
    case False
    then show ?thesis using z frame [OF inv_facts(3)] by simp
  qed
  show "b = d" if u: "?H b = Some (Op u)" and v: "?H d = Some (Op v)" and nD: "b \<notin> D" "d \<notin> D"
      and eq: "op_handler u = op_handler v" for b d u v
  proof (cases "b = n \<or> d = n")
    case True
    then show ?thesis using u v nD eq new [of b u] new [of d v] by (auto split: if_splits)
  next
    case False
    then show ?thesis using u v by (intro inv_facts(6) [OF _ _ nD eq]) auto
  qed
qed

subsection \<open>Changes of connections\<close>

abbreviation std_handler :: "addr \<Rightarrow> completion_handler" where
  "std_handler c \<equiv> \<lparr>handle_read = Ptr HandleReadCompletion, handle_write = Ptr HandleWriteCompletion,
     handle_error = Ptr HandleErrorCompletion, handler_data = Ptr c\<rparr>"

text \<open>The uses that an operation makes of a handler and a context.\<close>

lemma op_ok_cases:
  assumes "op_ok l H n x"
  obtains h c where "op_handler x = Ptr h" and "h < n" and "c < n" and "0 \<le> op_fd x" and "nat (op_fd x) < l"
      and "op_type x = OP_READ \<and> op_buffer x = Ptr (c, ReadBuf) \<and> op_size x = 4095
        \<or> op_type x = OP_WRITE \<and> op_buffer x = Ptr (c, WriteBuf) \<and> 6 < unat (op_size x) \<and> unat (op_size x) < 4096"
      and "H h = None \<and> H c = None
        \<or> (\<exists>hx cx. H h = Some (Handler hx) \<and> H c = Some (Ctx cx) \<and> handler_data hx = Ptr c
             \<and> ctx_handler cx = Ptr h \<and> ctx_fd cx = op_fd x
             \<and> (op_type x = OP_WRITE \<longrightarrow> take (unat (op_size x)) (ctx_write_buf cx)
                  = echo_prefix @ take (unat (op_size x) - 6) (ctx_read_buf cx)))"
  using assms unfolding op_ok_def by blast

lemma op_okI:
  assumes "op_handler x = Ptr h" and "h < n" and "c < n" and "0 \<le> op_fd x" and "nat (op_fd x) < l"
      and "op_type x = OP_READ \<and> op_buffer x = Ptr (c, ReadBuf) \<and> op_size x = 4095
        \<or> op_type x = OP_WRITE \<and> op_buffer x = Ptr (c, WriteBuf) \<and> 6 < unat (op_size x) \<and> unat (op_size x) < 4096"
      and "H h = None \<and> H c = None
        \<or> (\<exists>hx cx. H h = Some (Handler hx) \<and> H c = Some (Ctx cx) \<and> handler_data hx = Ptr c
             \<and> ctx_handler cx = Ptr h \<and> ctx_fd cx = op_fd x
             \<and> (op_type x = OP_WRITE \<longrightarrow> take (unat (op_size x)) (ctx_write_buf cx)
                  = echo_prefix @ take (unat (op_size x) - 6) (ctx_read_buf cx)))"
  shows "op_ok l H n x"
  unfolding op_ok_def using assms by blast

text \<open>A handler determines its context and the other way round.\<close>

lemma handler_of_ctx:
  assumes "heap_inv t H n D" and "H c = Some (Ctx x)" and "ctx_handler x = Ptr h"
  shows "H h = Some (Handler (std_handler c))"
  using ctx_facts [OF assms(1, 2)] assms(3) by (metis ptr.inject)

lemma ctx_of_handler:
  assumes "heap_inv t H n D" and "H h = Some (Handler x)"
  obtains c cx where "handler_data x = Ptr c" and "H c = Some (Ctx cx)" and "ctx_handler cx = Ptr h"
    and "x = std_handler c"
proof -
  obtain c cx where c: "handler_data x = Ptr c" "H c = Some (Ctx cx)" "ctx_handler cx = Ptr h"
    using heap_invD(5) [OF assms] by (auto simp: handler_ok_def)
  have "x = std_handler c" using handler_of_ctx [OF assms(1) c(2, 3)] assms(2) by simp
  with c show ?thesis by (rule that)
qed

lemma heap_inv_conn_free:
  assumes inv: "heap_inv t H n D" and c: "H c = Some (Ctx x)" and h: "ctx_handler x = Ptr h"
  shows "heap_inv (t[nat (ctx_fd x) := NULL]) (H(h := None, c := None)) n D"
proof (rule heap_invI)
  let ?H = "H(h := None, c := None)" and ?t = "t[nat (ctx_fd x) := NULL]"
  note inv_facts = heap_invD [OF inv]
  have hh: "H h = Some (Handler (std_handler c))" by (rule handler_of_ctx [OF inv c h])
  have hc: "h \<noteq> c" using hh c by auto
  obtain fd: "0 \<le> ctx_fd x" "nat (ctx_fd x) < length t" "t ! nat (ctx_fd x) = Ptr c"
    by (rule ctx_facts [OF inv c])
  show "table_ok ?t ?H"
    unfolding table_ok_def
  proof (intro allI impI)
    fix i d assume i: "i < length ?t" "?t ! i = Ptr d"
    then have ne: "i \<noteq> nat (ctx_fd x)" by (cases "i = nat (ctx_fd x)") auto
    then have "t ! i = Ptr d" "i < length t" using i by auto
    then obtain y where y: "H d = Some (Ctx y)" "ctx_fd y = int i" using table_facts [OF inv] by metis
    have "d \<noteq> c" using y c ne by auto
    moreover have "d \<noteq> h" using y hh by auto
    ultimately show "\<exists>cx. ?H d = Some (Ctx cx) \<and> ctx_fd cx = int i" using y by simp
  qed
  show "a < n" if "?H a = Some v" for a v using that inv_facts(2) by (auto split: if_splits)
  show "ctx_ok ?t ?H d y" if "?H d = Some (Ctx y)" for d y
  proof -
    have d: "d \<noteq> c" "d \<noteq> h" "H d = Some (Ctx y)" using that by (auto split: if_splits)
    obtain h' where y: "ctx_handler y = Ptr h'" "H h' = Some (Handler (std_handler d))"
        "0 \<le> ctx_fd y" "nat (ctx_fd y) < length t" "t ! nat (ctx_fd y) = Ptr d" "ctx_proactor y"
        "length (ctx_read_buf y) = 4096" "length (ctx_write_buf y) = 4096"
      by (rule ctx_facts [OF inv d(3)])
    have "h' \<noteq> c" "h' \<noteq> h" using y(2) c hh d(1) by auto
    moreover have "nat (ctx_fd y) \<noteq> nat (ctx_fd x)" using y(5) fd(3) d(1) by auto
    ultimately show ?thesis using y by (simp add: ctx_ok_def)
  qed
  show "handler_ok ?H g y" if "?H g = Some (Handler y)" for g y
  proof -
    have g: "g \<noteq> h" "g \<noteq> c" "H g = Some (Handler y)" using that by (auto split: if_splits)
    obtain d cx where d: "handler_data y = Ptr d" "H d = Some (Ctx cx)" "ctx_handler cx = Ptr g"
      by (rule ctx_of_handler [OF inv g(3)])
    have "d \<noteq> c" "d \<noteq> h" using d c h g(1) hh by auto
    then show ?thesis using d by (auto simp: handler_ok_def)
  qed
  show "op_ok (length ?t) ?H n z" if "?H a = Some (Op z)" for a z
  proof -
    have a: "H a = Some (Op z)" using that by (auto split: if_splits)
    from inv_facts(3) [OF a] show ?thesis
    proof (rule op_ok_cases)
      fix g d
      assume u: "op_handler z = Ptr g" "g < n" "d < n" "0 \<le> op_fd z" "nat (op_fd z) < length t"
          "op_type z = OP_READ \<and> op_buffer z = Ptr (d, ReadBuf) \<and> op_size z = 4095
            \<or> op_type z = OP_WRITE \<and> op_buffer z = Ptr (d, WriteBuf) \<and> 6 < unat (op_size z) \<and> unat (op_size z) < 4096"
        and alive: "H g = None \<and> H d = None
        \<or> (\<exists>hx cx. H g = Some (Handler hx) \<and> H d = Some (Ctx cx) \<and> handler_data hx = Ptr d
             \<and> ctx_handler cx = Ptr g \<and> ctx_fd cx = op_fd z
             \<and> (op_type z = OP_WRITE \<longrightarrow> take (unat (op_size z)) (ctx_write_buf cx)
                  = echo_prefix @ take (unat (op_size z) - 6) (ctx_read_buf cx)))"
      have "g = h \<longleftrightarrow> d = c"
        using alive hh c h by auto
      moreover have "g \<noteq> c" "d \<noteq> h" using alive hh c by auto
      ultimately show "op_ok (length ?t) ?H n z"
        using u alive by (intro op_okI [of z g n d]) auto
    qed
  qed
  show "a = b" if "?H a = Some (Op u)" "?H b = Some (Op v)" "a \<notin> D" "b \<notin> D" "op_handler u = op_handler v" for a b u v
    by (rule inv_facts(6) [OF _ _ that(3-5)]) (use that in \<open>auto split: if_splits\<close>)
qed

lemma heap_inv_conn_new:
  assumes inv: "heap_inv t H n D" and f: "0 \<le> f" "nat f < length t" and free: "t ! nat f = NULL"
    and x: "x = zero_ctx\<lparr>ctx_fd := f, ctx_proactor := True, ctx_handler := Ptr (Suc n)\<rparr>"
  shows "heap_inv (t[nat f := Ptr n]) (H(n \<mapsto> Ctx x, Suc n \<mapsto> Handler (std_handler n))) (Suc (Suc n)) D"
proof (rule heap_invI)
  let ?H = "H(n \<mapsto> Ctx x, Suc n \<mapsto> Handler (std_handler n))" and ?t = "t[nat f := Ptr n]"
  note inv_facts = heap_invD [OF inv]
  have n: "H n = None" "H (Suc n) = None" by (rule heap_inv_unused [OF inv]; simp)+
  have old: "?H a = Some v" if "H a = Some v" for a v using that n by auto
  show "table_ok ?t ?H"
    unfolding table_ok_def
  proof (intro allI impI)
    fix i d assume i: "i < length ?t" "?t ! i = Ptr d"
    show "\<exists>cx. ?H d = Some (Ctx cx) \<and> ctx_fd cx = int i"
    proof (cases "i = nat f")
      case True
      then show ?thesis using i f x by (simp add: zero_ctx_def)
    next
      case False
      then have "t ! i = Ptr d" "i < length t" using i by auto
      then obtain y where "H d = Some (Ctx y)" "ctx_fd y = int i" using table_facts [OF inv] by metis
      then show ?thesis using old by blast
    qed
  qed
  show "a < Suc (Suc n)" if "?H a = Some v" for a v
    using that inv_facts(2) [of a] by (auto split: if_splits intro: less_SucI)
  show "ctx_ok ?t ?H d y" if y: "?H d = Some (Ctx y)" for d y
  proof (cases "d = n")
    case True
    have "y = x" using y True by simp
    then show ?thesis using f unfolding True x by (simp add: ctx_ok_def zero_ctx_def)
  next
    case False
    then have d: "H d = Some (Ctx y)" using y by (auto split: if_splits)
    obtain h' where y': "ctx_handler y = Ptr h'" "H h' = Some (Handler (std_handler d))"
        "0 \<le> ctx_fd y" "nat (ctx_fd y) < length t" "t ! nat (ctx_fd y) = Ptr d" "ctx_proactor y"
        "length (ctx_read_buf y) = 4096" "length (ctx_write_buf y) = 4096"
      by (rule ctx_facts [OF inv d])
    have "nat (ctx_fd y) \<noteq> nat f" using y'(5) free by auto
    then show ?thesis using y' old [OF y'(2)] by (auto simp: ctx_ok_def)
  qed
  show "handler_ok ?H g y" if y: "?H g = Some (Handler y)" for g y
  proof (cases "g = Suc n")
    case True
    have "handler_data y = Ptr n" "?H n = Some (Ctx x)" using y True by auto
    then show ?thesis unfolding True handler_ok_def using x by (intro exI [of _ n] exI [of _ x]) simp
  next
    case False
    then have "H g = Some (Handler y)" using y by (auto split: if_splits)
    then show ?thesis using inv_facts(5) old unfolding handler_ok_def by blast
  qed
  show "op_ok (length ?t) ?H (Suc (Suc n)) z" if z: "?H a = Some (Op z)" for a z
  proof -
    have a: "H a = Some (Op z)" using z by (auto split: if_splits)
    have "op_ok (length t) ?H (Suc (Suc n)) z"
      by (rule op_ok_frame [OF inv_facts(3) [OF a]]) (use n in auto)
    then show ?thesis by simp
  qed
  show "a = b" if "?H a = Some (Op u)" "?H b = Some (Op v)" "a \<notin> D" "b \<notin> D" "op_handler u = op_handler v" for a b u v
    by (rule inv_facts(6) [OF _ _ that(3-5)]) (use that in \<open>auto split: if_splits\<close>)
qed

text \<open>The buffers of a context change; the echo that a write operation sends must stay in place.\<close>

lemma heap_inv_buffers:
  assumes inv: "heap_inv t H n D" and c: "H c = Some (Ctx x)"
    and y: "y = x\<lparr>ctx_read_buf := rb, ctx_write_buf := wb\<rparr>" and len: "length rb = 4096" "length wb = 4096"
    and keep: "\<And>a z. H a = Some (Op z) \<Longrightarrow> op_handler z = ctx_handler x \<Longrightarrow> op_type z = OP_WRITE \<Longrightarrow>
      take (unat (op_size z)) wb = echo_prefix @ take (unat (op_size z) - 6) rb"
  shows "heap_inv t (H(c \<mapsto> Ctx y)) n D"
proof (rule heap_invI)
  let ?H = "H(c \<mapsto> Ctx y)"
  note inv_facts = heap_invD [OF inv]
  have same: "ctx_fd y = ctx_fd x" "ctx_handler y = ctx_handler x" "ctx_proactor y = ctx_proactor x"
    using y by simp_all
  show "table_ok t ?H"
    using inv_facts(1) c same by (auto simp: table_ok_def)
  show "a < n" if "?H a = Some v" for a v using that inv_facts(2) c by (auto split: if_splits)
  show "ctx_ok t ?H d z" if z: "?H d = Some (Ctx z)" for d z
  proof (cases "d = c")
    case True
    have zy: "z = y" using z True by simp
    obtain h where h: "ctx_handler x = Ptr h" "H h = Some (Handler (std_handler c))"
        "0 \<le> ctx_fd x" "nat (ctx_fd x) < length t" "t ! nat (ctx_fd x) = Ptr c" "ctx_proactor x"
      by (rule ctx_facts [OF inv c])
    have "h \<noteq> c" using h(2) c by auto
    then show ?thesis using h same len True y zy by (simp add: ctx_ok_def)
  next
    case False
    then have "H d = Some (Ctx z)" using z by simp
    then show ?thesis using inv_facts(4) c unfolding ctx_ok_def by (metis fun_upd_other pobj.distinct(5) option.inject)
  qed
  show "handler_ok ?H g z" if z: "?H g = Some (Handler z)" for g z
  proof -
    have "H g = Some (Handler z)" using z by (auto split: if_splits)
    then obtain d cx where d: "handler_data z = Ptr d" "H d = Some (Ctx cx)" "ctx_handler cx = Ptr g"
      by (rule ctx_of_handler [OF inv])
    then show ?thesis using c same by (cases "d = c") (auto simp: handler_ok_def)
  qed
  show "op_ok (length t) ?H n z" if z: "?H a = Some (Op z)" for a z
  proof -
    have a: "H a = Some (Op z)" using z by (auto split: if_splits)
    from inv_facts(3) [OF a] show ?thesis
    proof (rule op_ok_cases)
      fix g d
      assume u: "op_handler z = Ptr g" "g < n" "d < n" "0 \<le> op_fd z" "nat (op_fd z) < length t"
          "op_type z = OP_READ \<and> op_buffer z = Ptr (d, ReadBuf) \<and> op_size z = 4095
            \<or> op_type z = OP_WRITE \<and> op_buffer z = Ptr (d, WriteBuf) \<and> 6 < unat (op_size z) \<and> unat (op_size z) < 4096"
        and alive: "H g = None \<and> H d = None
        \<or> (\<exists>hx cx. H g = Some (Handler hx) \<and> H d = Some (Ctx cx) \<and> handler_data hx = Ptr d
             \<and> ctx_handler cx = Ptr g \<and> ctx_fd cx = op_fd z
             \<and> (op_type z = OP_WRITE \<longrightarrow> take (unat (op_size z)) (ctx_write_buf cx)
                  = echo_prefix @ take (unat (op_size z) - 6) (ctx_read_buf cx)))"
      have "g \<noteq> c" using alive c by auto
      show "op_ok (length t) ?H n z"
      proof (cases "d = c")
        case True
        then have "ctx_handler x = Ptr g" "ctx_fd x = op_fd z" "\<exists>hx. H g = Some (Handler hx) \<and> handler_data hx = Ptr c"
          using alive c by auto
        moreover have "op_type z = OP_WRITE \<Longrightarrow>
            take (unat (op_size z)) wb = echo_prefix @ take (unat (op_size z) - 6) rb"
          using keep [OF a] calculation(1) u(1) by simp
        ultimately show ?thesis
          using u True \<open>g \<noteq> c\<close> same y by (intro op_okI [of z g n c]) auto
      next
        case False
        then show ?thesis using u alive \<open>g \<noteq> c\<close> by (intro op_okI [of z g n d]) auto
      qed
    qed
  qed
  show "a = b" if "?H a = Some (Op u)" "?H b = Some (Op v)" "a \<notin> D" "b \<notin> D" "op_handler u = op_handler v" for a b u v
    by (rule inv_facts(6) [OF _ _ that(3-5)]) (use that in \<open>auto split: if_splits\<close>)
qed

section \<open>Ownership\<close>

definition next_of :: "(addr \<Rightarrow> pobj option) \<Rightarrow> addr \<Rightarrow> addr ptr option" where
  "next_of H a = (case H a of Some (Op x) \<Rightarrow> Some (op_next x) | _ \<Rightarrow> None)"

definition live_ops :: "(addr \<Rightarrow> pobj option) \<Rightarrow> addr set" where
  "live_ops H = {a. \<exists>x. H a = Some (Op x)}"

definition owns :: "(addr \<Rightarrow> pobj option) \<Rightarrow> addr ptr \<Rightarrow> addr list \<Rightarrow> addr list \<Rightarrow> bool" where
  "owns H p pool rest \<longleftrightarrow> linked (next_of H) p pool \<and> distinct (pool @ rest) \<and> set (pool @ rest) = live_ops H"

lemma owns_perm: "owns H p pool rest \<Longrightarrow> mset rest = mset rest' \<Longrightarrow> owns H p pool rest'"
  unfolding owns_def
  by (metis distinct_append mset_eq_imp_distinct_iff mset_eq_setD set_append)

text \<open>Blocks of other kinds do not matter.\<close>

definition same_ops :: "(addr \<Rightarrow> pobj option) \<Rightarrow> (addr \<Rightarrow> pobj option) \<Rightarrow> bool" where
  "same_ops H H' \<longleftrightarrow> (\<forall>a x. H' a = Some (Op x) \<longleftrightarrow> H a = Some (Op x))"

lemma next_of_Some: "next_of H a = Some q \<longleftrightarrow> (\<exists>x. H a = Some (Op x) \<and> q = op_next x)"
  by (auto simp: next_of_def split: option.splits pobj.splits)

lemma next_of_same:
  assumes "same_ops H H'"
  shows "next_of H' a = next_of H a"
proof -
  have "next_of H' a = Some q \<longleftrightarrow> next_of H a = Some q" for q
    using assms by (simp add: same_ops_def next_of_Some)
  then show ?thesis by (metis not_None_eq)
qed

lemma owns_same: "same_ops H H' \<Longrightarrow> owns H' p pool rest \<longleftrightarrow> owns H p pool rest"
  using next_of_same [of H H'] linked_cong [of pool "next_of H'" "next_of H" p]
  by (simp add: owns_def live_ops_def same_ops_def)

lemma owns_live: "owns H p pool rest \<Longrightarrow> a \<in> set pool \<or> a \<in> set rest \<longleftrightarrow> (\<exists>x. H a = Some (Op x))"
  by (auto simp: owns_def live_ops_def)

lemma next_of_upd: "next_of (H(a \<mapsto> Op y)) b = (if b = a then Some (op_next y) else next_of H b)"
  by (simp add: next_of_def)

lemma live_ops_upd: "live_ops (H(a \<mapsto> Op y)) = insert a (live_ops H)"
  by (auto simp: live_ops_def)

text \<open>The operation at the head of the rest enters the pool, is freed, is updated; a new one arrives.\<close>

lemma owns_push:
  assumes "owns H p pool (a # rest)" and "op_next y = p"
  shows "owns (H(a \<mapsto> Op y)) (Ptr a) (a # pool) rest"
proof -
  have link: "linked (next_of H) p pool" and a: "a \<notin> set pool" using assms(1) by (auto simp: owns_def)
  have "linked (next_of (H(a \<mapsto> Op y))) (Ptr a) (a # pool)"
    by (rule linked_push [OF link a]) (simp_all add: next_of_upd assms(2))
  then show ?thesis using assms(1) by (auto simp: owns_def live_ops_upd)
qed

lemma owns_pop:
  assumes "owns H (Ptr a) pool rest"
  obtains x pool' where "pool = a # pool'" and "H a = Some (Op x)" and "owns H (op_next x) pool' (a # rest)"
proof -
  obtain q pool' where q: "pool = a # pool'" "next_of H a = Some q" "linked (next_of H) q pool'"
    using assms by (auto simp: owns_def linked_Ptr)
  then obtain x where x: "H a = Some (Op x)" "q = op_next x"
    by (auto simp: next_of_def split: option.splits pobj.splits)
  have "owns H (op_next x) pool' (a # rest)" using assms q x by (auto simp: owns_def)
  with q(1) x(1) show ?thesis by (rule that)
qed

lemma owns_free:
  assumes "owns H p pool (a # rest)"
  shows "owns (H(a := None)) p pool rest"
proof -
  have a: "a \<notin> set pool" using assms by (auto simp: owns_def)
  have "linked (next_of (H(a := None))) p pool \<longleftrightarrow> linked (next_of H) p pool"
    by (rule linked_cong) (use a in \<open>auto simp: next_of_def\<close>)
  moreover have "live_ops (H(a := None)) = live_ops H - {a}" by (auto simp: live_ops_def)
  ultimately show ?thesis using assms by (auto simp: owns_def)
qed

lemma owns_update:
  assumes "owns H p pool rest" and "a \<in> set rest"
  shows "owns (H(a \<mapsto> Op y)) p pool rest"
proof -
  have a: "a \<notin> set pool" using assms by (auto simp: owns_def)
  have "linked (next_of (H(a \<mapsto> Op y))) p pool \<longleftrightarrow> linked (next_of H) p pool"
    by (rule linked_cong) (use a in \<open>auto simp: next_of_upd\<close>)
  then show ?thesis using assms by (auto simp: owns_def live_ops_upd)
qed

lemma owns_alloc:
  assumes "owns H p pool rest" and "H a = None"
  shows "owns (H(a \<mapsto> Op y)) p pool (a # rest)"
proof -
  have a: "a \<notin> set pool" "a \<notin> set rest" using assms owns_live [of H p pool rest a] by auto
  have "linked (next_of (H(a \<mapsto> Op y))) p pool \<longleftrightarrow> linked (next_of H) p pool"
    by (rule linked_cong) (use a in \<open>auto simp: next_of_upd\<close>)
  then show ?thesis using assms a by (auto simp: owns_def live_ops_upd)
qed

end
