(* ===== verification/ProactorSafety.thy ===== *)
theory ProactorSafety
  imports ProactorInv
begin

text \<open>
  Every function of the proactor keeps the invariant and faults only on a stale operation.

  \<^item> \<open>pinv s rest D\<close>: the invariant of \<open>ProactorInv\<close> for a state whose operations outside the pool
    are \<open>rest\<close>.
  \<^item> \<open>keeps s rest D s'\<close>: the invariant holds of \<open>s'\<close>, and \<open>s'\<close> differs from \<open>s\<close> neither in the
    operations of \<open>rest\<close> nor in the AIO context and the descriptors of the proactor.
\<close>

section \<open>The invariant of a state\<close>

definition pinv :: "pstate \<Rightarrow> addr list \<Rightarrow> addr set \<Rightarrow> bool" where
  "pinv s rest D \<longleftrightarrow> (\<exists>t pool. ctx_table (pro s) = Ptr t \<and> max_connections (pro s) = int (length t)
     \<and> heap_inv t (heap (mem s)) (next_addr (mem s)) D \<and> owns (heap (mem s)) (pending_ops (pro s)) pool rest)"

definition same_config :: "proactor \<Rightarrow> proactor \<Rightarrow> bool" where
  "same_config p q \<longleftrightarrow> pr_running q = pr_running p \<and> pr_epoll_fd q = pr_epoll_fd p \<and> pr_listen_fd q = pr_listen_fd p
     \<and> pr_exit_event_fd q = pr_exit_event_fd p \<and> max_connections q = max_connections p"

definition keeps :: "pstate \<Rightarrow> addr list \<Rightarrow> addr set \<Rightarrow> pstate \<Rightarrow> bool" where
  "keeps s rest D s' \<longleftrightarrow> pinv s' rest D \<and> aio_state s' = aio_state s \<and> same_config (pro s) (pro s')
     \<and> (\<forall>b\<in>set rest. heap (mem s') b = heap (mem s) b)"

lemma pinvE:
  assumes "pinv s rest D"
  obtains t pool where "ctx_table (pro s) = Ptr t" and "max_connections (pro s) = int (length t)"
    and "heap_inv t (heap (mem s)) (next_addr (mem s)) D" and "owns (heap (mem s)) (pending_ops (pro s)) pool rest"
  using assms by (auto simp: pinv_def)

lemma pinvI:
  assumes "ctx_table (pro s) = Ptr t" and "max_connections (pro s) = int (length t)"
    and "heap_inv t (heap (mem s)) (next_addr (mem s)) D" and "owns (heap (mem s)) (pending_ops (pro s)) pool rest"
  shows "pinv s rest D"
  using assms by (auto simp: pinv_def)

lemma same_config_refl [simp]: "same_config p p"
  by (simp add: same_config_def)

lemma same_config_trans: "same_config p q \<Longrightarrow> same_config q r \<Longrightarrow> same_config p r"
  by (simp add: same_config_def)

lemma same_config_upd [simp]:
  "same_config p (q\<lparr>pending_ops := x\<rparr>) = same_config p q" "same_config p (q\<lparr>ctx_table := y\<rparr>) = same_config p q"
  by (simp_all add: same_config_def)

lemma keeps_refl: "pinv s rest D \<Longrightarrow> keeps s rest D s"
  by (simp add: keeps_def)

lemma keeps_trans:
  "keeps s rest D s1 \<Longrightarrow> keeps s1 rest E s2 \<Longrightarrow> keeps s rest E s2"
  using same_config_trans by (auto simp: keeps_def)

lemma keeps_pinv: "keeps s rest D s' \<Longrightarrow> pinv s' rest D"
  by (simp add: keeps_def)

text \<open>Only the heap and the next address of the world matter.\<close>

definition same_heap :: "('o, 'd) world \<Rightarrow> ('o, 'd) world \<Rightarrow> bool" where
  "same_heap w w' \<longleftrightarrow> heap w' = heap w \<and> next_addr w' = next_addr w"

lemma same_heap_simps [simp]:
  "same_heap w w" "same_heap w (emit e w') = same_heap w w'" "same_heap w (sys_close f w') = same_heap w w'"
  "same_heap w (set_interest ep f v w') = same_heap w w'"
  "same_heap w (snd (sys_epoll_del K ep f w')) = same_heap w w'"
  "same_heap w (snd (sys_epoll_add K ep f d ev w')) = same_heap w w'"
  by (auto simp: same_heap_def sys_epoll_del_def sys_epoll_add_def Let_def)

lemma same_heapD: "same_heap w w' \<Longrightarrow> heap w' = heap w" "same_heap w w' \<Longrightarrow> next_addr w' = next_addr w"
  by (simp_all add: same_heap_def)

lemma pinv_same_heap: "same_heap (mem s) w \<Longrightarrow> pinv (s\<lparr>mem := w\<rparr>) rest D \<longleftrightarrow> pinv s rest D"
  by (simp add: pinv_def same_heap_def)

lemma keeps_same_heap: "pinv s rest D \<Longrightarrow> same_heap (mem s) w \<Longrightarrow> keeps s rest D (s\<lparr>mem := w\<rparr>)"
  by (simp add: keeps_def pinv_same_heap same_heapD)

lemma pinv_perm: "pinv s rest D \<Longrightarrow> mset rest = mset rest' \<Longrightarrow> pinv s rest' D"
  unfolding pinv_def using owns_perm by blast

lemma pinv_mono: "pinv s rest D \<Longrightarrow> D \<subseteq> E \<Longrightarrow> pinv s rest E"
  unfolding pinv_def using heap_inv_mono by blast

lemma pinv_op:
  assumes "pinv s (a # rest) D"
  obtains x where "heap (mem s) a = Some (Op x)"
  using assms by (metis owns_live list.set_intros(1) pinvE)

lemma load_simps [simp]:
  "heap w a = Some (Op x) \<Longrightarrow> load_op a w = Inr x"
  "heap w a = Some (Ctx c) \<Longrightarrow> load_ctx a w = Inr c"
  "heap w a = Some (Handler h) \<Longrightarrow> load_handler a w = Inr h"
  by (simp_all add: load_op_def load_ctx_def load_handler_def)

section \<open>Operations\<close>

lemma submit_run:
  assumes inv: "pinv s (a # rest) D" and O: "owns (heap (mem s)) (pending_ops (pro s)) pool (a # rest)"
  obtains x s' where "heap (mem s) a = Some (Op x)" and "proactor_submit_operation a s = Inr s'" and "keeps s rest D s'"
    and "owns (heap (mem s')) (pending_ops (pro s')) (a # pool) rest"
    and "s' = s\<lparr>mem := put a (Op (x\<lparr>op_next := pending_ops (pro s)\<rparr>)) (mem s), pro := (pro s)\<lparr>pending_ops := Ptr a\<rparr>\<rparr>"
proof -
  obtain t where T: "ctx_table (pro s) = Ptr t" "max_connections (pro s) = int (length t)"
      and H: "heap_inv t (heap (mem s)) (next_addr (mem s)) D"
    using inv by (rule pinvE)
  obtain x where x: "heap (mem s) a = Some (Op x)" using inv by (rule pinv_op)
  let ?y = "x\<lparr>op_next := pending_ops (pro s)\<rparr>"
  let ?s = "s\<lparr>mem := put a (Op ?y) (mem s), pro := (pro s)\<lparr>pending_ops := Ptr a\<rparr>\<rparr>"
  have run: "proactor_submit_operation a s = Inr ?s"
    by (simp add: proactor_submit_operation_def x)
  have "heap_inv t (heap (mem ?s)) (next_addr (mem ?s)) D"
    using heap_inv_op_update [OF H x, of ?y] by (simp add: same_op_def)
  moreover have O': "owns (heap (mem ?s)) (pending_ops (pro ?s)) (a # pool) rest"
    using owns_push [OF O, of ?y] by simp
  ultimately have "pinv ?s rest D" using T by (intro pinvI [of _ t]) auto
  moreover have "a \<notin> set rest" using O by (auto simp: owns_def)
  ultimately have "keeps s rest D ?s" by (auto simp: keeps_def)
  with x run show ?thesis using O' by (rule that [OF _ _ _ _ refl])
qed

lemma submit_ok:
  assumes inv: "pinv s (a # rest) D"
  shows "\<exists>s'. proactor_submit_operation a s = Inr s' \<and> keeps s rest D s'"
proof -
  obtain pool where "owns (heap (mem s)) (pending_ops (pro s)) pool (a # rest)" using inv by (rule pinvE)
  then show ?thesis using submit_run [OF inv] by metis
qed

lemma take_operation_cases:
  assumes inv: "pinv s rest D"
  obtains (empty) "take_operation s = Inr (NULL, s)" and "pending_ops (pro s) = NULL"
  | (got) a s' where "take_operation s = Inr (Ptr a, s')" and "pinv s' (a # rest) D" and "mem s' = mem s" and "aio_state s' = aio_state s"
      and "same_config (pro s) (pro s')"
proof (cases "pending_ops (pro s)")
  case NULL
  then show ?thesis by (intro empty) (simp_all add: take_operation_def)
next
  case (Ptr a)
  obtain t pool where T: "ctx_table (pro s) = Ptr t" "max_connections (pro s) = int (length t)"
      and H: "heap_inv t (heap (mem s)) (next_addr (mem s)) D"
      and O: "owns (heap (mem s)) (pending_ops (pro s)) pool rest"
    using inv by (rule pinvE)
  obtain x pool' where x: "heap (mem s) a = Some (Op x)" "owns (heap (mem s)) (op_next x) pool' (a # rest)"
    by (rule owns_pop [OF O [unfolded Ptr]])
  let ?s = "s\<lparr>pro := (pro s)\<lparr>pending_ops := op_next x\<rparr>\<rparr>"
  show ?thesis
  proof (rule got)
    show "take_operation s = Inr (Ptr a, ?s)" by (simp add: take_operation_def Ptr x)
    show "pinv ?s (a # rest) D" using T H x(2) by (intro pinvI [of _ t]) auto
  qed simp_all
qed

lemma free_ok:
  assumes inv: "pinv s (a # rest) D"
  shows "\<exists>s'. free_op a s = Inr s' \<and> keeps s rest (D - {a}) s'"
proof -
  obtain t pool where T: "ctx_table (pro s) = Ptr t" "max_connections (pro s) = int (length t)"
      and H: "heap_inv t (heap (mem s)) (next_addr (mem s)) D"
      and O: "owns (heap (mem s)) (pending_ops (pro s)) pool (a # rest)"
    using inv by (rule pinvE)
  obtain x where x: "heap (mem s) a = Some (Op x)" using inv by (rule pinv_op)
  let ?s = "s\<lparr>mem := emit (SysFree a) (mem s\<lparr>heap := (heap (mem s))(a := None)\<rparr>)\<rparr>"
  have "free_op a s = Inr ?s" by (simp add: free_op_def x)
  moreover have "pinv ?s rest (D - {a})"
    using T heap_inv_op_free [OF H x] owns_free [OF O] by (intro pinvI [of _ t]) auto
  moreover have "a \<notin> set rest" using O by (auto simp: owns_def)
  ultimately show ?thesis by (auto simp: keeps_def)
qed

text \<open>A new operation for a context enters the pool.\<close>

lemma new_op_ok:
  assumes inv: "pinv s rest D"
    and ok: "\<And>t. ctx_table (pro s) = Ptr t \<Longrightarrow> heap_inv t (heap (mem s)) (next_addr (mem s)) D \<Longrightarrow>
               op_ok (length t) (heap (mem s)) (next_addr (mem s)) y"
    and new: "\<And>b z. heap (mem s) b = Some (Op z) \<Longrightarrow> b \<notin> D \<Longrightarrow> op_handler z \<noteq> op_handler y"
    and w: "heap w = (heap (mem s))(next_addr (mem s) \<mapsto> Op y)" "next_addr w = Suc (next_addr (mem s))"
  shows "\<exists>s'. proactor_submit_operation (next_addr (mem s)) (s\<lparr>mem := w\<rparr>) = Inr s' \<and> keeps s rest D s'"
proof -
  let ?a = "next_addr (mem s)" and ?s = "s\<lparr>mem := w\<rparr>"
  obtain t pool where T: "ctx_table (pro s) = Ptr t" "max_connections (pro s) = int (length t)"
      and H: "heap_inv t (heap (mem s)) ?a D"
      and O: "owns (heap (mem s)) (pending_ops (pro s)) pool rest"
    using inv by (rule pinvE)
  have n: "heap (mem s) ?a = None" by (rule heap_inv_unused [OF H]) simp
  have "heap_inv t (heap w) (next_addr w) D"
    using heap_inv_op_alloc [OF H ok [OF T(1) H] new] w by simp
  moreover have "owns (heap w) (pending_ops (pro s)) pool (?a # rest)"
    using owns_alloc [OF O n] w by simp
  ultimately have "pinv ?s (?a # rest) D" using T by (intro pinvI [of _ t]) auto
  then obtain s' where s': "proactor_submit_operation ?a ?s = Inr s'" "keeps ?s rest D s'"
    using submit_ok by blast
  have "?a \<notin> set rest" using O n owns_live [OF O, of ?a] by auto
  then have "keeps s rest D s'" using s'(2) w by (auto simp: keeps_def)
  with s'(1) show ?thesis by blast
qed

lemma keeps_alloc_failed: "pinv s rest D \<Longrightarrow> keeps s rest D (s\<lparr>mem := emit e (mem s)\<rparr>)"
  by (rule keeps_same_heap) simp_all

lemma next_read_ok:
  assumes inv: "pinv s rest D" and c: "heap (mem s) c = Some (Ctx x)"
    and new: "\<And>b z. heap (mem s) b = Some (Op z) \<Longrightarrow> b \<notin> D \<Longrightarrow> op_handler z \<noteq> ctx_handler x"
  shows "\<exists>s'. submit_next_read_operation K c s = Inr s' \<and> keeps s rest D s'"
proof (cases "k_alloc K (now (mem s))")
  case False
  then show ?thesis
    using keeps_alloc_failed [OF inv] by (simp add: submit_next_read_operation_def sys_alloc_def)
next
  case True
  let ?n = "next_addr (mem s)"
  let ?y = "zero_op\<lparr>op_type := OP_READ, op_fd := ctx_fd x, op_handler := ctx_handler x,
           op_buffer := Ptr (c, ReadBuf), op_size := of_nat (PROACTOR_BUFFER_SIZE - 1), op_offset := 0\<rparr>"
  let ?w1 = "emit (SysAlloc (Some ?n)) (mem s\<lparr>heap := (heap (mem s))(?n \<mapsto> Op zero_op), next_addr := ?n + 1\<rparr>)"
  let ?w = "put ?n (Op ?y) ?w1"
  have cn: "c \<noteq> ?n" using inv c by (metis heap_invD(2) pinvE less_irrefl)
  have run: "submit_next_read_operation K c s = proactor_submit_operation ?n (s\<lparr>mem := ?w\<rparr>)"
    using True cn c by (simp add: submit_next_read_operation_def sys_alloc_def)
  have ok: "op_ok (length t) (heap (mem s)) ?n ?y" if H: "heap_inv t (heap (mem s)) ?n D" for t
  proof -
    obtain h where h: "ctx_handler x = Ptr h" "heap (mem s) h = Some (Handler (std_handler c))" "0 \<le> ctx_fd x"
        "nat (ctx_fd x) < length t"
      by (rule ctx_facts [OF H c])
    then show ?thesis
      using c heap_invD(2) [OF H c] heap_invD(2) [OF H h(2)]
      by (intro op_okI [of _ h _ c]) (auto simp: PROACTOR_BUFFER_SIZE_def zero_op_def)
  qed
  have "\<exists>s'. proactor_submit_operation ?n (s\<lparr>mem := ?w\<rparr>) = Inr s' \<and> keeps s rest D s'"
    by (rule new_op_ok [where y = ?y, OF inv]) (use ok new in auto)
  then show ?thesis unfolding run .
qed

lemma length_echo_prefix [simp]: "length echo_prefix = 6"
  by (simp add: echo_prefix_def)

section \<open>Removing a connection\<close>

text \<open>The two outcomes: nothing to remove, or the context and the handler are freed.\<close>

lemma remove_cases:
  assumes inv: "pinv s rest D"
  obtains (nothing_there) "proactor_remove_connection K f s = Inr s"
      and "\<And>t. ctx_table (pro s) = Ptr t \<Longrightarrow> 0 \<le> f \<Longrightarrow> nat f < length t \<Longrightarrow> t ! nat f = NULL"
  | (removed) s' c h x t where "proactor_remove_connection K f s = Inr s'" and "keeps s rest D s'"
      and "ctx_table (pro s) = Ptr t" and "0 \<le> f" and "nat f < length t" and "t ! nat f = Ptr c"
      and "heap (mem s) c = Some (Ctx x)" and "ctx_handler x = Ptr h"
      and "heap (mem s') = (heap (mem s))(h := None, c := None)" and "ctx_table (pro s') = Ptr (t[nat f := NULL])"
      and "\<exists>ev. trace (mem s') = trace (mem s) @ ev @ [SysClose f, SysFree h, SysFree c]"
proof -
  obtain t pool where T: "ctx_table (pro s) = Ptr t" "max_connections (pro s) = int (length t)"
      and H: "heap_inv t (heap (mem s)) (next_addr (mem s)) D"
      and O: "owns (heap (mem s)) (pending_ops (pro s)) pool rest"
    using inv by (rule pinvE)
  show ?thesis
  proof (cases "0 \<le> f \<and> nat f < length t \<and> t ! nat f \<noteq> NULL")
    case False
    then have "proactor_remove_connection K f s = Inr s"
      using T by (auto simp: proactor_remove_connection_def table_at_def)
    then show ?thesis by (rule nothing_there) (use T False in auto)
  next
    case True
    then obtain c where f: "0 \<le> f" "nat f < length t" and c: "t ! nat f = Ptr c" by (cases "t ! nat f") auto
    obtain x where x: "heap (mem s) c = Some (Ctx x)" and "ctx_fd x = int (nat f)"
      by (rule table_facts [OF H f(2) c])
    then have xf: "ctx_fd x = f" using f(1) by simp
    obtain h where h: "ctx_handler x = Ptr h" "heap (mem s) h = Some (Handler (std_handler c))"
      by (rule ctx_facts [OF H x])
    have hc: "h \<noteq> c" using h x by auto
    let ?w1 = "if 0 \<le> pr_epoll_fd (pro s) then snd (sys_epoll_del K (pr_epoll_fd (pro s)) f (mem s)) else mem s"
    let ?w2 = "sys_close f ?w1"
    have w2: "heap ?w2 = heap (mem s)" "next_addr ?w2 = next_addr (mem s)"
      by (simp_all add: sys_epoll_del_def Let_def)
    let ?w3 = "put c (Ctx (x\<lparr>ctx_handler := NULL\<rparr>)) (emit (SysFree h) (?w2\<lparr>heap := (heap ?w2)(h := None)\<rparr>))"
    let ?w4 = "emit (SysFree c) (?w3\<lparr>heap := (heap ?w3)(c := None)\<rparr>)"
    let ?s = "s\<lparr>mem := ?w4, pro := (pro s)\<lparr>ctx_table := Ptr (t[nat f := NULL])\<rparr>\<rparr>"
    have run: "proactor_remove_connection K f s = Inr ?s"
      using T f c x h hc w2
      by (simp add: proactor_remove_connection_def table_at_def table_put_def Let_def cong: if_cong)
    have heap: "heap (mem ?s) = (heap (mem s))(h := None, c := None)" using hc w2 by (simp add: fun_upd_twist)
    have so: "same_ops (heap (mem s)) (heap (mem ?s))" unfolding heap using h x by (auto simp: same_ops_def)
    have keep: "keeps s rest D ?s"
      unfolding keeps_def
    proof (intro conjI)
      show "pinv ?s rest D"
      proof (rule pinvI)
        show "ctx_table (pro ?s) = Ptr (t[nat f := NULL])" by simp
        show "heap_inv (t[nat f := NULL]) (heap (mem ?s)) (next_addr (mem ?s)) D"
          unfolding heap using heap_inv_conn_free [OF H x h(1)] xf w2 by simp
        show "owns (heap (mem ?s)) (pending_ops (pro ?s)) pool rest" using owns_same [OF so] O by simp
      qed (use T in simp)
      show "\<forall>b\<in>set rest. heap (mem ?s) b = heap (mem s) b"
      proof
        fix b assume "b \<in> set rest"
        then have "b \<noteq> h" "b \<noteq> c" using owns_live [OF O, of b] h x by auto
        then show "heap (mem ?s) b = heap (mem s) b" unfolding heap by simp
      qed
    qed simp_all
    have "\<exists>ev. trace (mem ?s) = trace (mem s) @ ev @ [SysClose f, SysFree h, SysFree c]"
      by (simp add: sys_epoll_del_def Let_def)
    then show ?thesis using T f c x h heap by (intro removed [OF run keep]) auto
  qed
qed

lemma remove_ok: "pinv s rest D \<Longrightarrow> \<exists>s'. proactor_remove_connection K f s = Inr s' \<and> keeps s rest D s'"
  by (rule remove_cases [of s rest D K f]) (auto intro: keeps_refl)

section \<open>The completion handlers\<close>

text \<open>
  The situation in which the dispatcher calls a handler: the operation \<open>a\<close> is at hand, it is the
  only one with the handler of the live context \<open>c\<close>.
\<close>

definition at_hand :: "pstate \<Rightarrow> addr \<Rightarrow> addr \<Rightarrow> connection_ctx \<Rightarrow> bool" where
  "at_hand s a c x \<longleftrightarrow> heap (mem s) c = Some (Ctx x)
     \<and> (\<forall>b z. heap (mem s) b = Some (Op z) \<longrightarrow> b \<noteq> a \<longrightarrow> op_handler z \<noteq> ctx_handler x)"

lemma valid_context_ok:
  assumes inv: "pinv s rest D" and x: "heap (mem s) c = Some (Ctx x)" and f: "f = ctx_fd x"
  shows "valid_context f (Ptr c) s = Inr (Some c)"
proof -
  obtain t pool where T: "ctx_table (pro s) = Ptr t" "max_connections (pro s) = int (length t)"
      and H: "heap_inv t (heap (mem s)) (next_addr (mem s)) D"
    using inv by (rule pinvE)
  obtain h where "0 \<le> ctx_fd x" "nat (ctx_fd x) < length t" "t ! nat (ctx_fd x) = Ptr c" "ctx_proactor x"
    by (rule ctx_facts [OF H x])
  then show ?thesis using T x f by (simp add: valid_context_def table_at_def)
qed

lemma buffers_ok:
  assumes inv: "pinv s rest {a}" and hand: "at_hand s a c x"
    and a: "\<And>z. heap (mem s) a = Some (Op z) \<Longrightarrow> op_type z = OP_READ"
    and len: "length rb = 4096" "length wb = 4096"
  shows "keeps s rest {a} (s\<lparr>mem := put c (Ctx (x\<lparr>ctx_read_buf := rb, ctx_write_buf := wb\<rparr>)) (mem s)\<rparr>)"
proof -
  let ?y = "x\<lparr>ctx_read_buf := rb, ctx_write_buf := wb\<rparr>"
  let ?s = "s\<lparr>mem := put c (Ctx ?y) (mem s)\<rparr>"
  have c: "heap (mem s) c = Some (Ctx x)" using hand by (simp add: at_hand_def)
  obtain t pool where T: "ctx_table (pro s) = Ptr t" "max_connections (pro s) = int (length t)"
      and H: "heap_inv t (heap (mem s)) (next_addr (mem s)) {a}"
      and O: "owns (heap (mem s)) (pending_ops (pro s)) pool rest"
    using inv by (rule pinvE)
  have so: "same_ops (heap (mem s)) (heap (mem ?s))" using c by (auto simp: same_ops_def)
  have "heap_inv t ((heap (mem s))(c \<mapsto> Ctx ?y)) (next_addr (mem s)) {a}"
  proof (rule heap_inv_buffers [OF H c refl len])
    show "take (unat (op_size z)) wb = echo_prefix @ take (unat (op_size z) - 6) rb"
      if z: "heap (mem s) b = Some (Op z)" "op_handler z = ctx_handler x" "op_type z = OP_WRITE" for b z
    proof -
      have "b = a" using hand z(1, 2) by (auto simp: at_hand_def)
      then show ?thesis using a [of z] z by simp
    qed
  qed
  then have "pinv ?s rest {a}" using T owns_same [OF so] O by (intro pinvI [of _ t]) auto
  moreover have "b \<noteq> c" if "b \<in> set rest" for b using owns_live [OF O, of b] that c by auto
  ultimately show ?thesis by (simp add: keeps_def)
qed

lemma at_hand_buffers:
  "at_hand s a c x \<Longrightarrow> y = x\<lparr>ctx_read_buf := rb, ctx_write_buf := wb\<rparr> \<Longrightarrow>
   at_hand (s\<lparr>mem := put c (Ctx y) (mem s)\<rparr>) a c y"
  by (auto simp: at_hand_def)

lemma next_read_at_hand:
  "pinv s rest {a} \<Longrightarrow> at_hand s a c x \<Longrightarrow> \<exists>s'. submit_next_read_operation K c s = Inr s' \<and> keeps s rest {a} s'"
  using next_read_ok [of s rest "{a}" c x K] by (auto simp: at_hand_def)

text \<open>The write operation of an echo that is in place.\<close>

lemma submit_echo_ok:
  assumes inv: "pinv s rest {a}" and hand: "at_hand s a c x" and f: "f = ctx_fd x"
    and n: "6 < n" "n < 4096" and echo: "take n (ctx_write_buf x) = echo_prefix @ take (n - 6) (ctx_read_buf x)"
  shows "\<exists>s'. submit_echo K f c n s = Inr s' \<and> keeps s rest {a} s'"
proof (cases "k_alloc K (now (mem s))")
  case False
  then show ?thesis using keeps_alloc_failed [OF inv] by (simp add: submit_echo_def sys_alloc_def)
next
  case True
  let ?n = "next_addr (mem s)"
  let ?y = "zero_op\<lparr>op_type := OP_WRITE, op_fd := f, op_handler := ctx_handler x,
           op_buffer := Ptr (c, WriteBuf), op_size := of_nat n, op_offset := 0\<rparr>"
  let ?w1 = "emit (SysAlloc (Some ?n)) (mem s\<lparr>heap := (heap (mem s))(?n \<mapsto> Op zero_op), next_addr := ?n + 1\<rparr>)"
  let ?w = "put ?n (Op ?y) ?w1"
  have c: "heap (mem s) c = Some (Ctx x)" using hand by (simp add: at_hand_def)
  have cn: "c \<noteq> ?n" using inv c by (metis heap_invD(2) pinvE less_irrefl)
  have run: "submit_echo K f c n s = proactor_submit_operation ?n (s\<lparr>mem := ?w\<rparr>)"
    using True cn c by (simp add: submit_echo_def sys_alloc_def)
  have size: "unat (of_nat n :: u64) = n" using n by (simp add: unat_of_nat take_bit_nat_eq_self)
  have ok: "op_ok (length t) (heap (mem s)) ?n ?y" if H: "heap_inv t (heap (mem s)) ?n {a}" for t
  proof -
    obtain h where h: "ctx_handler x = Ptr h" "heap (mem s) h = Some (Handler (std_handler c))" "0 \<le> ctx_fd x"
        "nat (ctx_fd x) < length t"
      by (rule ctx_facts [OF H c])
    then show ?thesis
      using c heap_invD(2) [OF H c] heap_invD(2) [OF H h(2)] n echo f
      by (intro op_okI [of _ h _ c]) (auto simp: size)
  qed
  have "\<exists>s'. proactor_submit_operation ?n (s\<lparr>mem := ?w\<rparr>) = Inr s' \<and> keeps s rest {a} s'"
    by (rule new_op_ok [where y = ?y, OF inv]) (use ok hand in \<open>auto simp: at_hand_def\<close>)
  then show ?thesis unfolding run .
qed

text \<open>What a read of \<open>bytes\<close> bytes leaves in the buffers: the echo of the bytes read.\<close>

lemma echo_in_place:
  assumes "length wb = 4096" and "length rb = 4096" and "m < 4090"
  shows "take (6 + m) (blit 6 (take m rb) (blit 0 echo_prefix wb)) = echo_prefix @ take m rb"
proof -
  have "take (6 + m) (blit 6 (take m rb) (blit 0 echo_prefix wb)) = take 6 (blit 0 echo_prefix wb) @ take m rb"
    using take_blit [of 6 "take m rb" "blit 0 echo_prefix wb"] assms by (simp add: min_absorb2)
  moreover have "take 6 (blit 0 echo_prefix wb) = echo_prefix"
    using assms(1) take_blit [of 0 echo_prefix wb] by simp
  ultimately show ?thesis by simp
qed

lemma handle_read_ok:
  assumes inv: "pinv s rest {a}" and hand: "at_hand s a c x" and f: "f = ctx_fd x"
    and a: "\<And>z. heap (mem s) a = Some (Op z) \<Longrightarrow> op_type z = OP_READ"
  shows "\<exists>s'. handle_read_completion K f (Ptr c) bytes s = Inr s' \<and> keeps s rest {a} s'"
proof (cases "bytes \<le> 0")
  case True
  have c: "heap (mem s) c = Some (Ctx x)" using hand by (simp add: at_hand_def)
  have "handle_read_completion K f (Ptr c) bytes s = proactor_remove_connection K f s"
    using True valid_context_ok [OF inv c f] by (simp add: handle_read_completion_def)
  then show ?thesis using remove_ok [OF inv] by simp
next
  case False
  have c: "heap (mem s) c = Some (Ctx x)" using hand by (simp add: at_hand_def)
  obtain t pool where H: "heap_inv t (heap (mem s)) (next_addr (mem s)) {a}" using inv by (rule pinvE)
  have len: "length (ctx_read_buf x) = 4096" "length (ctx_write_buf x) = 4096"
    using ctx_facts [OF H c] by metis+
  define m where "m = (if bytes < 4096 then nat bytes else 4095)"
  have m: "0 < m" "m < 4096" using False by (auto simp: m_def)
  have safe: "(if bytes < int PROACTOR_BUFFER_SIZE then nat bytes else PROACTOR_BUFFER_SIZE - 1) = m"
    by (simp add: m_def PROACTOR_BUFFER_SIZE_def)
  let ?rb = "blit m [0] (ctx_read_buf x)"
  let ?wb = "blit 6 (take m ?rb) (blit 0 echo_prefix (ctx_write_buf x))"
  have rb: "length ?rb = 4096" using len m by simp
  show ?thesis
  proof (cases "m < 4090")
    case small: True
    let ?y = "x\<lparr>ctx_read_buf := ?rb, ctx_write_buf := ?wb\<rparr>"
    let ?s = "s\<lparr>mem := put c (Ctx ?y) (mem s)\<rparr>"
    have run: "handle_read_completion K f (Ptr c) bytes s = submit_echo K f c (6 + m) ?s"
      using False small c len m valid_context_ok [OF inv c f]
      unfolding handle_read_completion_def safe by (simp add: Let_def PROACTOR_BUFFER_SIZE_def)
    have wb: "length ?wb = 4096" using len small by simp
    have k: "keeps s rest {a} ?s" by (rule buffers_ok [OF inv hand a rb wb])
    have "\<exists>s'. submit_echo K f c (6 + m) ?s = Inr s' \<and> keeps ?s rest {a} s'"
    proof (rule submit_echo_ok [OF keeps_pinv [OF k] at_hand_buffers [OF hand refl]])
      show "take (6 + m) (ctx_write_buf ?y) = echo_prefix @ take (6 + m - 6) (ctx_read_buf ?y)"
        using echo_in_place [OF len(2) rb small] by simp
    qed (use f small m in auto)
    then show ?thesis using keeps_trans [OF k] run by auto
  next
    case big: False
    let ?y = "x\<lparr>ctx_read_buf := ?rb, ctx_write_buf := ctx_write_buf x\<rparr>"
    let ?s = "s\<lparr>mem := put c (Ctx ?y) (mem s)\<rparr>"
    have "x\<lparr>ctx_read_buf := ?rb\<rparr> = ?y" by simp
    then have run: "handle_read_completion K f (Ptr c) bytes s = submit_next_read_operation K c ?s"
      using False big c len m valid_context_ok [OF inv c f]
      unfolding handle_read_completion_def safe by (simp add: Let_def PROACTOR_BUFFER_SIZE_def)
    have k: "keeps s rest {a} ?s" by (rule buffers_ok [OF inv hand a rb len(2)])
    have "\<exists>s'. submit_next_read_operation K c ?s = Inr s' \<and> keeps ?s rest {a} s'"
      by (rule next_read_at_hand [OF keeps_pinv [OF k] at_hand_buffers [OF hand refl]])
    then show ?thesis using keeps_trans [OF k] run by auto
  qed
qed

lemma handle_write_ok:
  assumes inv: "pinv s rest {a}" and hand: "at_hand s a c x" and f: "f = ctx_fd x"
  shows "\<exists>s'. handle_write_completion K f (Ptr c) bytes s = Inr s' \<and> keeps s rest {a} s'"
proof -
  have c: "heap (mem s) c = Some (Ctx x)" using hand by (simp add: at_hand_def)
  have "handle_write_completion K f (Ptr c) bytes s
      = (if bytes \<le> 0 then proactor_remove_connection K f s else submit_next_read_operation K c s)"
    using valid_context_ok [OF inv c f] by (simp add: handle_write_completion_def)
  then show ?thesis using remove_ok [OF inv] next_read_at_hand [OF inv hand] by simp
qed

section \<open>The dispatcher\<close>

text \<open>
  An operation is stale when its handler has been freed; its completion faults when its descriptor
  belongs to a connection again.
\<close>

definition stale :: "async_operation \<Rightarrow> pstate \<Rightarrow> bool" where
  "stale x s \<longleftrightarrow> (\<exists>h. op_handler x = Ptr h \<and> heap (mem s) h = None)"

definition fd_in_use :: "fd \<Rightarrow> pstate \<Rightarrow> bool" where
  "fd_in_use f s \<longleftrightarrow> (\<exists>c. table_at (pro s) f = Inr (Ptr c))"

lemma handler_then_free:
  assumes inv: "pinv s (a # rest) {}"
    and run: "\<exists>s1. m = Inr s1 \<and> keeps s (a # rest) {a} s1"
  shows "\<exists>s'. rbind m (free_op a) = Inr s' \<and> keeps s rest {} s'"
proof -
  obtain s1 where s1: "m = Inr s1" "keeps s (a # rest) {a} s1" using run by blast
  obtain s2 where s2: "free_op a s1 = Inr s2" "keeps s1 rest ({a} - {a}) s2"
    using free_ok [OF keeps_pinv [OF s1(2)]] by blast
  have "keeps s rest {} s2" using s1(2) s2(2) same_config_trans by (auto simp: keeps_def)
  then show ?thesis using s1 s2 by simp
qed

lemma completion_cases:
  assumes inv: "pinv s (a # rest) {}" and x: "heap (mem s) a = Some (Op x)" and e: "ev_data e = Ptr a"
  obtains (ok) s' where "dispatch_completion K e s = Inr s'" and "keeps s rest {} s'"
  | (fault) "dispatch_completion K e s = Inl UseAfterFree" and "stale x s" and "fd_in_use (op_fd x) s"
proof -
  obtain t pool where T: "ctx_table (pro s) = Ptr t" "max_connections (pro s) = int (length t)"
      and H: "heap_inv t (heap (mem s)) (next_addr (mem s)) {}"
      and O: "owns (heap (mem s)) (pending_ops (pro s)) pool (a # rest)"
    using inv by (rule pinvE)
  obtain h c where h: "op_handler x = Ptr h" "0 \<le> op_fd x" "nat (op_fd x) < length t" "op_type x = OP_READ \<or> op_type x = OP_WRITE"
      "heap (mem s) h = None \<and> heap (mem s) c = None \<or> (\<exists>hx cx. heap (mem s) h = Some (Handler hx)
        \<and> heap (mem s) c = Some (Ctx cx) \<and> handler_data hx = Ptr c \<and> ctx_handler cx = Ptr h \<and> ctx_fd cx = op_fd x)"
    using op_ok_cases [OF heap_invD(3) [OF H x]] by metis
  have free: "\<exists>s'. free_op a s = Inr s' \<and> keeps s rest {} s'" using free_ok [OF inv] by simp
  have at: "table_at (pro s) (op_fd x) = Inr (t ! nat (op_fd x))" using T h by (simp add: table_at_def)
  have range: "\<not> (op_fd x < 0 \<or> max_connections (pro s) \<le> op_fd x)" using T h by auto
  show ?thesis
  proof (cases "t ! nat (op_fd x)")
    case NULL
    then have "dispatch_completion K e s = free_op a s"
      using e x at range by (simp add: dispatch_completion_def Let_def)
    then show ?thesis using free ok by metis
  next
    case d: (Ptr d)
    show ?thesis
    proof (cases "heap (mem s) h")
      case None
      then have "dispatch_completion K e s = Inl UseAfterFree"
        using e x at range d h by (simp add: dispatch_completion_def load_handler_def Let_def)
      then show ?thesis using None h at d by (intro fault) (auto simp: stale_def fd_in_use_def)
    next
      case (Some v)
      then obtain cx where c: "heap (mem s) c = Some (Ctx cx)" "ctx_handler cx = Ptr h" "ctx_fd cx = op_fd x"
        using h(5) by auto
      have hh: "heap (mem s) h = Some (Handler (std_handler c))" by (rule handler_of_ctx [OF H c(1, 2)])
      have "t ! nat (op_fd x) = Ptr c" using ctx_facts [OF H c(1)] c(3) by metis
      then have dc: "d = c" using d by simp
      have hand: "at_hand s a c cx" using c h(1) heap_invD(6) [OF H _ x] by (auto simp: at_hand_def)
      have inv': "pinv s (a # rest) {a}" by (rule pinv_mono [OF inv]) simp
      have reads: "\<exists>s'. rbind (handle_read_completion K (op_fd x) (Ptr c) n s) (free_op a) = Inr s' \<and> keeps s rest {} s'"
        if "op_type x = OP_READ" for n
        by (rule handler_then_free [OF inv], rule handle_read_ok [OF inv' hand]) (use c x that in auto)
      have writes: "\<exists>s'. rbind (handle_write_completion K (op_fd x) (Ptr c) n s) (free_op a) = Inr s' \<and> keeps s rest {} s'" for n
        by (rule handler_then_free [OF inv], rule handle_write_ok [OF inv' hand]) (use c in auto)
      let ?s = "s\<lparr>mem := emit SysSleep (mem s)\<rparr>"
      have inv'': "pinv ?s (a # rest) {}" using inv by (simp add: pinv_same_heap)
      have again: "\<exists>s'. proactor_submit_operation a ?s = Inr s' \<and> keeps s rest {} s'"
        using submit_ok [OF inv''] by (auto simp: keeps_def)
      have "\<exists>s'. dispatch_completion K e s = Inr s' \<and> keeps s rest {} s'"
        using e x at range d dc h hh reads writes again
        by (auto simp: dispatch_completion_def Let_def call_back_def split: if_splits)
      then show ?thesis using ok by metis
    qed
  qed
qed

section \<open>New connections and error events\<close>

lemma setup_ok:
  assumes inv: "pinv s rest {}"
  shows "\<exists>s'. setup_new_connection K f s = Inr s' \<and> keeps s rest {} s'"
proof -
  obtain t pool where T: "ctx_table (pro s) = Ptr t" "max_connections (pro s) = int (length t)"
      and H: "heap_inv t (heap (mem s)) (next_addr (mem s)) {}"
      and O: "owns (heap (mem s)) (pending_ops (pro s)) pool rest"
    using inv by (rule pinvE)
  let ?n = "next_addr (mem s)"
  have n: "heap (mem s) ?n = None" "heap (mem s) (Suc ?n) = None" by (rule heap_inv_unused [OF H]; simp)+
  let ?x = "zero_ctx\<lparr>ctx_fd := f, ctx_proactor := True\<rparr>"
  have refused: ?thesis if "proactor_add_connection K f s = Inr (-1, s\<lparr>mem := w\<rparr>)" "same_heap (mem s) w" for w
    using that keeps_same_heap [OF inv, of "sys_close f w"] by (simp add: setup_new_connection_def)
  have same: "s\<lparr>mem := mem s\<rparr> = s" by simp
  show ?thesis
  proof (cases "0 \<le> f \<and> nat f < length t \<and> t ! nat f = NULL")
    case False
    then have "proactor_add_connection K f s = Inr (-1, s\<lparr>mem := mem s\<rparr>)"
      using T by (auto simp: proactor_add_connection_def table_at_def)
    then show ?thesis by (rule refused) simp
  next
    case True
    then have f: "0 \<le> f" "nat f < length t" "t ! nat f = NULL" by auto
    show ?thesis
    proof (cases "k_alloc K (now (mem s))")
      case False
      then have "proactor_add_connection K f s = Inr (-1, s\<lparr>mem := emit (SysAlloc None) (mem s)\<rparr>)"
        using T f by (simp add: proactor_add_connection_def table_at_def sys_alloc_def)
      then show ?thesis by (rule refused) simp
    next
      case alloc: True
      let ?w1 = "emit (SysAlloc (Some ?n)) (mem s\<lparr>heap := (heap (mem s))(?n \<mapsto> Ctx ?x), next_addr := ?n + 1\<rparr>)"
      let ?p1 = "(pro s)\<lparr>ctx_table := Ptr (t[nat f := Ptr ?n])\<rparr>"
      let ?s1 = "s\<lparr>mem := ?w1, pro := ?p1\<rparr>"
      have add: "proactor_add_connection K f s = Inr (0, ?s1)"
        using T f alloc by (simp add: proactor_add_connection_def table_at_def table_put_def sys_alloc_def)
      have at1: "table_at ?p1 f = Inr (Ptr ?n)" using f by (simp add: table_at_def)
      show ?thesis
      proof (cases "k_alloc K (now ?w1)")
        case False
        let ?w2 = "emit (SysAlloc None) ?w1"
        let ?w3 = "sys_close f (if 0 \<le> pr_epoll_fd (pro s) then snd (sys_epoll_del K (pr_epoll_fd (pro s)) f ?w2) else ?w2)"
        have w3: "heap ?w3 = (heap (mem s))(?n \<mapsto> Ctx ?x)" "next_addr ?w3 = Suc ?n"
          by (simp_all add: sys_epoll_del_def Let_def)
        let ?s' = "s\<lparr>mem := emit (SysFree ?n) (?w3\<lparr>heap := (heap ?w3)(?n := None)\<rparr>),
          pro := (pro s)\<lparr>ctx_table := Ptr (t[nat f := NULL])\<rparr>\<rparr>"
        have run: "setup_new_connection K f s = Inr ?s'"
          using add at1 T f False w3
          by (simp add: setup_new_connection_def proactor_remove_connection_def sys_alloc_def [of K "Handler zero_handler"]
              table_at_def table_put_def zero_ctx_def Let_def cong: if_cong)
        have heap: "heap (mem ?s') = heap (mem s)" using w3 n by (simp add: fun_upd_idem)
        have tab: "t[nat f := NULL] = t" using f by (metis list_update_id)
        have "heap_inv t (heap (mem s)) (Suc ?n) {}" by (rule heap_inv_skip [OF H])
        then have "pinv ?s' rest {}"
          using T O heap tab w3 by (intro pinvI [of _ t]) auto
        then show ?thesis using run heap by (auto simp: keeps_def)
      next
        case alloc2: True
        let ?w2 = "emit (SysAlloc (Some (Suc ?n))) (?w1\<lparr>heap := (heap ?w1)(Suc ?n \<mapsto> Handler zero_handler),
           next_addr := Suc (Suc ?n)\<rparr>)"
        let ?y = "?x\<lparr>ctx_handler := Ptr (Suc ?n)\<rparr>"
        let ?w3 = "put ?n (Ctx ?y) (put (Suc ?n) (Handler (std_handler ?n)) ?w2)"
        let ?s3 = "?s1\<lparr>mem := ?w3\<rparr>"
        have run: "setup_new_connection K f s = submit_next_read_operation K ?n ?s3"
          using add at1 alloc2
          by (simp add: setup_new_connection_def sys_alloc_def submit_welcome_message_def)
        have heap: "heap (mem ?s3) = (heap (mem s))(?n \<mapsto> Ctx ?y, Suc ?n \<mapsto> Handler (std_handler ?n))"
          by (simp add: fun_upd_twist)
        have so: "same_ops (heap (mem s)) (heap (mem ?s3))" unfolding heap using n by (auto simp: same_ops_def)
        have inv3: "pinv ?s3 rest {}"
        proof (rule pinvI)
          show "ctx_table (pro ?s3) = Ptr (t[nat f := Ptr ?n])" by simp
          show "heap_inv (t[nat f := Ptr ?n]) (heap (mem ?s3)) (next_addr (mem ?s3)) {}"
            unfolding heap using heap_inv_conn_new [OF H f refl] by simp
          show "owns (heap (mem ?s3)) (pending_ops (pro ?s3)) pool rest" using owns_same [OF so] O by simp
        qed (use T in simp)
        have keep3: "keeps s rest {} ?s3"
          unfolding keeps_def
        proof (intro conjI ballI inv3)
          fix b assume "b \<in> set rest"
          then have "b \<noteq> ?n" "b \<noteq> Suc ?n" using owns_live [OF O, of b] n by auto
          then show "heap (mem ?s3) b = heap (mem s) b" unfolding heap by simp
        qed simp_all
        have fresh: "op_handler z \<noteq> ctx_handler ?y" if z: "heap (mem ?s3) b = Some (Op z)" for b z
        proof -
          have "heap (mem s) b = Some (Op z)" using z so by (simp add: same_ops_def)
          then obtain h where "op_handler z = Ptr h" "h < ?n" using op_ok_cases [OF heap_invD(3) [OF H]] by metis
          then show ?thesis by simp
        qed
        have "\<exists>s'. submit_next_read_operation K ?n ?s3 = Inr s' \<and> keeps ?s3 rest {} s'"
          by (rule next_read_ok [OF inv3, of _ ?y]) (use fresh in auto)
        then show ?thesis using run keeps_trans [OF keep3] by auto
      qed
    qed
  qed
qed

lemma new_connection_ok:
  assumes inv: "pinv s rest {}"
  shows "\<exists>s'. handle_new_connection K s = Inr s' \<and> keeps s rest {} s'"
proof -
  have same: "same_heap (mem s) (snd (sys_newfd K ev (mem s)))" for ev by (simp add: sys_newfd_def)
  have same2: "same_heap w (snd (set_nonblock K f w))" for f and w :: pworld
    by (simp add: set_nonblock_def sys_getfl_def sys_setfl_def sys_ok_def split: sum.splits option.splits prod.splits)
  obtain r w1 where new: "sys_newfd K (SysAccept (pr_listen_fd (pro s))) (mem s) = (r, w1)" by force
  have w1: "same_heap (mem s) w1" using same [of "SysAccept (pr_listen_fd (pro s))"] new by simp
  show ?thesis
  proof (cases r)
    case (Inl e)
    then show ?thesis using new keeps_same_heap [OF inv w1] by (simp add: handle_new_connection_def)
  next
    case (Inr f)
    obtain b w2 where nb: "set_nonblock K f w1 = (b, w2)" by force
    have w2: "same_heap (mem s) w2" using same2 [of w1 f] nb w1 by (simp add: same_heap_def)
    show ?thesis
    proof (cases "b < 0")
      case True
      then show ?thesis
        using new Inr nb keeps_same_heap [OF inv, of "sys_close f w2"] w2 by (simp add: handle_new_connection_def)
    next
      case False
      have k: "keeps s rest {} (s\<lparr>mem := w2\<rparr>)" by (rule keeps_same_heap [OF inv w2])
      obtain s1 where s1: "setup_new_connection K f (s\<lparr>mem := w2\<rparr>) = Inr s1" "keeps (s\<lparr>mem := w2\<rparr>) rest {} s1"
        using setup_ok [OF keeps_pinv [OF k]] by blast
      have ks1: "keeps s rest {} s1" by (rule keeps_trans [OF k s1(2)])
      let ?w = "snd (sys_epoll_add K (pr_epoll_fd (pro s1)) f f (EPOLLERR OR EPOLLHUP OR EPOLLRDHUP) (mem s1))"
      have "keeps s1 rest {} (s1\<lparr>mem := ?w\<rparr>)" by (rule keeps_same_heap [OF keeps_pinv [OF ks1]]) simp
      then have "keeps s rest {} (s1\<lparr>mem := ?w\<rparr>)" by (rule keeps_trans [OF ks1])
      then show ?thesis using new Inr nb False s1(1) by (simp add: handle_new_connection_def)
    qed
  qed
qed

lemma connection_event_ok:
  "pinv s rest {} \<Longrightarrow> \<exists>s'. handle_connection_event K f ev s = Inr s' \<and> keeps s rest {} s'"
  using remove_ok [of s rest "{}" K f] keeps_refl by (auto simp: handle_connection_event_def)

end
