(* ===== verification/ProactorSystem.thy ===== *)
theory ProactorSystem
  imports ProactorSafety
begin

text \<open>
  The invariant of the whole proactor, with all its threads and the kernel, and its preservation.

  \<^item> \<open>outside s\<close> are the operations outside the pool: in flight or finished in the AIO context,
    reaped by the dispatcher, or held by a worker.
  \<^item> \<open>psys_inv\<close>: the operations are owned once, and the control blocks in flight are those of
    live operations.
  \<^item> \<open>act_cases\<close>: a step either keeps the invariant or faults for one of three reasons.
\<close>

section \<open>The invariant\<close>

definition ptrs :: "addr ptr list \<Rightarrow> addr list" where
  "ptrs ps = List.map_filter (\<lambda>p. case p of NULL \<Rightarrow> None | Ptr a \<Rightarrow> Some a) ps"

lemma ptrs_simps [simp]:
  "ptrs [] = []" "ptrs (NULL # ps) = ptrs ps" "ptrs (Ptr a # ps) = a # ptrs ps" "ptrs (ps @ qs) = ptrs ps @ ptrs qs"
  by (simp_all add: ptrs_def List.map_filter_def)

fun pc_ops :: "worker_pc \<Rightarrow> addr list" where
  "pc_ops (WHas a) = [a]"
| "pc_ops (WRetry a) = [a]"
| "pc_ops _ = []"

fun disp_ops :: "dispatcher_pc \<Rightarrow> addr list" where
  "disp_ops (DCompletions es) = ptrs (map ev_data es)"
| "disp_ops _ = []"

definition aio_ops :: "aio \<Rightarrow> addr list" where
  "aio_ops q = ptrs (map io_data (in_flight q)) @ ptrs (map ev_data (finished q))"

definition outside :: "psys \<Rightarrow> addr list" where
  "outside s = aio_ops (aio_state (pst s)) @ disp_ops (disp s) @ concat (map pc_ops (wpcs s))"

definition flights_ok :: "pstate \<Rightarrow> bool" where
  "flights_ok s \<longleftrightarrow> (\<forall>b\<in>set (in_flight (aio_state s)). \<exists>a x. io_data b = Ptr a \<and> heap (mem s) a = Some (Op x)
     \<and> b = op_block a x)"

definition psys_inv :: "psys \<Rightarrow> bool" where
  "psys_inv s \<longleftrightarrow> pinv (pst s) (outside s) {} \<and> flights_ok (pst s)"

section \<open>Moving operations\<close>

lemma ptrs_set: "a \<in> set (ptrs ps) \<longleftrightarrow> Ptr a \<in> set ps"
  by (induction ps) (auto simp: ptrs_def List.map_filter_def split: ptr.splits)

lemma flight_in_aio: "b \<in> set (in_flight q) \<Longrightarrow> io_data b = Ptr a \<Longrightarrow> a \<in> set (aio_ops q)"
  by (force simp: aio_ops_def ptrs_set)

text \<open>The operations of the other workers.\<close>

definition other_ops :: "nat \<Rightarrow> worker_pc list \<Rightarrow> addr list" where
  "other_ops i ws = concat (map pc_ops (take i ws)) @ concat (map pc_ops (drop (Suc i) ws))"

lemma worker_ops: "i < length ws \<Longrightarrow> mset (concat (map pc_ops ws)) = mset (pc_ops (ws ! i) @ other_ops i ws)"
  by (subst id_take_nth_drop [of i ws]) (simp_all add: other_ops_def)

lemma worker_ops_upd:
  "i < length ws \<Longrightarrow> mset (concat (map pc_ops (ws[i := p]))) = mset (pc_ops p @ other_ops i ws)"
  using worker_ops [of i "ws[i := p]"] by (simp add: other_ops_def)

lemma flights_kept:
  assumes "flights_ok s" and "keeps s rest D s'" and "set (aio_ops (aio_state s)) \<subseteq> set rest"
  shows "flights_ok s'"
  unfolding flights_ok_def
proof
  fix b assume b: "b \<in> set (in_flight (aio_state s'))"
  have q: "aio_state s' = aio_state s" using assms(2) by (simp add: keeps_def)
  obtain a x where a: "io_data b = Ptr a" "heap (mem s) a = Some (Op x)" "b = op_block a x"
    using assms(1) b q unfolding flights_ok_def by metis
  have "a \<in> set rest" using flight_in_aio [of b "aio_state s" a] b q a(1) assms(3) by auto
  then have "heap (mem s') a = Some (Op x)" using assms(2) a(2) by (simp add: keeps_def)
  with a show "\<exists>a x. io_data b = Ptr a \<and> heap (mem s') a = Some (Op x) \<and> b = op_block a x" by blast
qed

section \<open>The dispatcher\<close>

text \<open>A step of the dispatcher at the first event of its list can only fault on a stale operation.\<close>

definition stale_completion :: "psys \<Rightarrow> bool" where
  "stale_completion s \<longleftrightarrow> (\<exists>e es a x. disp s = DCompletions (e # es) \<and> ev_data e = Ptr a
     \<and> heap (mem (pst s)) a = Some (Op x) \<and> stale x (pst s) \<and> fd_in_use (op_fd x) (pst s))"

lemma dispatcher_keeps:
  assumes inv: "psys_inv s" and k: "keeps (pst s) (outside s) {} s'" and d: "disp_ops d = disp_ops (disp s)"
  shows "psys_inv (s\<lparr>pst := s', disp := d\<rparr>)"
proof -
  have "outside (s\<lparr>pst := s', disp := d\<rparr>) = outside s" using k d by (simp add: outside_def keeps_def)
  moreover have "flights_ok s'"
    by (rule flights_kept [OF _ k]) (use inv in \<open>auto simp: psys_inv_def outside_def\<close>)
  ultimately show ?thesis using keeps_pinv [OF k] by (simp add: psys_inv_def)
qed

lemma dispatcher_ok:
  assumes inv: "psys_inv s"
  obtains (ok) s' where "proactor_act K DispatcherRuns s = Inr s'" and "psys_inv s'"
  | (fault) "proactor_act K DispatcherRuns s = Inl UseAfterFree" and "stale_completion s"
proof -
  let ?s = "pst s"
  have pin: "pinv ?s (outside s) {}" and fl: "flights_ok ?s" using inv by (auto simp: psys_inv_def)
  have simple: thesis if "dispatcher_step K (disp s) ?s = Inr (d, s')" "keeps ?s (outside s) {} s'"
      "disp_ops d = disp_ops (disp s)" for d s'
    using ok [of "s\<lparr>pst := s', disp := d\<rparr>"] dispatcher_keeps [OF inv that(2, 3)] that(1) by simp
  show thesis
  proof (cases "disp s")
    case DEnter
    let ?w = "mem (dispatcher_enter K ?s)"
    have w: "dispatcher_enter K ?s = ?s\<lparr>mem := ?w\<rparr>" by (simp add: dispatcher_enter_def Let_def)
    have "same_heap (mem ?s) ?w" by (simp add: dispatcher_enter_def Let_def)
    then have "keeps ?s (outside s) {} (dispatcher_enter K ?s)" using keeps_same_heap [OF pin] w by metis
    then show ?thesis by (intro simple [of DTop "dispatcher_enter K ?s"]) (simp_all add: DEnter)
  next
    case DTop
    show ?thesis
    proof (cases "pr_running (pro ?s)")
      case True
      obtain r w where r: "sys_epoll_wait K (pr_epoll_fd (pro ?s)) 64 (mem ?s) = (r, w)" by force
      then have "same_heap (mem ?s) w" by (auto simp: sys_epoll_wait_def same_heap_def)
      then have "keeps ?s (outside s) {} (?s\<lparr>mem := w\<rparr>)" by (rule keeps_same_heap [OF pin])
      then show ?thesis
        using simple [of "DEvents (case r of Inl e \<Rightarrow> [] | Inr evs \<Rightarrow> evs)" "?s\<lparr>mem := w\<rparr>"] DTop True r
        by (cases r) auto
    next
      case False
      then show ?thesis using simple [of DLeft ?s] DTop keeps_refl [OF pin] by simp
    qed
  next
    case (DEvents evs)
    show ?thesis
    proof (cases evs)
      case Nil
      then show ?thesis
        using simple [of "if pr_running (pro ?s) then DAio else DLeft" ?s] DEvents keeps_refl [OF pin] by simp
    next
      case (Cons e es)
      obtain f ev where e: "e = (f, ev)" by force
      obtain s1 where s1: "handle_new_connection K ?s = Inr s1" "keeps ?s (outside s) {} s1"
        using new_connection_ok [OF pin] by blast
      obtain s2 where s2: "handle_connection_event K f ev ?s = Inr s2" "keeps ?s (outside s) {} s2"
        using connection_event_ok [OF pin] by blast
      let ?off = "?s\<lparr>pro := (pro ?s)\<lparr>pr_running := False\<rparr>\<rparr>"
      show ?thesis
      proof (cases "f = pr_exit_event_fd (pro ?s)")
        case True
        have off: "pinv ?off (outside s) {}" using pin by (simp add: pinv_def)
        have "outside (s\<lparr>pst := ?off, disp := DEvents []\<rparr>) = outside s" using DEvents by (simp add: outside_def)
        then have "psys_inv (s\<lparr>pst := ?off, disp := DEvents []\<rparr>)"
          using off fl by (simp add: psys_inv_def flights_ok_def)
        then show ?thesis using True ok [of "s\<lparr>pst := ?off, disp := DEvents []\<rparr>"] DEvents Cons e by simp
      next
        case False
        then show ?thesis
          using s1 s2 DEvents Cons e simple [of "DEvents es" s1] simple [of "DEvents es" s2]
          by (cases "f = pr_listen_fd (pro ?s)") simp_all
      qed
    qed
  next
    case DAio
    let ?q = "aio_state ?s"
    obtain r q w where r: "io_getevents K 64 ?q (mem ?s) = (r, q, w)" by (metis prod_cases3)
    have w: "same_heap (mem ?s) w" and fq: "in_flight q = in_flight ?q"
      using r by (auto simp: io_getevents_def same_heap_def split: sum.splits)
    have evs: "finished ?q = (case r of Inl e \<Rightarrow> [] | Inr es \<Rightarrow> es) @ finished q"
      using r by (auto simp: io_getevents_def split: sum.splits)
    let ?d = "case r of Inl e \<Rightarrow> DTop | Inr es \<Rightarrow> DCompletions es"
    let ?s' = "s\<lparr>pst := ?s\<lparr>aio_state := q, mem := w\<rparr>, disp := ?d\<rparr>"
    have "mset (outside s) = mset (outside ?s')"
      using DAio fq evs by (cases r) (auto simp: outside_def aio_ops_def)
    then have "pinv (pst ?s') (outside ?s') {}"
      using pinv_perm [OF pin] w by (simp add: pinv_def same_heapD)
    moreover have "flights_ok (pst ?s')" using fl w fq by (simp add: flights_ok_def same_heapD)
    ultimately have "psys_inv ?s'" by (simp add: psys_inv_def)
    moreover have "proactor_act K DispatcherRuns s = Inr ?s'" using DAio r by (cases r) auto
    ultimately show ?thesis using ok by blast
  next
    case (DCompletions evs)
    show ?thesis
    proof (cases evs)
      case Nil
      then show ?thesis using simple [of DTop ?s] DCompletions keeps_refl [OF pin] by simp
    next
      case (Cons e es)
      show ?thesis
      proof (cases "ev_data e")
        case NULL
        then show ?thesis
          using simple [of "DCompletions es" ?s] DCompletions Cons keeps_refl [OF pin] by (simp add: dispatch_completion_def)
      next
        case (Ptr a)
        let ?rest = "aio_ops (aio_state ?s) @ ptrs (map ev_data es) @ concat (map pc_ops (wpcs s))"
        have pin': "pinv ?s (a # ?rest) {}"
          by (rule pinv_perm [OF pin]) (simp add: outside_def DCompletions Cons Ptr)
        obtain x where x: "heap (mem ?s) a = Some (Op x)" using pin' by (rule pinv_op)
        show ?thesis
        proof (rule completion_cases [OF pin' x Ptr, of K])
          fix s' assume run: "dispatch_completion K e ?s = Inr s'" and k: "keeps ?s ?rest {} s'"
          let ?s' = "s\<lparr>pst := s', disp := DCompletions es\<rparr>"
          have "outside ?s' = ?rest" using k by (simp add: outside_def keeps_def)
          moreover have "flights_ok s'" by (rule flights_kept [OF fl k]) simp
          ultimately have "psys_inv ?s'" using keeps_pinv [OF k] by (simp add: psys_inv_def)
          then show thesis using ok [of ?s'] run DCompletions Cons by simp
        next
          assume "dispatch_completion K e ?s = Inl UseAfterFree" "stale x ?s" "fd_in_use (op_fd x) ?s"
          then show thesis
            using fault DCompletions Cons Ptr x by (simp add: stale_completion_def)
        qed
      qed
    qed
  next
    case DLeft
    then show ?thesis using simple [of DLeft ?s] keeps_refl [OF pin] by simp
  qed
qed

section \<open>The workers\<close>

text \<open>The message after a submitted write reads an operation that may be gone.\<close>

definition late_message :: "nat \<Rightarrow> psys \<Rightarrow> bool" where
  "late_message i s \<longleftrightarrow> (\<exists>a. i < length (wpcs s) \<and> wpcs s ! i = WLog a \<and> a \<notin> live_ops (heap (mem (pst s))))"

text \<open>A worker that exchanges the operations it holds.\<close>

lemma worker_moves:
  assumes i: "i < length (wpcs s)" and k: "pinv s' (pc_ops p @ aio_ops (aio_state s') @ disp_ops (disp s) @ other_ops i (wpcs s)) {}"
    and fl: "flights_ok s'"
  shows "psys_inv (s\<lparr>pst := s', wpcs := (wpcs s)[i := p]\<rparr>)"
proof -
  have "pinv s' (outside (s\<lparr>pst := s', wpcs := (wpcs s)[i := p]\<rparr>)) {}"
    by (rule pinv_perm [OF k]) (simp add: outside_def worker_ops_upd [OF i])
  then show ?thesis using fl by (simp add: psys_inv_def)
qed

lemma worker_holds:
  assumes inv: "psys_inv s" and i: "i < length (wpcs s)"
  shows "pinv (pst s) (pc_ops (wpcs s ! i) @ aio_ops (aio_state (pst s)) @ disp_ops (disp s) @ other_ops i (wpcs s)) {}"
  using inv unfolding psys_inv_def
  by (elim conjE pinv_perm) (simp add: outside_def worker_ops [OF i])

lemma execute_ok:
  assumes pin: "pinv s (a # aio_ops (aio_state s) @ rest) {}" and fl: "flights_ok s"
  obtains p s' where "execute_operation K a s = Inr (p, s')" and "pinv s' (pc_ops p @ aio_ops (aio_state s') @ rest) {}"
    and "flights_ok s'"
proof -
  let ?q = "aio_state s"
  obtain t pool where T: "ctx_table (pro s) = Ptr t" "max_connections (pro s) = int (length t)"
      and H: "heap_inv t (heap (mem s)) (next_addr (mem s)) {}"
      and O: "owns (heap (mem s)) (pending_ops (pro s)) pool (a # aio_ops ?q @ rest)"
    using pin by (rule pinvE)
  obtain x where x: "heap (mem s) a = Some (Op x)" using pin by (rule pinv_op)
  have ty: "op_type x = OP_READ \<or> op_type x = OP_WRITE" using op_ok_cases [OF heap_invD(3) [OF H x]] by metis
  let ?y = "x\<lparr>op_iocb := op_block a x\<rparr>" and ?w = "put a (Op (x\<lparr>op_iocb := op_block a x\<rparr>)) (mem s)"
  have same: "same_op x ?y" by (simp add: same_op_def)
  obtain r q w1 where sub: "io_submit K (op_block a x) ?q ?w = (r, q, w1)" by (metis prod_cases3)
  have w1: "heap w1 = (heap (mem s))(a \<mapsto> Op ?y)" "next_addr w1 = next_addr (mem s)"
    and q: "q = (if r = 1 then ?q\<lparr>in_flight := in_flight ?q @ [op_block a x]\<rparr> else ?q)"
    using sub by (auto simp: io_submit_def Let_def)
  let ?s1 = "s\<lparr>mem := w1, aio_state := q\<rparr>"
  have a: "a \<notin> set (aio_ops ?q)" using O by (auto simp: owns_def)
  have pin1: "pinv ?s1 (a # aio_ops ?q @ rest) {}"
    using T heap_inv_op_update [OF H x same] owns_update [OF O, of a ?y] w1 by (intro pinvI [of _ t]) auto
  have blk: "op_block a ?y = op_block a x" by (rule op_block_same [OF same])
  have data: "io_data (op_block a x) = Ptr a" by (simp add: op_block_def)
  have fl1: "flights_ok ?s1"
    unfolding flights_ok_def
  proof
    fix b assume "b \<in> set (in_flight (aio_state ?s1))"
    then consider "b \<in> set (in_flight ?q)" | "b = op_block a x" using q by (auto split: if_splits)
    then show "\<exists>a x. io_data b = Ptr a \<and> heap (mem ?s1) a = Some (Op x) \<and> b = op_block a x"
    proof cases
      case 1
      then obtain d z where d: "io_data b = Ptr d" "heap (mem s) d = Some (Op z)" "b = op_block d z"
        using fl unfolding flights_ok_def by metis
      have "d \<noteq> a" using flight_in_aio [OF 1 d(1)] a by auto
      then show ?thesis using d w1 by (intro exI [of _ d] exI [of _ z]) simp
    next
      case 2
      then show ?thesis using w1 blk data by (intro exI [of _ a] exI [of _ ?y]) simp
    qed
  qed
  show ?thesis
  proof (cases "r = 1")
    case True
    have "mset (aio_ops q) = mset (a # aio_ops ?q)" using q True data by (simp add: aio_ops_def)
    then have "pinv ?s1 (aio_ops q @ rest) {}" using pinv_perm [OF pin1, of "aio_ops q @ rest"] by simp
    then have "pinv ?s1 (pc_ops (if op_type x = OP_READ then WTop else WLog a) @ aio_ops (aio_state ?s1) @ rest) {}" by simp
    moreover have "execute_operation K a s = Inr (if op_type x = OP_READ then WTop else WLog a, ?s1)"
      using x ty sub True by (simp add: execute_operation_def Let_def)
    ultimately show ?thesis using that fl1 by blast
  next
    case no: False
    then have q': "q = ?q" using q by simp
    show ?thesis
    proof (cases "r = - EAGAIN")
      case True
      let ?s2 = "?s1\<lparr>mem := emit SysSleep w1\<rparr>"
      have "pinv ?s2 (pc_ops (WRetry a) @ aio_ops (aio_state ?s2) @ rest) {}" using pin1 q' by (simp add: pinv_def)
      moreover have "flights_ok ?s2" using fl1 by (simp add: flights_ok_def)
      moreover have "execute_operation K a s = Inr (WRetry a, ?s2)"
        using x ty sub no True by (simp add: execute_operation_def Let_def)
      ultimately show ?thesis using that by blast
    next
      case False
      obtain s2 where s2: "free_op a ?s1 = Inr s2" "keeps ?s1 (aio_ops ?q @ rest) {} s2" using free_ok [OF pin1] by auto
      have "flights_ok s2" by (rule flights_kept [OF fl1 s2(2)]) (simp add: q')
      moreover have "pinv s2 (pc_ops WTop @ aio_ops (aio_state s2) @ rest) {}" using s2(2) q' by (simp add: keeps_def)
      moreover have "execute_operation K a s = Inr (WTop, s2)"
        using x ty sub no False s2(1) by (simp add: execute_operation_def Let_def)
      ultimately show ?thesis using that by blast
    qed
  qed
qed

lemma worker_ok:
  assumes inv: "psys_inv s" and i: "i < length (wpcs s)"
  obtains (ok) s' where "proactor_act K (WorkerRuns i) s = Inr s'" and "psys_inv s'"
  | (fault) "proactor_act K (WorkerRuns i) s = Inl UseAfterFree" and "late_message i s"
proof -
  let ?s = "pst s"
  let ?rest = "disp_ops (disp s) @ other_ops i (wpcs s)"
  have hold: "pinv ?s (pc_ops (wpcs s ! i) @ aio_ops (aio_state ?s) @ ?rest) {}" using worker_holds [OF inv i] by simp
  have fl: "flights_ok ?s" using inv by (simp add: psys_inv_def)
  have move: thesis if "worker_step K (wpcs s ! i) ?s = Inr (p, s')" "pinv s' (pc_ops p @ aio_ops (aio_state s') @ ?rest) {}"
      "flights_ok s'" for p s'
    using ok [of "s\<lparr>pst := s', wpcs := (wpcs s)[i := p]\<rparr>"] worker_moves [OF i _ that(3), of p] that(1, 2) by simp
  show thesis
  proof (cases "wpcs s ! i")
    case WTop
    show ?thesis
    proof (cases "pr_running (pro ?s)")
      case False
      then show ?thesis using move [of WLeft ?s] WTop hold fl by simp
    next
      case True
      have hold': "pinv ?s (aio_ops (aio_state ?s) @ ?rest) {}" using hold WTop by simp
      from hold' show ?thesis
      proof (cases rule: take_operation_cases)
        case empty
        then show ?thesis using move [of WTop ?s] WTop hold fl True by simp
      next
        case (got a s')
        then have "flights_ok s'" using fl by (simp add: flights_ok_def)
        then show ?thesis using move [of "WHas a" s'] WTop True got by simp
      qed
    qed
  next
    case (WHas a)
    have hold': "pinv ?s (a # aio_ops (aio_state ?s) @ ?rest) {}" using hold WHas by simp
    obtain p s' where "execute_operation K a ?s = Inr (p, s')" "pinv s' (pc_ops p @ aio_ops (aio_state s') @ ?rest) {}" "flights_ok s'"
      by (rule execute_ok [OF hold' fl])
    then show ?thesis using move [of p s'] WHas by simp
  next
    case (WRetry a)
    have hold': "pinv ?s (a # aio_ops (aio_state ?s) @ ?rest) {}" using hold WRetry by simp
    obtain s' where s': "proactor_submit_operation a ?s = Inr s'" "keeps ?s (aio_ops (aio_state ?s) @ ?rest) {} s'"
      using submit_ok [OF hold'] by blast
    have "flights_ok s'" by (rule flights_kept [OF fl s'(2)]) simp
    then show ?thesis using move [of WTop s'] WRetry s' by (simp add: keeps_def)
  next
    case (WLog a)
    show ?thesis
    proof (cases "a \<in> live_ops (heap (mem ?s))")
      case True
      then obtain x where "heap (mem ?s) a = Some (Op x)" by (auto simp: live_ops_def)
      then show ?thesis using move [of WTop ?s] WLog hold fl by simp
    next
      case False
      then have "load_op a (mem ?s) = Inl UseAfterFree"
        by (auto simp: load_op_def live_ops_def split: option.splits pobj.splits)
      then show ?thesis using fault WLog False i by (simp add: late_message_def)
    qed
  next
    case WLeft
    then show ?thesis using move [of WLeft ?s] hold fl by simp
  qed
qed

section \<open>The kernel\<close>

text \<open>The kernel moves bytes from or to the buffer of a context that was freed.\<close>

definition freed_buffer :: "nat \<Rightarrow> psys \<Rightarrow> bool" where
  "freed_buffer i s \<longleftrightarrow> (\<exists>c sel. i < length (in_flight (aio_state (pst s)))
     \<and> io_buf (in_flight (aio_state (pst s)) ! i) = Ptr (c, sel) \<and> heap (mem (pst s)) c = None)"

lemma transfer_cases:
  assumes pin: "pinv s rest {}" and a: "a \<in> set rest" and x: "heap (mem s) a = Some (Op x)" and b: "b = op_block a x"
    and fits: "outcome_fits (io_opcode b) out"
  obtains (ok) r w where "io_transfer buffer_of set_buffer b out (mem s) = Inr (r, w)" and "keeps s rest {} (s\<lparr>mem := w\<rparr>)"
  | (fault) c sel where "io_transfer buffer_of set_buffer b out (mem s) = Inl UseAfterFree" and "io_buf b = Ptr (c, sel)"
      and "heap (mem s) c = None"
proof -
  obtain t pool where T: "ctx_table (pro s) = Ptr t" "max_connections (pro s) = int (length t)"
      and H: "heap_inv t (heap (mem s)) (next_addr (mem s)) {}"
      and O: "owns (heap (mem s)) (pending_ops (pro s)) pool rest"
    using pin by (rule pinvE)
  obtain h c where h: "op_handler x = Ptr h"
      and kind: "op_type x = OP_READ \<and> op_buffer x = Ptr (c, ReadBuf) \<and> op_size x = 4095
        \<or> op_type x = OP_WRITE \<and> op_buffer x = Ptr (c, WriteBuf) \<and> 6 < unat (op_size x) \<and> unat (op_size x) < 4096"
      and full: "heap (mem s) h = None \<and> heap (mem s) c = None
        \<or> (\<exists>hx cx. heap (mem s) h = Some (Handler hx) \<and> heap (mem s) c = Some (Ctx cx) \<and> handler_data hx = Ptr c
             \<and> ctx_handler cx = Ptr h \<and> ctx_fd cx = op_fd x
             \<and> (op_type x = OP_WRITE \<longrightarrow> take (unat (op_size x)) (ctx_write_buf cx)
                  = echo_prefix @ take (unat (op_size x) - 6) (ctx_read_buf cx)))"
    by (rule op_ok_cases [OF heap_invD(3) [OF H x]])
  have alive: "heap (mem s) h = None \<and> heap (mem s) c = None \<or> (\<exists>hx cx. heap (mem s) h = Some (Handler hx)
        \<and> heap (mem s) c = Some (Ctx cx) \<and> ctx_handler cx = Ptr h)"
    using full by blast
  show ?thesis
  proof (cases out)
    case (IoError e)
    have "keeps s rest {} (s\<lparr>mem := emit ev (mem s)\<rparr>)" for ev by (rule keeps_same_heap [OF pin]) simp
    then show ?thesis using IoError by (intro ok) (auto simp: io_transfer_def)
  next
    case (IoData bs)
    then have rd: "op_type x = OP_READ" "io_buf b = Ptr (c, ReadBuf)" "io_nbytes b = 4095"
      using fits kind b by (auto simp: op_block_def io_prep_pread_def io_prep_pwrite_def)
    show ?thesis
    proof (cases "heap (mem s) c")
      case None
      then show ?thesis
        using rd IoData by (intro fault [of c ReadBuf]) (auto simp: io_transfer_def buffer_of_def load_ctx_def)
    next
      case (Some v)
      then obtain cx where c: "heap (mem s) c = Some (Ctx cx)" "ctx_handler cx = Ptr h" using alive by auto
      have len: "length (ctx_read_buf cx) = 4096" "length (ctx_write_buf cx) = 4096" using ctx_facts [OF H c(1)] by metis+
      let ?data = "take 4095 bs"
      let ?rb = "blit 0 ?data (ctx_read_buf cx)"
      let ?y = "cx\<lparr>ctx_read_buf := ?rb, ctx_write_buf := ctx_write_buf cx\<rparr>"
      let ?w = "emit (SysRead (io_fd b) (Inr ?data)) (put c (Ctx ?y) (mem s))"
      have run: "io_transfer buffer_of set_buffer b out (mem s) = Inr (of_nat (length ?data), ?w)"
        using rd IoData c len by (simp add: io_transfer_def buffer_of_def set_buffer_def Let_def)
      have "heap_inv t ((heap (mem s))(c \<mapsto> Ctx ?y)) (next_addr (mem s)) {}"
      proof (rule heap_inv_buffers [OF H c(1) refl])
        show "take (unat (op_size z)) (ctx_write_buf cx) = echo_prefix @ take (unat (op_size z) - 6) ?rb"
          if z: "heap (mem s) d = Some (Op z)" "op_handler z = ctx_handler cx" "op_type z = OP_WRITE" for d z
        proof -
          have "d = a" using heap_invD(6) [OF H z(1) x] z(2) c(2) h by simp
          then show ?thesis using z x rd(1) by simp
        qed
      qed (use len in simp_all)
      moreover have "same_ops (heap (mem s)) ((heap (mem s))(c \<mapsto> Ctx ?y))" using c(1) by (auto simp: same_ops_def)
      ultimately have "pinv (s\<lparr>mem := ?w\<rparr>) rest {}"
        using T O owns_same by (intro pinvI [of _ t]) auto
      moreover have "d \<noteq> c" if "d \<in> set rest" for d using owns_live [OF O, of d] that c by auto
      ultimately have "keeps s rest {} (s\<lparr>mem := ?w\<rparr>)" by (simp add: keeps_def)
      then show ?thesis by (rule ok [OF run])
    qed
  next
    case (IoCount n)
    then have wr: "io_buf b = Ptr (c, WriteBuf)" "io_nbytes b = op_size x" "unat (op_size x) < 4096"
      using fits kind b by (auto simp: op_block_def io_prep_pread_def io_prep_pwrite_def)
    show ?thesis
    proof (cases "heap (mem s) c")
      case None
      then show ?thesis
        using wr IoCount by (intro fault [of c WriteBuf]) (auto simp: io_transfer_def buffer_of_def load_ctx_def)
    next
      case (Some v)
      then obtain cx where c: "heap (mem s) c = Some (Ctx cx)" using alive by auto
      have len: "length (ctx_write_buf cx) = 4096" using ctx_facts [OF H c] by metis
      have "keeps s rest {} (s\<lparr>mem := emit ev (mem s)\<rparr>)" for ev by (rule keeps_same_heap [OF pin]) simp
      then show ?thesis
        using wr IoCount c len by (intro ok) (auto simp: io_transfer_def buffer_of_def)
    qed
  qed
qed

lemma kernel_ok:
  assumes inv: "psys_inv s" and en: "proactor_enabled (KernelFinishes i out r2) s"
  obtains (ok) s' where "proactor_act K (KernelFinishes i out r2) s = Inr s'" and "psys_inv s'"
  | (fault) "proactor_act K (KernelFinishes i out r2) s = Inl UseAfterFree" and "freed_buffer i s"
proof -
  let ?s = "pst s" and ?q = "aio_state (pst s)"
  let ?b = "in_flight ?q ! i"
  have pin: "pinv ?s (outside s) {}" and fl: "flights_ok ?s" using inv by (auto simp: psys_inv_def)
  have i: "i < length (in_flight ?q)" and fits: "outcome_fits (io_opcode ?b) out" using en by simp_all
  obtain a x where a: "io_data ?b = Ptr a" "heap (mem ?s) a = Some (Op x)" "?b = op_block a x"
    using fl i unfolding flights_ok_def by (metis nth_mem)
  have "a \<in> set (outside s)" using flight_in_aio [of ?b ?q a] i a(1) by (simp add: outside_def)
  from pin this a(2, 3) fits show thesis
  proof (cases rule: transfer_cases)
    case (ok r w)
    let ?e = "\<lparr>ev_data = io_data ?b, ev_res = r, ev_res2 = r2\<rparr>"
    let ?q' = "\<lparr>in_flight = take i (in_flight ?q) @ drop (Suc i) (in_flight ?q), finished = finished ?q @ [?e]\<rparr>"
    let ?s' = "s\<lparr>pst := ?s\<lparr>aio_state := ?q', mem := w\<rparr>\<rparr>"
    have run: "proactor_act K (KernelFinishes i out r2) s = Inr ?s'"
      using ok(1) by (simp add: io_finish_def Let_def)
    have split: "in_flight ?q = take i (in_flight ?q) @ ?b # drop (Suc i) (in_flight ?q)" by (rule id_take_nth_drop [OF i])
    have "mset (aio_ops ?q') = mset (aio_ops ?q)"
      unfolding aio_ops_def by (subst (3) split) (simp add: a(1))
    then have "mset (outside s) = mset (outside ?s')" by (simp add: outside_def)
    moreover have "pinv (?s\<lparr>aio_state := ?q', mem := w\<rparr>) (outside s) {}"
      using keeps_pinv [OF ok(2)] by (simp add: pinv_def)
    ultimately have "pinv (pst ?s') (outside ?s') {}" using pinv_perm by simp
    moreover have "flights_ok (pst ?s')"
    proof -
      have "flights_ok (?s\<lparr>mem := w\<rparr>)" by (rule flights_kept [OF fl ok(2)]) (simp add: outside_def)
      then show ?thesis unfolding flights_ok_def by (auto dest: in_set_takeD in_set_dropD)
    qed
    ultimately have "psys_inv ?s'" by (simp add: psys_inv_def)
    with run show ?thesis by (rule that(1))
  next
    case (fault c sel)
    then show ?thesis
      using that(2) i by (auto simp: io_finish_def Let_def freed_buffer_def)
  qed
qed

section \<open>All steps\<close>

lemma act_cases:
  assumes inv: "psys_inv s" and en: "proactor_enabled a s"
  obtains (ok) s' where "proactor_act K a s = Inr s'" and "psys_inv s'"
  | (stale) "proactor_act K a s = Inl UseAfterFree" and "a = DispatcherRuns" and "stale_completion s"
  | (late) i where "proactor_act K a s = Inl UseAfterFree" and "a = WorkerRuns i" and "late_message i s"
  | (buffer) i out r2 where "proactor_act K a s = Inl UseAfterFree" and "a = KernelFinishes i out r2" and "freed_buffer i s"
proof (cases a)
  case DispatcherRuns
  with inv ok stale show ?thesis by (metis dispatcher_ok)
next
  case (WorkerRuns i)
  then have i: "i < length (wpcs s)" using en by simp
  from worker_ok [OF inv i, of K] WorkerRuns ok late show ?thesis by metis
next
  case (KernelFinishes i out r2)
  from kernel_ok [OF inv en [unfolded KernelFinishes], of K] KernelFinishes ok buffer show ?thesis by metis
next
  case SignalArrives
  let ?s' = "s\<lparr>pst := signal_handler (pst s)\<rparr>"
  have "outside ?s' = outside s" by (simp add: outside_def signal_handler_def)
  moreover have "pinv (pst ?s') rest {} = pinv (pst s) rest {}" for rest by (simp add: pinv_def signal_handler_def)
  moreover have "flights_ok (pst ?s') = flights_ok (pst s)" by (simp add: flights_ok_def signal_handler_def)
  ultimately have "psys_inv ?s'" using inv by (simp only: psys_inv_def)
  then show ?thesis using SignalArrives ok by simp
qed

lemma reach_inv: "proactor_reach K s0 s \<Longrightarrow> psys_inv s0 \<Longrightarrow> psys_inv s"
proof (induction rule: proactor_reach.induct)
  case here
  then show ?case .
next
  case (step s a s')
  then have inv: "psys_inv s" by blast
  from step(3) show ?case by (rule_tac act_cases [OF inv step(2), of K]) auto
qed

end
