(* ===== verification/ProactorLife.thy ===== *)
theory ProactorLife
  imports ProactorSystem
begin

text \<open>
  \<open>codes/network/proactor/proactor.c\<close> and \<open>async_server_proactor.c\<close>: initialising, starting and
  stopping the proactor, and the program.

  \<^item> \<open>J th s\<close> is what happens until \<open>pthread_join\<close> of the thread \<open>th\<close> returns: its result and
    the state after it, or \<open>None\<close> when the thread never ends. \<open>E s\<close> is what happens while
    \<open>main\<close> sleeps until \<open>running\<close> is 0.
  \<^item> A result of type \<open>'a res option\<close> is \<open>None\<close> when the function does not return.
  \<^item> \<open>pthread_cond_broadcast\<close> has no counterpart: a worker never waits longer than a second.
\<close>

section \<open>Initialising\<close>

text \<open>After \<open>memset\<close>.\<close>

definition zero_proactor :: proactor where
  "zero_proactor = \<lparr>aio_ctx = False, pr_epoll_fd = 0, pr_listen_fd = 0, pr_running = False, pr_exit_event_fd = 0,
     worker_threads = NULL, dispatcher_thread = False, pr_thread_count = 0, pending_ops = NULL,
     ctx_table = NULL, max_connections = 0\<rparr>"

definition proactor_init :: "kernel \<Rightarrow> nat \<Rightarrow> nat \<Rightarrow> pworld \<Rightarrow> int \<times> proactor \<times> pworld" where
  "proactor_init K n maxc w = (case sys_ok K SysIoSetup w of
     (Some e, w1) \<Rightarrow> (-1, zero_proactor, w1)
   | (None, w1) \<Rightarrow>
      let p1 = zero_proactor\<lparr>aio_ctx := True\<rparr> in
      case sys_newfd K SysEpollCreate w1 of
        (Inl e, w2) \<Rightarrow> (-1, p1\<lparr>pr_epoll_fd := -1\<rparr>, emit SysIoDestroy w2)
      | (Inr ep, w2) \<Rightarrow>
        let p2 = p1\<lparr>pr_epoll_fd := ep\<rparr> in
        (case sys_newfd K SysEventfd w2 of
          (Inl e, w3) \<Rightarrow> (-1, p2\<lparr>pr_exit_event_fd := -1\<rparr>, emit SysIoDestroy (sys_close ep w3))
        | (Inr ex, w3) \<Rightarrow>
          let p3 = p2\<lparr>pr_exit_event_fd := ex, max_connections := int maxc\<rparr> in
          (case sys_block K w3 of
            (False, w4) \<Rightarrow> (-1, p3, emit SysIoDestroy (sys_close ex (sys_close ep w4)))
          | (True, w4) \<Rightarrow>
            let p4 = p3\<lparr>ctx_table := Ptr (replicate maxc NULL), pr_thread_count := n\<rparr> in
            (case sys_block K w4 of
              (False, w5) \<Rightarrow> (-1, p4, emit SysIoDestroy (sys_close ex (sys_close ep (emit SysFreeBlock w5))))
            | (True, w5) \<Rightarrow> (0, p4\<lparr>worker_threads := Ptr (replicate n None), pr_running := True\<rparr>, w5)))))"

section \<open>Starting\<close>

text \<open>The loop that creates the workers; \<open>False\<close> when a thread could not be created.\<close>

fun start_workers :: "kernel \<Rightarrow> nat list \<Rightarrow> nat option list \<Rightarrow> pworld \<Rightarrow> bool \<times> nat option list \<times> pworld" where
  "start_workers K [] ts w = (True, ts, w)"
| "start_workers K (i # is) ts w = (case sys_ok K SysThread w of
     (Some e, w1) \<Rightarrow> (False, ts, w1)
   | (None, w1) \<Rightarrow> start_workers K is (ts[i := Some i]) w1)"

definition proactor_start :: "kernel \<Rightarrow> proactor \<Rightarrow> pworld \<Rightarrow> int \<times> proactor \<times> pworld" where
  "proactor_start K p w = (case worker_threads p of
     NULL \<Rightarrow> (-1, p, w)
   | Ptr ts \<Rightarrow> (case start_workers K [0..<pr_thread_count p] ts w of
       (False, ts1, w1) \<Rightarrow> (-1, p\<lparr>worker_threads := Ptr ts1\<rparr>, w1)
     | (True, ts1, w1) \<Rightarrow> (case sys_ok K SysThread w1 of
         (Some e, w2) \<Rightarrow> (-1, p\<lparr>worker_threads := Ptr ts1\<rparr>, w2)
       | (None, w2) \<Rightarrow> (0, p\<lparr>worker_threads := Ptr ts1, dispatcher_thread := True\<rparr>, w2))))"

section \<open>Cleaning up\<close>

text \<open>The loop over the connections.\<close>

fun close_contexts :: "nat list \<Rightarrow> proactor \<Rightarrow> pworld \<Rightarrow> (proactor \<times> pworld) res" where
  "close_contexts [] p w = Inr (p, w)"
| "close_contexts (i # is) p w = rbind (table_at p (int i)) (\<lambda>q. case q of
     NULL \<Rightarrow> close_contexts is p w
   | Ptr c \<Rightarrow> rbind (load_ctx c w) (\<lambda>x.
       rbind (case ctx_handler x of NULL \<Rightarrow> Inr (sys_close (int i) w) | Ptr h \<Rightarrow> sys_free h (sys_close (int i) w)) (\<lambda>w1.
       rbind (sys_free c w1) (\<lambda>w2. rbind (table_put (int i) NULL p) (\<lambda>p'. close_contexts is p' w2)))))"

text \<open>A descriptor field after its \<open>if (fd >= 0) { close(fd); fd = -1; }\<close>, and the first part of the clean-up.\<close>

definition closed_fd :: "fd \<Rightarrow> fd" where
  "closed_fd f = (if 0 \<le> f then -1 else f)"

definition closing :: "fd \<Rightarrow> pworld \<Rightarrow> pworld" where
  "closing f w = (if 0 \<le> f then sys_close f w else w)"

definition close_descriptors :: "proactor \<Rightarrow> pworld \<Rightarrow> proactor \<times> pworld" where
  "close_descriptors p w =
     (let w3 = closing (pr_listen_fd p) (closing (pr_exit_event_fd p) (closing (pr_epoll_fd p) w))
      in (p\<lparr>pr_epoll_fd := closed_fd (pr_epoll_fd p), pr_exit_event_fd := closed_fd (pr_exit_event_fd p),
            pr_listen_fd := closed_fd (pr_listen_fd p), aio_ctx := False\<rparr>,
          if aio_ctx p then emit SysIoDestroy w3 else w3))"

definition cleanup_proactor_resources :: "pstate \<Rightarrow> pstate res" where
  "cleanup_proactor_resources s = (case close_descriptors (pro s) (mem s) of (p1, w1) \<Rightarrow>
     rbind (case ctx_table p1 of
         NULL \<Rightarrow> Inr (p1, w1)
       | Ptr t \<Rightarrow> rbind (close_contexts [0..<nat (max_connections p1)] p1 w1) (\<lambda>(p2, w2).
           Inr (p2\<lparr>ctx_table := NULL\<rparr>, emit SysFreeBlock w2))) (\<lambda>(p2, w2).
     Inr (s\<lparr>pro := p2\<lparr>worker_threads := NULL\<rparr>, aio_state := (if aio_ctx (pro s) then empty_aio else aio_state s),
            mem := (if worker_threads p2 = NULL then w2 else emit SysFreeBlock w2)\<rparr>)))"

section \<open>Stopping\<close>

datatype thread = Dispatcher | Worker nat

text \<open>The loop of \<open>wait_thread_with_timeout\<close>; \<open>pthread_join\<close> itself has no time limit.\<close>

partial_function (option) wait_loop ::
  "(thread \<Rightarrow> pstate \<Rightarrow> (int \<times> pstate) option) \<Rightarrow> kernel \<Rightarrow> thread \<Rightarrow> u64 \<Rightarrow> int \<Rightarrow> pstate \<Rightarrow> (int \<times> pstate) option" where
  "wait_loop J K th start timeout s = (case sys_clock K (mem s) of ((sec, nsec), w) \<Rightarrow>
     if sint (sec - start) < timeout
     then (case J th (s\<lparr>mem := emit SysJoin w\<rparr>) of
         None \<Rightarrow> None
       | Some (r, s1) \<Rightarrow>
           if r = 0 then Some (0, s1)
           else wait_loop J K th start timeout (s1\<lparr>mem := emit SysSleep (mem s1)\<rparr>))
     else Some (-1, s\<lparr>mem := w\<rparr>))"

definition wait_thread_with_timeout ::
  "(thread \<Rightarrow> pstate \<Rightarrow> (int \<times> pstate) option) \<Rightarrow> kernel \<Rightarrow> thread \<Rightarrow> int \<Rightarrow> pstate \<Rightarrow> (int \<times> pstate) option" where
  "wait_thread_with_timeout J K th timeout s = (case sys_clock K (mem s) of ((sec, nsec), w) \<Rightarrow>
     wait_loop J K th sec timeout (s\<lparr>mem := w\<rparr>))"

text \<open>Waiting for one thread, and cancelling it when it did not end in time.\<close>

definition end_thread ::
  "(thread \<Rightarrow> pstate \<Rightarrow> (int \<times> pstate) option) \<Rightarrow> kernel \<Rightarrow> thread \<Rightarrow> pstate \<Rightarrow> pstate res option" where
  "end_thread J K th s = (case wait_thread_with_timeout J K th 2 s of
     None \<Rightarrow> None
   | Some (r, s1) \<Rightarrow> Some (Inr (if r \<noteq> 0 then s1\<lparr>mem := emit SysSleep (emit SysCancel (mem s1))\<rparr> else s1)))"

fun end_workers ::
  "(thread \<Rightarrow> pstate \<Rightarrow> (int \<times> pstate) option) \<Rightarrow> kernel \<Rightarrow> nat list \<Rightarrow> pstate \<Rightarrow> pstate res option" where
  "end_workers J K [] s = Some (Inr s)"
| "end_workers J K (i # is) s = (case worker_threads (pro s) of
     NULL \<Rightarrow> Some (Inl NullDeref)
   | Ptr ts \<Rightarrow> (case ts ! i of
       None \<Rightarrow> Some (Inl Uninitialised)
     | Some th \<Rightarrow> xbind (end_thread J K (Worker th) s) (end_workers J K is)))"

definition proactor_stop ::
  "(thread \<Rightarrow> pstate \<Rightarrow> (int \<times> pstate) option) \<Rightarrow> kernel \<Rightarrow> pstate \<Rightarrow> (int \<times> pstate) res option" where
  "proactor_stop J K s =
     (if \<not> pr_running (pro s) then Some (Inr (0, s))
      else
        let p = (pro s)\<lparr>pr_running := False\<rparr>;
            w = (if 0 \<le> pr_exit_event_fd p then emit (SysNotify (pr_exit_event_fd p)) (mem s) else mem s);
            s1 = s\<lparr>pro := p, mem := w\<rparr>
        in xbind (if dispatcher_thread p then end_thread J K Dispatcher s1 else Some (Inr s1)) (\<lambda>s2.
           xbind (end_workers J K [0..<pr_thread_count p] s2) (\<lambda>s3.
           xbind (Some (cleanup_proactor_resources s3)) (\<lambda>s4. Some (Inr (0, s4))))))"

section \<open>The program\<close>

definition proactor_main ::
  "(thread \<Rightarrow> pstate \<Rightarrow> (int \<times> pstate) option) \<Rightarrow> (pstate \<Rightarrow> pstate option) \<Rightarrow> kernel \<Rightarrow> pworld
    \<Rightarrow> (int \<times> pstate) res option" where
  "proactor_main J E K w = (case proactor_init K 4 10000 w of (r, p, w1) \<Rightarrow>
     if r < 0 then Some (Inr (-1, \<lparr>pro = p, mem = w1, aio_state = empty_aio\<rparr>))
     else case proactor_server_socket K PROACTOR_PORT w1 of (l, w2) \<Rightarrow>
       let p2 = p\<lparr>pr_listen_fd := l\<rparr> in
       if l < 0
       then xbind (proactor_stop J K \<lparr>pro = p2, mem = w2, aio_state = empty_aio\<rparr>) (\<lambda>(_, s). Some (Inr (-1, s)))
       else (case proactor_start K p2 w2 of (r3, p3, w3) \<Rightarrow>
         if r3 < 0
         then xbind (proactor_stop J K \<lparr>pro = p3, mem = sys_close l w3, aio_state = empty_aio\<rparr>) (\<lambda>(_, s).
                Some (Inr (-1, s)))
         else (case E \<lparr>pro = p3, mem = w3, aio_state = empty_aio\<rparr> of
             None \<Rightarrow> None
           | Some s \<Rightarrow> if pr_running (pro s) then None
                       else xbind (proactor_stop J K s) (\<lambda>(_, s'). Some (Inr (0, s'))))))"

text \<open>The threads of a proactor that was started.\<close>

definition started :: "proactor \<Rightarrow> pworld \<Rightarrow> psys" where
  "started p w = \<lparr>pst = \<lparr>pro = p, mem = w, aio_state = empty_aio\<rparr>, disp = DEnter,
     wpcs = replicate (pr_thread_count p) WTop\<rparr>"

section \<open>Lemmas\<close>

lemma init_ok:
  assumes "proactor_init K n maxc w = (r, p, w')"
  shows "same_heap w w'" and "0 \<le> r \<Longrightarrow> ctx_table p = Ptr (replicate maxc NULL) \<and> max_connections p = int maxc
    \<and> pending_ops p = NULL \<and> pr_thread_count p = n \<and> worker_threads p = Ptr (replicate n None) \<and> pr_running p
    \<and> \<not> dispatcher_thread p"
  using assms
  by (auto simp: proactor_init_def sys_ok_def sys_newfd_def sys_block_def Let_def zero_proactor_def
      split: option.splits sum.splits if_splits bool.splits)

lemma start_workers_heap: "start_workers K is ts w = (b, ts', w') \<Longrightarrow> same_heap w w'"
  by (induction "is" arbitrary: ts w) (auto simp: sys_ok_def same_heap_def split: option.splits)

lemma start_ok:
  assumes "proactor_start K p w = (r, p', w')"
  shows "same_heap w w'" and "ctx_table p' = ctx_table p" and "max_connections p' = max_connections p"
    and "pending_ops p' = pending_ops p" and "pr_thread_count p' = pr_thread_count p"
proof -
  obtain b ts w1 where st: "start_workers K [0..<pr_thread_count p] (deref (worker_threads p)) w = (b, ts, w1)"
    by (metis prod_cases3)
  have "same_heap w w1" by (rule start_workers_heap [OF st])
  then show "same_heap w w'" and "ctx_table p' = ctx_table p" and "max_connections p' = max_connections p"
    and "pending_ops p' = pending_ops p" and "pr_thread_count p' = pr_thread_count p"
    using assms st by (cases "worker_threads p"; auto simp: proactor_start_def sys_ok_def same_heap_def split: option.splits bool.splits)+
qed

lemma server_socket_heap: "same_heap w (snd (proactor_server_socket K port w))"
  by (simp add: proactor_server_socket_def sys_newfd_def sys_ok_def sys_getfl_def sys_setfl_def
      split: option.splits sum.splits prod.splits)

lemma empty_inv:
  assumes "heap w = Map.empty" and "ctx_table p = Ptr (replicate m NULL)" and "max_connections p = int m"
    and "pending_ops p = NULL"
  shows "psys_inv (started p w)"
proof -
  have "heap_inv (replicate m NULL) (heap w) (next_addr w) {}"
    by (rule heap_invI) (auto simp: assms(1) table_ok_def)
  moreover have "owns (heap w) NULL [] []" by (simp add: owns_def assms(1) live_ops_def)
  moreover have "outside (started p w) = []" by (simp add: outside_def started_def aio_ops_def empty_aio_def)
  ultimately show ?thesis
    using assms(2-4) by (auto simp: psys_inv_def pinv_def flights_ok_def started_def empty_aio_def)
qed

end
