(* ===== verification/ProactorPool.thy ===== *)
theory ProactorPool
  imports ProactorLife
begin

text \<open>
  \<open>pending_ops\<close> keeps the contract \<open>lifo_pool\<close>: \<open>proactor_submit_operation\<close> puts an
  operation in, the critical section of the workers takes one out. Although the source calls it a
  queue, it is a stack.
\<close>

definition pool_inv :: "pstate \<Rightarrow> bool" where
  "pool_inv s \<longleftrightarrow> (\<exists>rest. pinv s rest {})"

text \<open>The operations of the pool, first the next one to be taken.\<close>

definition pool_items :: "pstate \<Rightarrow> addr list" where
  "pool_items s = walk (next_addr (mem s)) (next_of (heap (mem s))) (pending_ops (pro s))"

text \<open>A live operation that is not in the pool.\<close>

definition can_submit :: "addr \<Rightarrow> pstate \<Rightarrow> bool" where
  "can_submit a s \<longleftrightarrow> (case heap (mem s) a of Some (Op x) \<Rightarrow> a \<notin> set (pool_items s) | _ \<Rightarrow> False)"

lemma pool_items_eq:
  assumes "pinv s rest D" and O: "owns (heap (mem s)) (pending_ops (pro s)) pool rest"
  shows "pool_items s = pool"
proof -
  obtain t where H: "heap_inv t (heap (mem s)) (next_addr (mem s)) D" using assms(1) by (rule pinvE)
  have "set pool \<subseteq> {..<next_addr (mem s)}"
  proof
    fix a assume "a \<in> set pool"
    then obtain x where "heap (mem s) a = Some (Op x)" using owns_live [OF O, of a] by auto
    then show "a \<in> {..<next_addr (mem s)}" using heap_invD(2) [OF H] by simp
  qed
  then have "card (set pool) \<le> card {..<next_addr (mem s)}" by (rule card_mono [OF finite_lessThan])
  then have "card (set pool) \<le> next_addr (mem s)" by simp
  moreover have "distinct pool" using O by (auto simp: owns_def)
  ultimately have "length pool \<le> next_addr (mem s)" by (simp add: distinct_card)
  then show ?thesis unfolding pool_items_def using O by (intro walk_linked) (simp_all add: owns_def)
qed

lemma can_submit_iff:
  assumes "pinv s rest D"
  shows "can_submit a s \<longleftrightarrow> a \<in> set rest"
proof -
  obtain pool where O: "owns (heap (mem s)) (pending_ops (pro s)) pool rest" using assms by (rule pinvE)
  have "a \<in> set rest \<longleftrightarrow> (\<exists>x. heap (mem s) a = Some (Op x)) \<and> a \<notin> set pool"
    using owns_live [OF O, of a] O by (auto simp: owns_def)
  then show ?thesis
    unfolding can_submit_def pool_items_eq [OF assms O] by (auto split: option.splits pobj.splits)
qed

lemma submit_spec:
  assumes "pool_inv s" and "can_submit a s"
  shows "\<exists>s'. proactor_submit_operation a s = Inr s' \<and> pool_inv s' \<and> pool_items s' = a # pool_items s
    \<and> (\<forall>b. can_submit b s' \<longleftrightarrow> can_submit b s \<and> b \<noteq> a)"
proof -
  obtain rest0 where inv0: "pinv s rest0 {}" using assms(1) by (auto simp: pool_inv_def)
  have a: "a \<in> set rest0" using can_submit_iff [OF inv0] assms(2) by simp
  let ?rest = "remove1 a rest0"
  have inv: "pinv s (a # ?rest) {}" by (rule pinv_perm [OF inv0]) (use a in simp)
  obtain pool where O: "owns (heap (mem s)) (pending_ops (pro s)) pool (a # ?rest)" using inv by (rule pinvE)
  obtain x s' where s': "proactor_submit_operation a s = Inr s'" "keeps s ?rest {} s'"
      "owns (heap (mem s')) (pending_ops (pro s')) (a # pool) ?rest"
    by (rule submit_run [OF inv O])
  have inv': "pinv s' ?rest {}" using s'(2) by (rule keeps_pinv)
  have items: "pool_items s' = a # pool_items s"
    using pool_items_eq [OF inv O] pool_items_eq [OF inv' s'(3)] by simp
  have "a \<notin> set ?rest" using O by (auto simp: owns_def)
  then have "can_submit b s' \<longleftrightarrow> can_submit b s \<and> b \<noteq> a" for b
    unfolding can_submit_iff [OF inv'] can_submit_iff [OF inv] by auto
  then show ?thesis using s'(1) inv' items by (auto simp: pool_inv_def)
qed

lemma take_spec:
  assumes "pool_inv s"
  shows "pool_items s = [] \<Longrightarrow> take_operation s = Inr (NULL, s)"
    and "pool_items s = a # as \<Longrightarrow> \<exists>s'. take_operation s = Inr (Ptr a, s') \<and> pool_inv s' \<and> pool_items s' = as"
proof -
  obtain rest where inv: "pinv s rest {}" using assms by (auto simp: pool_inv_def)
  obtain t pool where T: "ctx_table (pro s) = Ptr t" "max_connections (pro s) = int (length t)"
      and H: "heap_inv t (heap (mem s)) (next_addr (mem s)) {}"
      and O: "owns (heap (mem s)) (pending_ops (pro s)) pool rest"
    using inv by (rule pinvE)
  have items: "pool_items s = pool" by (rule pool_items_eq [OF inv O])
  show "take_operation s = Inr (NULL, s)" if "pool_items s = []"
    using that O items by (simp add: owns_def take_operation_def)
  show "\<exists>s'. take_operation s = Inr (Ptr a, s') \<and> pool_inv s' \<and> pool_items s' = as" if cons: "pool_items s = a # as"
  proof -
    have "pool = a # as" using items cons by simp
    then have p: "pending_ops (pro s) = Ptr a" using O by (simp add: owns_def)
    obtain x pool' where x: "pool = a # pool'" "heap (mem s) a = Some (Op x)" "owns (heap (mem s)) (op_next x) pool' (a # rest)"
      by (rule owns_pop [OF O [unfolded p]])
    let ?s = "s\<lparr>pro := (pro s)\<lparr>pending_ops := op_next x\<rparr>\<rparr>"
    have inv': "pinv ?s (a # rest) {}" using T H x(3) by (intro pinvI [of _ t]) auto
    have "pool_items ?s = as" using pool_items_eq [OF inv'] x items cons by simp
    then show ?thesis using inv' p x by (auto simp: take_operation_def pool_inv_def)
  qed
qed

interpretation op_pool: lifo_pool pool_inv pool_items can_submit proactor_submit_operation take_operation
proof
  show "\<exists>s'. proactor_submit_operation a s = Inr s' \<and> pool_inv s' \<and> pool_items s' = a # pool_items s
      \<and> (\<forall>b. can_submit b s' = (can_submit b s \<and> b \<noteq> a))" if "pool_inv s" "can_submit a s" for s a
    using submit_spec [OF that] by simp
qed (use take_spec in blast)+

end
