(* ===== verification/ProactorProps.thy ===== *)
theory ProactorProps
  imports ProactorPool
begin

text \<open>The properties of the proactor, with their witnesses on concrete runs.\<close>

section \<open>Runs\<close>

fun run_acts :: "kernel \<Rightarrow> pact list \<Rightarrow> psys \<Rightarrow> psys res" where
  "run_acts K [] s = Inr s"
| "run_acts K (a # as) s = (if proactor_enabled a s then rbind (proactor_act K a s) (run_acts K as) else Inl NullDeref)"

lemma run_append: "run_acts K (as @ bs) s = rbind (run_acts K as s) (run_acts K bs)"
proof (induction "as" arbitrary: s)
  case (Cons a "as")
  then show ?case by (cases "proactor_act K a s") auto
qed simp

lemma run_reach: "run_acts K as s = Inr s' \<Longrightarrow> proactor_reach K s0 s \<Longrightarrow> proactor_reach K s0 s'"
  by (induction "as" arbitrary: s) (auto simp: rbind_eq_Inr split: if_splits intro: proactor_reach.step)

text \<open>The last step of a run that faults.\<close>

lemma run_fault:
  assumes "run_acts K as s0 = Inr s" and "run_acts K (as @ [a]) s0 = Inl UseAfterFree"
  shows "proactor_reach K s0 s \<and> proactor_enabled a s \<and> proactor_act K a s = Inl UseAfterFree"
  using assms run_reach [OF assms(1) proactor_reach.here]
  by (auto simp: run_append rbind_eq_Inl split: if_splits)

section \<open>A concrete proactor\<close>

text \<open>Eight descriptors, one worker; the listening socket is 5, a new connection gets descriptor 6.\<close>

definition demo_proactor_kernel :: "(nat \<Rightarrow> (fd \<times> u32) list) \<Rightarrow> (nat \<Rightarrow> nat) \<Rightarrow> kernel" where
  "demo_proactor_kernel poll evs = \<lparr>k_alloc = \<lambda>_. True, k_ok = \<lambda>_. None, k_flags = \<lambda>_. Inr 0, k_newfd = \<lambda>_. Inr 6,
     k_read = \<lambda>_. Inr [], k_write = \<lambda>_. Inr 0, k_poll = \<lambda>n. Inr (poll n), k_clock = \<lambda>_. (0, 0), k_spur = \<lambda>_. False,
     k_submit = \<lambda>_. 1, k_events = \<lambda>n. Inr (evs n)\<rparr>"

definition demo_proactor_world :: pworld where
  "demo_proactor_world = \<lparr>heap = Map.empty, next_addr = 0, interest = \<lambda>_ _. None, trace = []\<rparr>"

definition demo_proactor :: proactor where
  "demo_proactor = \<lparr>aio_ctx = True, pr_epoll_fd = 3, pr_listen_fd = 5, pr_running = True, pr_exit_event_fd = 4,
     worker_threads = Ptr [Some 0], dispatcher_thread = True, pr_thread_count = 1, pending_ops = NULL,
     ctx_table = Ptr (replicate 8 NULL), max_connections = 8\<rparr>"

abbreviation demo_psys :: psys where
  "demo_psys \<equiv> started demo_proactor demo_proactor_world"

lemmas run_defs [model_defs] = demo_proactor_kernel_def demo_proactor_world_def demo_proactor_def started_def empty_aio_def
  dispatcher_enter_def Let_def now_def ready_def reported_def List.map_filter_def emit_def set_interest_def
  sys_epoll_add_def sys_epoll_del_def sys_epoll_wait_def sys_newfd_def sys_getfl_def sys_setfl_def sys_ok_def sys_close_def
  sys_alloc_def sys_free_def store_def put_def
  handle_new_connection_def set_nonblock_def setup_new_connection_def proactor_add_connection_def table_at_def table_put_def
  submit_welcome_message_def submit_next_read_operation_def proactor_submit_operation_def take_operation_def
  execute_operation_def io_submit_def io_getevents_def io_finish_def io_transfer_def buffer_of_def set_buffer_def
  load_op_def load_ctx_def load_handler_def zero_ctx_def zero_op_def zero_handler_def op_block_def
  io_prep_pread_def io_prep_pwrite_def PROACTOR_BUFFER_SIZE_def
  dispatch_completion_def call_back_def handle_read_completion_def handle_write_completion_def valid_context_def submit_echo_def
  handle_connection_event_def proactor_remove_connection_def free_op_def

text \<open>A connection is accepted and its first read is in flight.\<close>

abbreviation first_read :: "pact list" where
  "first_read \<equiv> [DispatcherRuns, DispatcherRuns, DispatcherRuns, WorkerRuns 0, WorkerRuns 0]"

text \<open>The read finishes, its echo is submitted, written and completed before the worker goes on.\<close>

abbreviation quick_echo :: "pact list" where
  "quick_echo \<equiv> first_read @ [KernelFinishes 0 (IoData [120]) 0, DispatcherRuns, DispatcherRuns, DispatcherRuns, DispatcherRuns,
     WorkerRuns 0, WorkerRuns 0, KernelFinishes 0 (IoCount 7) 0, DispatcherRuns, DispatcherRuns, DispatcherRuns, DispatcherRuns]"

abbreviation hangup :: "pact list" where
  "hangup \<equiv> first_read @ [DispatcherRuns, DispatcherRuns, DispatcherRuns, DispatcherRuns, DispatcherRuns]"

abbreviation reuse :: "pact list" where
  "reuse \<equiv> hangup @ [DispatcherRuns, KernelFinishes 0 (IoError 9) 0, DispatcherRuns, DispatcherRuns]"

lemma error_code_1: "sint (ucast (- 1 :: u64) :: u32) = - 1"
  using error_code_bytes [of 1] by simp

lemmas runs = model_defs error_code_1

section \<open>Faults\<close>

text \<open>The states that a started proactor reaches.\<close>

lemma started_psys_inv:
  assumes init: "proactor_init K0 n m w = (r, p, w1)" and r: "0 \<le> r" and w: "heap w = Map.empty"
    and start: "proactor_start K0 (p\<lparr>pr_listen_fd := l\<rparr>) w1 = (r', p', w2)"
    and reach: "proactor_reach K (started p' w2) s"
  shows "psys_inv s"
proof -
  have sh: "same_heap w w2" using init_ok(1) [OF init] start_ok(1) [OF start] by (simp add: same_heap_def)
  have "psys_inv (started p' w2)"
    by (rule empty_inv [of _ _ m]) (use init_ok(2) [OF init r] start_ok [OF start] w sh in \<open>simp_all add: same_heap_def\<close>)
  then show ?thesis using reach by (metis reach_inv)
qed

text \<open>C3: Start from an initialised and started proactor. Whatever the kernel does and however the dispatcher,
  the workers, the kernel's completions and the signal handler interleave, a step faults only as a use
  after free, and only in one of three situations: the dispatcher reaps an operation whose handler was
  freed while its descriptor belongs to a new connection; a worker prints the message about a submitted
  write whose operation is already freed; the kernel moves bytes of an operation whose connection was freed.\<close>

theorem proactor_faults_only_when_stale:
  assumes init: "proactor_init K0 n m w = (r, p, w1)" and r: "0 \<le> r" and w: "heap w = Map.empty"
    and start: "proactor_start K0 (p\<lparr>pr_listen_fd := l\<rparr>) w1 = (r', p', w2)"
    and reach: "proactor_reach K (started p' w2) s" and en: "proactor_enabled a s" and act: "proactor_act K a s = Inl e"
  shows "e = UseAfterFree \<and>
     (a = DispatcherRuns \<and> (\<exists>ev es b x h c. disp s = DCompletions (ev # es) \<and> ev_data ev = Ptr b
          \<and> heap (mem (pst s)) b = Some (Op x) \<and> op_handler x = Ptr h \<and> heap (mem (pst s)) h = None
          \<and> table_at (pro (pst s)) (op_fd x) = Inr (Ptr c))
      \<or> (\<exists>i b. a = WorkerRuns i \<and> wpcs s ! i = WLog b \<and> (\<nexists>x. heap (mem (pst s)) b = Some (Op x)))
      \<or> (\<exists>i out r2 c sel. a = KernelFinishes i out r2 \<and> io_buf (in_flight (aio_state (pst s)) ! i) = Ptr (c, sel)
          \<and> heap (mem (pst s)) c = None))"
proof -
  have inv: "psys_inv s" by (rule started_psys_inv [OF init r w start reach])
  from inv en show ?thesis
  proof (cases rule: act_cases [where K = K])
    case (ok s')
    then show ?thesis using act by simp
  next
    case stale
    then show ?thesis using act by (auto simp: stale_completion_def stale_def fd_in_use_def)
  next
    case (late i)
    then show ?thesis using act by (auto simp: late_message_def live_ops_def)
  next
    case (buffer i out r2)
    then show ?thesis using act by (auto simp: freed_buffer_def)
  qed
qed

text \<open>A proactor with one worker that is initialised and started by the code, and a client that hangs up.\<close>

definition boot_proactor_kernel :: kernel where
  "boot_proactor_kernel = (demo_proactor_kernel (\<lambda>n. if n = 9 then [(5, EPOLLIN)] else if n = 19 then [(6, EPOLLHUP)] else [])
     (\<lambda>_. 64))\<lparr>k_newfd := \<lambda>n. Inr (if n = 1 then 3 else if n = 2 then 4 else 6)\<rparr>"

lemma proactor_faults_only_when_stale_witness:
  "\<exists>p w1 p' w2 s. proactor_init boot_proactor_kernel 1 8 demo_proactor_world = (0, p, w1)
     \<and> proactor_start boot_proactor_kernel (p\<lparr>pr_listen_fd := 5\<rparr>) w1 = (0, p', w2)
     \<and> proactor_reach boot_proactor_kernel (started p' w2) s
     \<and> proactor_act boot_proactor_kernel (KernelFinishes 0 (IoData [120]) 0) s = Inl UseAfterFree
     \<and> (\<exists>c sel. io_buf (in_flight (aio_state (pst s)) ! 0) = Ptr (c, sel) \<and> heap (mem (pst s)) c = None)"
proof -
  let ?K = boot_proactor_kernel and ?a = "KernelFinishes 0 (IoData [120]) 0"
  let ?p = "demo_proactor\<lparr>pr_listen_fd := 0, worker_threads := Ptr [None], dispatcher_thread := False\<rparr>"
  let ?w1 = "demo_proactor_world\<lparr>trace := [SysIoSetup True, SysEpollCreate (Inr 3), SysEventfd (Inr 4), SysBlock True,
    SysBlock True]\<rparr>"
  let ?w2 = "?w1\<lparr>trace := trace ?w1 @ [SysThread True, SysThread True]\<rparr>"
  have init: "proactor_init ?K 1 8 demo_proactor_world = (0, ?p, ?w1)"
    by (simp add: boot_proactor_kernel_def proactor_init_def zero_proactor_def sys_block_def runs)
  have start: "proactor_start ?K (?p\<lparr>pr_listen_fd := 5\<rparr>) ?w1 = (0, demo_proactor, ?w2)"
    by (simp add: boot_proactor_kernel_def proactor_start_def runs)
  have "\<exists>s. run_acts ?K hangup (started demo_proactor ?w2) = Inr s" by (simp add: boot_proactor_kernel_def runs)
  then obtain s where s: "run_acts ?K hangup (started demo_proactor ?w2) = Inr s" ..
  have "run_acts ?K (hangup @ [?a]) (started demo_proactor ?w2) = Inl UseAfterFree" by (simp add: boot_proactor_kernel_def runs)
  note last = run_fault [OF s this]
  have "\<exists>c sel. io_buf (in_flight (aio_state (pst s)) ! 0) = Ptr (c, sel) \<and> heap (mem (pst s)) c = None"
    using proactor_faults_only_when_stale [OF init _ _ start, of ?K s ?a UseAfterFree] last
    by (simp add: demo_proactor_world_def)
  then show ?thesis using init start last by blast
qed

text \<open>C18: All three faults happen: a started proactor reaches states in which a worker, the kernel and the
  dispatcher use a freed block. The runs are an echo that completes before its worker prints the message, a
  hang-up while a read is in flight, and a hang-up followed by a new connection with the same descriptor.\<close>

theorem proactor_faults_happen:
  "(\<exists>K s. proactor_reach K demo_psys s \<and> proactor_act K (WorkerRuns 0) s = Inl UseAfterFree)
   \<and> (\<exists>K s. proactor_reach K demo_psys s \<and> proactor_enabled (KernelFinishes 0 (IoData [120]) 0) s
         \<and> proactor_act K (KernelFinishes 0 (IoData [120]) 0) s = Inl UseAfterFree)
   \<and> (\<exists>K s. proactor_reach K demo_psys s \<and> proactor_act K DispatcherRuns s = Inl UseAfterFree)"
proof (intro conjI)
  let ?K = "demo_proactor_kernel (\<lambda>n. if n = 2 then [(5, EPOLLIN)] else []) (\<lambda>_. 64)"
  have "\<exists>s. run_acts ?K quick_echo demo_psys = Inr s" by (simp add: runs)
  then obtain s where s: "run_acts ?K quick_echo demo_psys = Inr s" ..
  have "run_acts ?K (quick_echo @ [WorkerRuns 0]) demo_psys = Inl UseAfterFree" by (simp add: runs)
  then show "\<exists>K s. proactor_reach K demo_psys s \<and> proactor_act K (WorkerRuns 0) s = Inl UseAfterFree"
    using run_fault [OF s] by blast
next
  let ?K = "demo_proactor_kernel (\<lambda>n. if n = 2 then [(5, EPOLLIN)] else if n = 12 then [(6, EPOLLHUP)] else []) (\<lambda>_. 64)"
  let ?a = "KernelFinishes 0 (IoData [120]) 0"
  have "\<exists>s. run_acts ?K hangup demo_psys = Inr s" by (simp add: runs)
  then obtain s where s: "run_acts ?K hangup demo_psys = Inr s" ..
  have "run_acts ?K (hangup @ [?a]) demo_psys = Inl UseAfterFree" by (simp add: runs)
  then show "\<exists>K s. proactor_reach K demo_psys s \<and> proactor_enabled ?a s \<and> proactor_act K ?a s = Inl UseAfterFree"
    using run_fault [OF s] by blast
next
  let ?K = "demo_proactor_kernel (\<lambda>n. if n = 2 then [(5, EPOLLIN)] else if n = 12 then [(6, EPOLLHUP), (5, EPOLLIN)] else [])
    (\<lambda>_. 64)"
  have "\<exists>s. run_acts ?K reuse demo_psys = Inr s" by (simp add: runs)
  then obtain s where s: "run_acts ?K reuse demo_psys = Inr s" ..
  have "run_acts ?K (reuse @ [DispatcherRuns]) demo_psys = Inl UseAfterFree" by (simp add: runs)
  then show "\<exists>K s. proactor_reach K demo_psys s \<and> proactor_act K DispatcherRuns s = Inl UseAfterFree"
    using run_fault [OF s] by blast
qed

end
