(* ===== verification/ProactorStop.thy ===== *)
theory ProactorStop
  imports ProactorPool
begin

text \<open>
  What \<open>cleanup_proactor_resources\<close> frees: lemmas on its loop over the connections, from the
  invariant of the heap.
\<close>

section \<open>Closing the connections\<close>

text \<open>The result of the loop over the entries \<open>is\<close> of the table.\<close>

lemma close_contexts_spec:
  assumes "heap_inv t (heap w) n {}" and "ctx_table p = Ptr t" and "distinct is" and "set is \<subseteq> {..<length t}"
  shows "\<exists>p' w' t'. close_contexts is p w = Inr (p', w') \<and> p' = p\<lparr>ctx_table := Ptr t'\<rparr> \<and> length t' = length t
     \<and> (\<forall>i<length t. t' ! i = (if i \<in> set is then NULL else t ! i))
     \<and> heap_inv t' (heap w') n {} \<and> same_ops (heap w) (heap w')
     \<and> (\<forall>i\<in>set is. t ! i \<noteq> NULL \<longrightarrow> SysClose (int i) \<in> set (trace w')) \<and> set (trace w) \<subseteq> set (trace w')"
  using assms
proof (induction "is" arbitrary: p w t)
  case Nil
  then show ?case by (intro exI [of _ p] exI [of _ w] exI [of _ t]) (auto simp: same_ops_def)
next
  case (Cons i "is")
  have i: "i < length t" and ni: "i \<notin> set is" using Cons.prems by auto
  have at: "table_at p (int i) = Inr (t ! i)" using Cons.prems(2) i by (simp add: table_at_def)
  show ?case
  proof (cases "t ! i")
    case NULL
    have "close_contexts (i # is) p w = close_contexts is p w" using at NULL by simp
    moreover obtain p' w' t' where IH: "close_contexts is p w = Inr (p', w')" "p' = p\<lparr>ctx_table := Ptr t'\<rparr>"
        "length t' = length t" "\<forall>j<length t. t' ! j = (if j \<in> set is then NULL else t ! j)"
        "heap_inv t' (heap w') n {}" "same_ops (heap w) (heap w')"
        "\<forall>j\<in>set is. t ! j \<noteq> NULL \<longrightarrow> SysClose (int j) \<in> set (trace w')" "set (trace w) \<subseteq> set (trace w')"
      using Cons.IH [OF Cons.prems(1, 2)] Cons.prems(3, 4) by auto
    ultimately show ?thesis
      using NULL by (intro exI [of _ p'] exI [of _ w'] exI [of _ t']) auto
  next
    case (Ptr c)
    let ?H = "heap w"
    obtain x where x: "?H c = Some (Ctx x)" "ctx_fd x = int i" by (rule table_facts [OF Cons.prems(1) i Ptr])
    obtain h where h: "ctx_handler x = Ptr h" "?H h = Some (Handler (std_handler c))" by (rule ctx_facts [OF Cons.prems(1) x(1)])
    have hc: "h \<noteq> c" using h x by auto
    let ?t = "t[i := NULL]" and ?p = "p\<lparr>ctx_table := Ptr (t[i := NULL])\<rparr>"
    let ?w1 = "emit (SysFree h) (sys_close (int i) w\<lparr>heap := ?H(h := None)\<rparr>)"
    let ?w2 = "emit (SysFree c) (?w1\<lparr>heap := ?H(h := None, c := None)\<rparr>)"
    have run: "close_contexts (i # is) p w = close_contexts is ?p ?w2"
      using at Ptr x h hc i Cons.prems(2) by (simp add: table_put_def)
    have inv: "heap_inv ?t (heap ?w2) n {}" using heap_inv_conn_free [OF Cons.prems(1) x(1) h(1)] x(2) by simp
    have tab: "ctx_table ?p = Ptr ?t" and d: "distinct is" and sub: "set is \<subseteq> {..<length ?t}"
      using Cons.prems(3, 4) by auto
    from Cons.IH [OF inv tab d sub]
    obtain p' w' t' where IH: "close_contexts is ?p ?w2 = Inr (p', w')" "p' = ?p\<lparr>ctx_table := Ptr t'\<rparr>"
        "length t' = length ?t" "\<forall>j<length ?t. t' ! j = (if j \<in> set is then NULL else ?t ! j)"
        "heap_inv t' (heap w') n {}" "same_ops (heap ?w2) (heap w')"
        "\<forall>j\<in>set is. ?t ! j \<noteq> NULL \<longrightarrow> SysClose (int j) \<in> set (trace w')" "set (trace ?w2) \<subseteq> set (trace w')"
      by blast
    have so: "same_ops ?H (heap ?w2)" using x h by (auto simp: same_ops_def)
    then have "same_ops ?H (heap w')" using IH(6) by (simp add: same_ops_def)
    moreover have "\<forall>j\<in>set (i # is). t ! j \<noteq> NULL \<longrightarrow> SysClose (int j) \<in> set (trace w')"
    proof
      fix j assume j: "j \<in> set (i # is)"
      show "t ! j \<noteq> NULL \<longrightarrow> SysClose (int j) \<in> set (trace w')"
      proof (cases "j = i")
        case True
        then show ?thesis using IH(8) by auto
      next
        case False
        then show ?thesis using IH(7) j by auto
      qed
    qed
    moreover have "\<forall>j<length t. t' ! j = (if j \<in> set (i # is) then NULL else t ! j)"
      using IH(4) i by (auto simp: nth_list_update)
    moreover have "p' = p\<lparr>ctx_table := Ptr t'\<rparr>" "length t' = length t" "set (trace w) \<subseteq> set (trace w')"
      using IH(2, 3, 8) by auto
    moreover have "close_contexts (i # is) p w = Inr (p', w')" using run IH(1) by simp
    ultimately show ?thesis using IH(5) by blast
  qed
qed

text \<open>With an empty table there is neither a context nor a handler.\<close>

lemma empty_table:
  assumes inv: "heap_inv t H n {}" and empty: "\<forall>i<length t. t ! i = NULL" and a: "H a = Some v"
  obtains x where "v = Op x"
proof (cases v)
  case (Ctx x)
  then have "H a = Some (Ctx x)" using a by simp
  then obtain "nat (ctx_fd x) < length t" "t ! nat (ctx_fd x) = Ptr a" by (rule ctx_facts [OF inv])
  then show ?thesis using empty by simp
next
  case (Handler y)
  then have "H a = Some (Handler y)" using a by simp
  then obtain c cx where "H c = Some (Ctx cx)" by (rule ctx_of_handler [OF inv])
  then obtain "nat (ctx_fd cx) < length t" "t ! nat (ctx_fd cx) = Ptr c" by (rule ctx_facts [OF inv])
  then show ?thesis using empty by simp
qed

lemma cleanup_spec:
  assumes inv: "pinv s rest {}"
  obtains s' where "cleanup_proactor_resources s = Inr s'" and "same_ops (heap (mem s)) (heap (mem s'))"
    and "\<And>a v. heap (mem s') a = Some v \<Longrightarrow> \<exists>x. v = Op x"
    and "\<And>f c. table_at (pro s) f = Inr (Ptr c) \<Longrightarrow> SysClose f \<in> set (trace (mem s'))"
    and "ctx_table (pro s') = NULL" and "set (trace (mem s)) \<subseteq> set (trace (mem s'))"
    and "\<And>f. f \<in> {pr_epoll_fd (pro s), pr_exit_event_fd (pro s), pr_listen_fd (pro s)} \<Longrightarrow> 0 \<le> f
           \<Longrightarrow> SysClose f \<in> set (trace (mem s'))"
proof -
  obtain t pool where T: "ctx_table (pro s) = Ptr t" "max_connections (pro s) = int (length t)"
      and H: "heap_inv t (heap (mem s)) (next_addr (mem s)) {}"
    using inv by (rule pinvE)
  obtain p1 w1 where cd: "close_descriptors (pro s) (mem s) = (p1, w1)" by force
  have w1: "heap w1 = heap (mem s)" and tr: "set (trace (mem s)) \<subseteq> set (trace w1)"
    and fds: "\<And>f. f \<in> {pr_epoll_fd (pro s), pr_exit_event_fd (pro s), pr_listen_fd (pro s)} \<Longrightarrow> 0 \<le> f
      \<Longrightarrow> SysClose f \<in> set (trace w1)"
    and p1: "ctx_table p1 = Ptr t" "max_connections p1 = int (length t)"
    using cd T by (auto simp: close_descriptors_def closing_def Let_def)
  have inv1: "heap_inv t (heap w1) (next_addr (mem s)) {}" using H w1 by simp
  obtain p' w' t' where loop: "close_contexts [0..<length t] p1 w1 = Inr (p', w')" "p' = p1\<lparr>ctx_table := Ptr t'\<rparr>"
      "length t' = length t" "\<forall>i<length t. t' ! i = (if i \<in> set [0..<length t] then NULL else t ! i)"
      "heap_inv t' (heap w') (next_addr (mem s)) {}" "same_ops (heap w1) (heap w')"
      "\<forall>i\<in>set [0..<length t]. t ! i \<noteq> NULL \<longrightarrow> SysClose (int i) \<in> set (trace w')" "set (trace w1) \<subseteq> set (trace w')"
    using close_contexts_spec [OF inv1 p1(1) distinct_upt, of 0 "length t"] by (fastforce simp only: set_upt atLeast0LessThan)
  let ?w5 = "emit SysFreeBlock w'"
  let ?s = "s\<lparr>pro := p'\<lparr>ctx_table := NULL, worker_threads := NULL\<rparr>,
      aio_state := (if aio_ctx (pro s) then empty_aio else aio_state s),
      mem := (if worker_threads p' = NULL then ?w5 else emit SysFreeBlock ?w5)\<rparr>"
  have run: "cleanup_proactor_resources s = Inr ?s"
    unfolding cleanup_proactor_resources_def cd using p1 loop(1) by simp
  have heap: "heap (mem ?s) = heap w'" by simp
  show ?thesis
  proof (rule that [OF run])
    show "same_ops (heap (mem s)) (heap (mem ?s))" unfolding heap using loop(6) w1 by simp
    show "\<exists>x. v = Op x" if "heap (mem ?s) a = Some v" for a v
    proof -
      have "\<forall>i<length t'. t' ! i = NULL" using loop(3, 4) by simp
      moreover have "heap w' a = Some v" using that unfolding heap .
      ultimately show ?thesis using empty_table [OF loop(5)] by metis
    qed
    have tr': "set (trace w') \<subseteq> set (trace (mem ?s))" by auto
    show "SysClose f \<in> set (trace (mem ?s))" if f: "table_at (pro s) f = Inr (Ptr c)" for f c
    proof -
      have "0 \<le> f" "nat f < length t" "t ! nat f = Ptr c" using f T by (auto simp: table_at_def split: if_splits)
      moreover have "nat f \<in> set [0..<length t]" using \<open>nat f < length t\<close> by simp
      ultimately have "SysClose (int (nat f)) \<in> set (trace w')" using bspec [OF loop(7)] by (metis ptr.distinct(1))
      then show ?thesis using tr' \<open>0 \<le> f\<close> by auto
    qed
    show "set (trace (mem s)) \<subseteq> set (trace (mem ?s))" using tr tr' loop(8) by blast
    show "SysClose f \<in> set (trace (mem ?s))" if "f \<in> {pr_epoll_fd (pro s), pr_exit_event_fd (pro s), pr_listen_fd (pro s)}" "0 \<le> f" for f
      using fds [OF that] tr' loop(8) by blast
  qed simp_all
qed

section \<open>The end of the program\<close>

text \<open>
  \<open>main\<close> stops the proactor only after \<open>running\<close> became 0; \<open>proactor_stop\<close> returns at once then.
\<close>

lemma stop_when_stopped: "\<not> pr_running (pro s) \<Longrightarrow> proactor_stop J K s = Some (Inr (0, s))"
  by (simp add: proactor_stop_def)

text \<open>Stopping before the threads were created reads the first entry of the thread array.\<close>

lemma stop_unstarted:
  assumes "pr_running (pro s)" and "\<not> dispatcher_thread (pro s)" and "0 < pr_thread_count (pro s)"
    and "worker_threads (pro s) = Ptr (replicate (pr_thread_count (pro s)) None)"
  shows "proactor_stop J K s = Some (Inl Uninitialised)"
proof -
  obtain m where m: "[0..<pr_thread_count (pro s)] = 0 # m" using assms(3) by (metis upt_rec)
  show ?thesis using assms by (simp add: proactor_stop_def Let_def m)
qed

text \<open>The wait for a thread that never ends does not return: the join has no time limit.\<close>

lemma wait_blocks:
  assumes "J th = (\<lambda>_. None)" and "0 < timeout" and "fst (k_clock K (now (mem s))) = fst (k_clock K (Suc (now (mem s))))"
  shows "wait_thread_with_timeout J K th timeout s = None"
proof -
  obtain a b c where "k_clock K (now (mem s)) = (a, b)" "k_clock K (Suc (now (mem s))) = (a, c)"
    using assms(3) by (metis prod.collapse)
  then show ?thesis
    using assms(1, 2) by (simp add: wait_thread_with_timeout_def sys_clock_def wait_loop.simps now_def)
qed

end
