(* ===== verification/ProactorEcho.thy ===== *)
theory ProactorEcho
  imports ProactorProps ProactorStop
begin

text \<open>
  Properties of the operations, the echo, error completions and the end of the proactor, with
  their witnesses.
\<close>

section \<open>A connection with an operation at hand\<close>

text \<open>A context at 0, its handler at 1 and an operation at 2 that the dispatcher holds.\<close>

definition demo_op :: "operation_type \<Rightarrow> async_operation" where
  "demo_op ty = zero_op\<lparr>op_type := ty, op_fd := 6, op_handler := Ptr 1, op_buffer := Ptr (0, ReadBuf), op_size := 4095\<rparr>"

definition demo_pstate :: pstate where
  "demo_pstate = \<lparr>pro = demo_proactor\<lparr>ctx_table := Ptr ((replicate 8 NULL)[6 := Ptr 0])\<rparr>,
     mem = demo_proactor_world\<lparr>heap := [0 \<mapsto> Ctx (zero_ctx\<lparr>ctx_fd := 6, ctx_proactor := True, ctx_handler := Ptr 1\<rparr>),
       1 \<mapsto> Handler (std_handler 0), 2 \<mapsto> Op (demo_op OP_READ)], next_addr := 3\<rparr>, aio_state = empty_aio\<rparr>"

lemma demo_pstate_inv: "pinv demo_pstate [2] {}"
proof (rule pinvI)
  let ?H = "heap (mem demo_pstate)" and ?t = "(replicate 8 NULL)[6 := Ptr (0::nat)]"
  show "ctx_table (pro demo_pstate) = Ptr ?t" by (simp add: demo_pstate_def)
  show "max_connections (pro demo_pstate) = int (length ?t)" by (simp add: demo_pstate_def demo_proactor_def)
  show "heap_inv ?t ?H (next_addr (mem demo_pstate)) {}"
  proof (rule heap_invI)
    show "table_ok ?t ?H"
      by (auto simp: table_ok_def demo_pstate_def nth_list_update split: if_splits)
    show "ctx_ok ?t ?H c x" if "?H c = Some (Ctx x)" for c x
    proof -
      have "c = 0" "x = zero_ctx\<lparr>ctx_fd := 6, ctx_proactor := True, ctx_handler := Ptr 1\<rparr>"
        using that by (simp_all add: demo_pstate_def split: if_splits)
      then show ?thesis by (simp add: ctx_ok_def demo_pstate_def zero_ctx_def)
    qed
    show "handler_ok ?H h x" if "?H h = Some (Handler x)" for h x
    proof -
      have "h = 1" "x = std_handler 0" using that by (simp_all add: demo_pstate_def split: if_splits)
      then show ?thesis by (simp add: handler_ok_def demo_pstate_def zero_ctx_def)
    qed
    show "op_ok (length ?t) ?H (next_addr (mem demo_pstate)) x" if "?H a = Some (Op x)" for a x
    proof -
      have "x = demo_op OP_READ" using that by (simp add: demo_pstate_def split: if_splits)
      then show ?thesis
        by (intro op_okI [of x 1 _ 0]) (simp_all add: demo_pstate_def demo_op_def zero_op_def zero_ctx_def)
    qed
  qed (auto simp: demo_pstate_def split: if_splits)
  show "owns ?H (pending_ops (pro demo_pstate)) [] [2]"
    by (auto simp: owns_def live_ops_def demo_pstate_def demo_proactor_def split: if_splits)
qed

section \<open>The situation of a completion\<close>

text \<open>The operation \<open>a\<close> of the live connection \<open>c\<close> completed; the facts that the proofs below share.\<close>

lemma completion_facts:
  assumes inv: "pinv s (a # rest) {}" and x: "heap (mem s) a = Some (Op x)" and c: "heap (mem s) c = Some (Ctx cx)"
    and h: "ctx_handler cx = op_handler x"
  obtains t g where "ctx_table (pro s) = Ptr t" and "max_connections (pro s) = int (length t)"
    and "op_handler x = Ptr g" and "ctx_handler cx = Ptr g" and "heap (mem s) g = Some (Handler (std_handler c))"
    and "ctx_fd cx = op_fd x" and "0 \<le> op_fd x" and "nat (op_fd x) < length t" and "t ! nat (op_fd x) = Ptr c"
    and "table_at (pro s) (op_fd x) = Inr (Ptr c)"
    and "length (ctx_read_buf cx) = 4096" and "length (ctx_write_buf cx) = 4096" and "c \<noteq> a" and "g \<noteq> a"
    and "heap_inv t (heap (mem s)) (next_addr (mem s)) {}" and "op_type x = OP_READ \<or> op_type x = OP_WRITE"
    and "valid_context (op_fd x) (Ptr c) s = Inr (Some c)"
proof -
  obtain t pool where T: "ctx_table (pro s) = Ptr t" "max_connections (pro s) = int (length t)"
      and H: "heap_inv t (heap (mem s)) (next_addr (mem s)) {}"
    using inv by (rule pinvE)
  obtain g where g: "ctx_handler cx = Ptr g" "heap (mem s) g = Some (Handler (std_handler c))" "0 \<le> ctx_fd cx"
      "nat (ctx_fd cx) < length t" "t ! nat (ctx_fd cx) = Ptr c" "length (ctx_read_buf cx) = 4096"
      "length (ctx_write_buf cx) = 4096"
    by (rule ctx_facts [OF H c])
  obtain g' d where g': "op_handler x = Ptr g'" "op_type x = OP_READ \<and> op_buffer x = Ptr (d, ReadBuf) \<and> op_size x = 4095
        \<or> op_type x = OP_WRITE \<and> op_buffer x = Ptr (d, WriteBuf) \<and> 6 < unat (op_size x) \<and> unat (op_size x) < 4096"
      "heap (mem s) g' = None \<and> heap (mem s) d = None
        \<or> (\<exists>hx cx. heap (mem s) g' = Some (Handler hx) \<and> heap (mem s) d = Some (Ctx cx) \<and> handler_data hx = Ptr d
             \<and> ctx_handler cx = Ptr g' \<and> ctx_fd cx = op_fd x
             \<and> (op_type x = OP_WRITE \<longrightarrow> take (unat (op_size x)) (ctx_write_buf cx)
                  = echo_prefix @ take (unat (op_size x) - 6) (ctx_read_buf cx)))"
    by (rule op_ok_cases [OF heap_invD(3) [OF H x]])
  have gg: "g' = g" using g(1) g'(1) h by simp
  then have fd: "ctx_fd cx = op_fd x" using g'(3) g(2) c by auto
  show ?thesis
  proof (rule that [OF T g'(1) _ _ fd])
    show "valid_context (op_fd x) (Ptr c) s = Inr (Some c)" using valid_context_ok [OF inv c] fd by simp
    show "c \<noteq> a" "g' \<noteq> a" using c x g(2) gg by auto
    show "table_at (pro s) (op_fd x) = Inr (Ptr c)" using T g fd by (simp add: table_at_def)
  qed (use g g' gg fd H in auto)
qed

lemma small_bytes: "n < 4096 \<Longrightarrow> \<not> sint (ucast (- word_of_nat n :: u64) :: u32) = EAGAIN"
  by (simp add: error_code_bytes)

section \<open>The echo\<close>

text \<open>C10: A completed read of \<open>n\<close> bytes. When \<open>n < 4090\<close> the next operation of the pool is a write of the
  \<open>n + 6\<close> bytes \<open>"Echo: "\<close> and the bytes read, from the write buffer; when the answer does not fit, the bytes
  are dropped and the next operation is another read. The completed operation is freed, the
  new one is put in front of the pool with the same descriptor and handler.\<close>

theorem read_completion_answer:
  assumes inv: "pinv s (a # rest) {}" and x: "heap (mem s) a = Some (Op x)" and c: "heap (mem s) c = Some (Ctx cx)"
    and h: "ctx_handler cx = op_handler x" and rd: "op_type x = OP_READ" and e: "ev_data e = Ptr a"
    and n: "0 < n" "n < 4096" "ev_res e = of_nat n" and alloc: "k_alloc K (now (mem s))"
  shows "\<exists>s' b y cy. dispatch_completion K e s = Inr s' \<and> pending_ops (pro s') = Ptr b
     \<and> heap (mem s') b = Some (Op y) \<and> op_next y = pending_ops (pro s) \<and> op_fd y = op_fd x \<and> op_handler y = op_handler x
     \<and> heap (mem s') a = None \<and> heap (mem s') c = Some (Ctx cy)
     \<and> (if n < 4090
        then op_type y = OP_WRITE \<and> op_size y = of_nat (n + 6) \<and> op_buffer y = Ptr (c, WriteBuf)
           \<and> take (n + 6) (ctx_write_buf cy) = echo_prefix @ take n (ctx_read_buf cx)
        else op_type y = OP_READ \<and> op_size y = 4095 \<and> op_buffer y = Ptr (c, ReadBuf)
           \<and> ctx_write_buf cy = ctx_write_buf cx)"
proof -
  obtain t g where T: "ctx_table (pro s) = Ptr t" "max_connections (pro s) = int (length t)" "op_handler x = Ptr g"
    "ctx_handler cx = Ptr g" "heap (mem s) g = Some (Handler (std_handler c))" "ctx_fd cx = op_fd x" "0 \<le> op_fd x"
    "nat (op_fd x) < length t" "table_at (pro s) (op_fd x) = Inr (Ptr c)"
    and len: "length (ctx_read_buf cx) = 4096" "length (ctx_write_buf cx) = 4096" and ne: "c \<noteq> a" "g \<noteq> a"
    and H: "heap_inv t (heap (mem s)) (next_addr (mem s)) {}" and v: "valid_context (op_fd x) (Ptr c) s = Inr (Some c)"
    by (rule completion_facts [OF inv x c h])
  let ?n = "next_addr (mem s)"
  have fresh: "?n \<noteq> a" "?n \<noteq> c" using heap_invD(2) [OF H x] heap_invD(2) [OF H c] by auto
  have range: "\<not> (op_fd x < 0 \<or> max_connections (pro s) \<le> op_fd x)" using T by auto
  have dispatch: "dispatch_completion K e s = rbind (handle_read_completion K (op_fd x) (Ptr c) (int n) s) (free_op a)"
    using e x range T n rd small_bytes [OF n(2)]
    by (simp add: dispatch_completion_def Let_def call_back_def sint_bytes)
  let ?rb = "blit n [0] (ctx_read_buf cx)"
  have rb: "length ?rb = 4096" using len n by simp
  have take_rb: "take n ?rb = take n (ctx_read_buf cx)" using len n by (simp add: blit_def)
  show ?thesis
  proof (cases "n < 4090")
    case True
    let ?wb = "blit 6 (take n ?rb) (blit 0 echo_prefix (ctx_write_buf cx))"
    have echo: "take (n + 6) ?wb = echo_prefix @ take n (ctx_read_buf cx)"
      using echo_in_place [OF len(2) rb True] take_rb by (simp add: add.commute)
    have "handle_read_completion K (op_fd x) (Ptr c) (int n) s
        = submit_echo K (op_fd x) c (6 + n) (s\<lparr>mem := put c (Ctx (cx\<lparr>ctx_read_buf := ?rb, ctx_write_buf := ?wb\<rparr>)) (mem s)\<rparr>)"
      using True c len n v unfolding handle_read_completion_def by (simp add: Let_def PROACTOR_BUFFER_SIZE_def)
    then show ?thesis
      using dispatch alloc fresh ne x True echo T
      by (simp add: submit_echo_def sys_alloc_def proactor_submit_operation_def free_op_def add.commute)
  next
    case False
    have "handle_read_completion K (op_fd x) (Ptr c) (int n) s
        = submit_next_read_operation K c (s\<lparr>mem := put c (Ctx (cx\<lparr>ctx_read_buf := ?rb\<rparr>)) (mem s)\<rparr>)"
      using False c len n v unfolding handle_read_completion_def by (simp add: Let_def PROACTOR_BUFFER_SIZE_def)
    then show ?thesis
      using dispatch alloc fresh ne x False T
      by (simp add: submit_next_read_operation_def sys_alloc_def proactor_submit_operation_def free_op_def
          PROACTOR_BUFFER_SIZE_def)
  qed
qed

lemma read_completion_answer_witness:
  "\<exists>s' b y cy. dispatch_completion (demo_proactor_kernel (\<lambda>_. []) (\<lambda>_. 0)) \<lparr>ev_data = Ptr 2, ev_res = 5, ev_res2 = 0\<rparr> demo_pstate
       = Inr s'
     \<and> pending_ops (pro s') = Ptr b \<and> heap (mem s') b = Some (Op y) \<and> op_type y = OP_WRITE \<and> op_size y = 11
     \<and> heap (mem s') 0 = Some (Ctx cy) \<and> take 11 (ctx_write_buf cy) = echo_prefix @ take 5 (replicate 4096 0)"
  using read_completion_answer [of demo_pstate 2 "[]" "demo_op OP_READ" 0
      "zero_ctx\<lparr>ctx_fd := 6, ctx_proactor := True, ctx_handler := Ptr 1\<rparr>"
      "\<lparr>ev_data = Ptr 2, ev_res = 5, ev_res2 = 0\<rparr>" 5 "demo_proactor_kernel (\<lambda>_. []) (\<lambda>_. 0)", OF demo_pstate_inv]
  by (simp add: demo_pstate_def demo_op_def zero_op_def zero_ctx_def demo_proactor_kernel_def, metis)

section \<open>Error completions\<close>

text \<open>C11: An operation of a live connection that completes with the error \<open>err\<close>. On \<open>EAGAIN\<close> the same operation
  goes back to the pool and the connection is untouched; on every other error the connection is closed and its
  context, its handler and the operation are freed. \<open>handle_error\<close> is not needed for that: \<open>res\<close> is unsigned, so
  the branch that calls it is never taken and the read or write handler closes the connection.\<close>

theorem error_completion_outcome:
  assumes inv: "pinv s (a # rest) {}" and x: "heap (mem s) a = Some (Op x)" and c: "heap (mem s) c = Some (Ctx cx)"
    and h: "ctx_handler cx = op_handler x" and e: "ev_data e = Ptr a" and err: "0 < err" "err < 4096"
    and res: "ev_res e = - word_of_int err"
  shows "\<exists>s'. dispatch_completion K e s = Inr s' \<and>
     (if err = EAGAIN
      then pending_ops (pro s') = Ptr a \<and> heap (mem s') a = Some (Op (x\<lparr>op_next := pending_ops (pro s)\<rparr>))
         \<and> ctx_table (pro s') = ctx_table (pro s) \<and> (\<forall>b. b \<noteq> a \<longrightarrow> heap (mem s') b = heap (mem s) b)
      else table_at (pro s') (op_fd x) = Inr NULL \<and> SysClose (op_fd x) \<in> set (trace (mem s'))
         \<and> heap (mem s') a = None \<and> heap (mem s') c = None \<and> (\<forall>g. op_handler x = Ptr g \<longrightarrow> heap (mem s') g = None))"
proof -
  obtain t g where T: "ctx_table (pro s) = Ptr t" "max_connections (pro s) = int (length t)" "op_handler x = Ptr g"
    "ctx_handler cx = Ptr g" "heap (mem s) g = Some (Handler (std_handler c))" "ctx_fd cx = op_fd x" "0 \<le> op_fd x"
    "nat (op_fd x) < length t" "t ! nat (op_fd x) = Ptr c" "table_at (pro s) (op_fd x) = Inr (Ptr c)"
    and ne: "c \<noteq> a" "g \<noteq> a" and ty: "op_type x = OP_READ \<or> op_type x = OP_WRITE"
    and v: "valid_context (op_fd x) (Ptr c) s = Inr (Some c)"
    by (rule completion_facts [OF inv x c h])
  have range: "\<not> (op_fd x < 0 \<or> max_connections (pro s) \<le> op_fd x)" using T by auto
  have bytes: "sint (- word_of_int err :: u64) = - err" by (rule word_of_errno [OF err])
  show ?thesis
  proof (cases "err = EAGAIN")
    case True
    have code: "sint (ucast (- (- word_of_int 11) :: u64) :: u32) = 11" using error_code_errno [of 11] by simp
    show ?thesis
      using e x range T res True code
      by (simp add: dispatch_completion_def Let_def proactor_submit_operation_def)
  next
    case False
    have code: "sint (ucast (- (- word_of_int err) :: u64) :: u32) \<noteq> 11" using error_code_errno [OF err] False by simp
    have "dispatch_completion K e s = rbind (proactor_remove_connection K (op_fd x) s) (free_op a)"
      using e x range T res False code ty err v bytes
      by (auto simp: dispatch_completion_def Let_def call_back_def handle_read_completion_def handle_write_completion_def)
    moreover from inv obtain s1 where s1: "proactor_remove_connection K (op_fd x) s = Inr s1"
        "heap (mem s1) = (heap (mem s))(g := None, c := None)" "ctx_table (pro s1) = Ptr (t[nat (op_fd x) := NULL])"
        "SysClose (op_fd x) \<in> set (trace (mem s1))"
    proof (cases rule: remove_cases [where K = K and f = "op_fd x"])
      case nothing_there
      then show ?thesis using T by simp
    next
      case (removed s' c' h' x' t')
      then have "t' = t" "c' = c" using T by auto
      moreover have "x' = cx" "h' = g" using removed c T calculation by auto
      moreover have "SysClose (op_fd x) \<in> set (trace (mem s'))" using removed(11) by auto
      ultimately show ?thesis using removed that by simp
    qed
    ultimately show ?thesis
      using False x ne T by (simp add: free_op_def table_at_def)
  qed
qed

lemma error_completion_outcome_witness:
  "\<exists>s'. dispatch_completion (demo_proactor_kernel (\<lambda>_. []) (\<lambda>_. 0)) \<lparr>ev_data = Ptr 2, ev_res = - word_of_int 104, ev_res2 = 0\<rparr>
       demo_pstate = Inr s'
     \<and> table_at (pro s') 6 = Inr NULL \<and> SysClose 6 \<in> set (trace (mem s')) \<and> heap (mem s') 0 = None"
  using error_completion_outcome [of demo_pstate 2 "[]" "demo_op OP_READ" 0
      "zero_ctx\<lparr>ctx_fd := 6, ctx_proactor := True, ctx_handler := Ptr 1\<rparr>"
      "\<lparr>ev_data = Ptr 2, ev_res = - word_of_int 104, ev_res2 = 0\<rparr>" 104 "demo_proactor_kernel (\<lambda>_. []) (\<lambda>_. 0)", OF demo_pstate_inv]
  by (simp add: demo_pstate_def demo_op_def zero_op_def zero_ctx_def, metis)

section \<open>Ownership\<close>



section \<open>The pool is a stack\<close>

text \<open>C27: Operations are taken in the reverse order of their submission: after submitting any operations, taking as
  many yields them last first and leaves the pool as it was, however full it is. The source calls the list a
  queue; an operation waits as long as later ones keep coming.\<close>

theorem pending_ops_last_in_first_out:
  assumes "pool_inv s" and "distinct as" and "\<forall>a\<in>set as. can_submit a s"
  shows "\<exists>s1 s2. put_all proactor_submit_operation as s = Inr s1
     \<and> take_all take_operation (length as) s1 = Inr (rev as, s2) \<and> pool_items s1 = rev as @ pool_items s
     \<and> pool_items s2 = pool_items s"
proof -
  obtain s1 where s1: "put_all proactor_submit_operation as s = Inr s1" "pool_inv s1" "pool_items s1 = rev as @ pool_items s"
    using op_pool.put_all_items [OF assms] by blast
  then show ?thesis using op_pool.take_all_items [OF s1(2, 3)] by auto
qed

lemma pending_ops_last_in_first_out_witness:
  "\<exists>s1 s2. put_all proactor_submit_operation [2] demo_pstate = Inr s1 \<and> take_all take_operation 1 s1 = Inr ([2], s2)
     \<and> pool_items s2 = pool_items demo_pstate"
proof -
  have "pool_inv demo_pstate" using demo_pstate_inv by (auto simp: pool_inv_def)
  moreover have "can_submit 2 demo_pstate" by (simp add: can_submit_iff [OF demo_pstate_inv])
  ultimately show ?thesis using pending_ops_last_in_first_out [of demo_pstate "[2]"] by auto
qed

section \<open>The end\<close>



text \<open>C26: What \<open>cleanup_proactor_resources\<close> does when it runs: it closes the epoll descriptor, the exit event, the
  listening socket and every connection, frees every context and handler, and frees no operation, so that what
  is left of the heap are exactly the live operations.\<close>

theorem cleanup_leaves_only_operations:
  assumes "pinv s rest {}"
  shows "\<exists>s'. cleanup_proactor_resources s = Inr s'
     \<and> (\<forall>a v. heap (mem s') a = Some v \<longleftrightarrow> (\<exists>x. v = Op x \<and> heap (mem s) a = Some (Op x)))
     \<and> (\<forall>f c. table_at (pro s) f = Inr (Ptr c) \<longrightarrow> SysClose f \<in> set (trace (mem s')))
     \<and> (\<forall>f\<in>{pr_epoll_fd (pro s), pr_exit_event_fd (pro s), pr_listen_fd (pro s)}. 0 \<le> f \<longrightarrow> SysClose f \<in> set (trace (mem s')))"
proof (rule cleanup_spec [OF assms])
  fix s'
  assume s': "cleanup_proactor_resources s = Inr s'" "same_ops (heap (mem s)) (heap (mem s'))"
      "\<And>a v. heap (mem s') a = Some v \<Longrightarrow> \<exists>x. v = Op x"
      "\<And>f c. table_at (pro s) f = Inr (Ptr c) \<Longrightarrow> SysClose f \<in> set (trace (mem s'))"
      "\<And>f. f \<in> {pr_epoll_fd (pro s), pr_exit_event_fd (pro s), pr_listen_fd (pro s)} \<Longrightarrow> 0 \<le> f
           \<Longrightarrow> SysClose f \<in> set (trace (mem s'))"
  have "heap (mem s') a = Some v \<longleftrightarrow> (\<exists>x. v = Op x \<and> heap (mem s) a = Some (Op x))" for a v
    using s'(2, 3) unfolding same_ops_def by blast
  then show ?thesis using s'(1, 4, 5) by blast
qed

lemma cleanup_leaves_only_operations_witness:
  "\<exists>s'. cleanup_proactor_resources demo_pstate = Inr s' \<and> heap (mem s') 0 = None \<and> heap (mem s') 2 = heap (mem demo_pstate) 2
     \<and> SysClose 6 \<in> set (trace (mem s'))"
proof -
  obtain s' where s': "cleanup_proactor_resources demo_pstate = Inr s'"
      "\<forall>a v. heap (mem s') a = Some v \<longleftrightarrow> (\<exists>x. v = Op x \<and> heap (mem demo_pstate) a = Some (Op x))"
      "\<forall>f c. table_at (pro demo_pstate) f = Inr (Ptr c) \<longrightarrow> SysClose f \<in> set (trace (mem s'))"
    using cleanup_leaves_only_operations [OF demo_pstate_inv] by blast
  have "table_at (pro demo_pstate) 6 = Inr (Ptr 0)" by (simp add: demo_pstate_def table_at_def)
  moreover have "heap (mem demo_pstate) 2 = Some (Op (demo_op OP_READ))" by (simp add: demo_pstate_def)
  moreover have "\<nexists>x. heap (mem demo_pstate) 0 = Some (Op x)" by (simp add: demo_pstate_def)
  ultimately show ?thesis using s' by (intro exI [of _ s']) (metis not_None_eq)
qed

end
