(* ===== verification/Hybrid.thy ===== *)
theory Hybrid
  imports Aio
begin

text \<open>
  \<open>codes/network/proactor_epoll/hybrid_proactor.h\<close> and the connection management and event
  handling of \<open>hybrid_proactor.c\<close>, as one worker thread runs them.

  \<^item> A \<open>mt_connection_t *\<close> is an address of the heap. The connections of a worker are a linked
    list through \<open>next\<close>; \<open>conn_list_lock\<close> makes each operation on it atomic and has no
    counterpart, nor has the mutex of a connection, which is never locked.
  \<^item> A worker owns an AIO context; the functions pass on the worker, the world and the context.
  \<^item> \<open>epoll_data\<close> is a union: \<open>DataFd\<close> or \<open>DataPtr\<close>, as it was stored.
  \<^item> \<open>client_addr\<close> is only stored and printed and is left out. A message that prints
    \<open>conn->fd\<close> reads the connection and is modelled by the load where it can fault.
\<close>

section \<open>Data\<close>

definition HYBRID_BUFFER_SIZE :: nat where "HYBRID_BUFFER_SIZE = 4096"
definition HYBRID_MAX_EVENTS :: nat where "HYBRID_MAX_EVENTS = 64"
definition MAX_WORKER_THREADS :: int where "MAX_WORKER_THREADS = 16"
definition DEFAULT_PORT :: int where "DEFAULT_PORT = 8080"

datatype conn_state = CONN_ACTIVE | CONN_IDLE | CONN_SLOW | CONN_SUSPENDED

record mt_connection =
  mt_fd :: fd
  mt_state :: conn_state
  readable :: bool
  writable :: bool
  mt_read_buf :: "u8 list"
  mt_write_buf :: "u8 list"
  write_pending :: u64
  last_activity :: u64
  is_removing :: bool
  ref_count :: int
  mt_worker_id :: nat
  mt_next :: "addr ptr"

record worker_context =
  wk_id :: nat
  wk_thread :: bool
  wk_running :: bool
  wk_epoll_fd :: fd
  wk_aio_ctx :: bool
  wk_connections :: "addr ptr"
  total_operations :: u64
  eagain_errors :: u64
  successful_ops :: u64

datatype epoll_data = DataFd fd | DataPtr addr

type_synonym hworld = "(mt_connection, epoll_data) world"

record hstate =
  wrk :: worker_context
  hmem :: hworld
  haio :: aio

section \<open>Small steps\<close>

text \<open>The assignments to fields of a connection, with \<open>time(NULL)\<close> for the activity.\<close>

definition update_conn :: "addr \<Rightarrow> (mt_connection \<Rightarrow> mt_connection) \<Rightarrow> hstate \<Rightarrow> hstate res" where
  "update_conn a f s = rbind (load a (hmem s)) (\<lambda>c. rbind (store a (f c) (hmem s)) (\<lambda>w. Inr (s\<lparr>hmem := w\<rparr>)))"

definition touch :: "kernel \<Rightarrow> addr \<Rightarrow> hstate \<Rightarrow> hstate res" where
  "touch K a s = (case sys_clock K (hmem s) of ((sec, nsec), w) \<Rightarrow>
     update_conn a (\<lambda>c. c\<lparr>last_activity := sec\<rparr>) (s\<lparr>hmem := w\<rparr>))"

definition count_success :: "hstate \<Rightarrow> hstate" where
  "count_success s = s\<lparr>wrk := (wrk s)\<lparr>successful_ops := successful_ops (wrk s) + 1\<rparr>\<rparr>"

definition count_operation :: "hstate \<Rightarrow> hstate" where
  "count_operation s = s\<lparr>wrk := (wrk s)\<lparr>total_operations := total_operations (wrk s) + 1\<rparr>\<rparr>"

definition count_eagain :: "hstate \<Rightarrow> hstate" where
  "count_eagain s = s\<lparr>wrk := (wrk s)\<lparr>eagain_errors := eagain_errors (wrk s) + 1\<rparr>\<rparr>"

section \<open>Connections\<close>

definition zero_mt_connection :: mt_connection where
  "zero_mt_connection = \<lparr>mt_fd = 0, mt_state = CONN_ACTIVE, readable = False, writable = False,
     mt_read_buf = replicate 4096 0, mt_write_buf = replicate 4096 0, write_pending = 0, last_activity = 0,
     is_removing = False, ref_count = 0, mt_worker_id = 0, mt_next = NULL\<rparr>"

definition mt_create_connection :: "kernel \<Rightarrow> fd \<Rightarrow> nat \<Rightarrow> hworld \<Rightarrow> (addr ptr \<times> hworld) res" where
  "mt_create_connection K f wid w = (case sys_alloc K zero_mt_connection w of
     (NULL, w1) \<Rightarrow> Inr (NULL, w1)
   | (Ptr a, w1) \<Rightarrow> (case sys_clock K w1 of ((sec, nsec), w2) \<Rightarrow>
       rbind (store a (zero_mt_connection\<lparr>mt_fd := f, mt_worker_id := wid, readable := True, writable := True,
           mt_state := CONN_ACTIVE, last_activity := sec, is_removing := False, ref_count := 1\<rparr>) w2) (\<lambda>w3.
         Inr (Ptr a, w3))))"

text \<open>
  The loop that looks for the pointer that points to a connection: \<open>None\<close> at the end of the
  list, \<open>Some None\<close> for \<open>worker->connections\<close>, \<open>Some (Some b)\<close> for \<open>b->next\<close>. A walk of more
  steps than addresses were ever allocated visits a node twice and does not end.
\<close>

fun find_link :: "nat \<Rightarrow> addr \<Rightarrow> addr option \<Rightarrow> addr ptr \<Rightarrow> hworld \<Rightarrow> addr option option res" where
  "find_link 0 a prev p w = (case p of NULL \<Rightarrow> Inr None | Ptr b \<Rightarrow> if b = a then Inr (Some prev) else Inl Diverges)"
| "find_link (Suc n) a prev p w = (case p of
     NULL \<Rightarrow> Inr None
   | Ptr b \<Rightarrow> if b = a then Inr (Some prev)
              else rbind (load b w) (\<lambda>c. find_link n a (Some b) (mt_next c) w))"

text \<open>Taking a connection out of the list of its worker.\<close>

definition unlink :: "addr \<Rightarrow> hstate \<Rightarrow> hstate res" where
  "unlink a s = rbind (find_link (next_addr (hmem s)) a None (wk_connections (wrk s)) (hmem s)) (\<lambda>r. case r of
     None \<Rightarrow> Inr s
   | Some prev \<Rightarrow> rbind (load a (hmem s)) (\<lambda>c.
       rbind (case prev of
           None \<Rightarrow> Inr (s\<lparr>wrk := (wrk s)\<lparr>wk_connections := mt_next c\<rparr>\<rparr>)
         | Some b \<Rightarrow> update_conn b (\<lambda>d. d\<lparr>mt_next := mt_next c\<rparr>) s)
         (update_conn a (\<lambda>c. c\<lparr>mt_next := NULL\<rparr>))))"

definition mt_remove_connection_safe :: "kernel \<Rightarrow> addr ptr \<Rightarrow> hstate \<Rightarrow> hstate res" where
  "mt_remove_connection_safe K p s = (case p of
     NULL \<Rightarrow> Inr s
   | Ptr a \<Rightarrow> rbind (load a (hmem s)) (\<lambda>c.
       if is_removing c then Inr s
       else rbind (update_conn a (\<lambda>c. c\<lparr>is_removing := True\<rparr>) s) (\<lambda>s1.
         let ep = wk_epoll_fd (wrk s1); f = mt_fd c;
             w2 = (if 0 \<le> ep \<and> 0 \<le> f then snd (sys_epoll_del K ep f (hmem s1)) else hmem s1)
         in rbind (if 0 \<le> f then update_conn a (\<lambda>c. c\<lparr>mt_fd := -1\<rparr>) (s1\<lparr>hmem := sys_close f w2\<rparr>)
                   else Inr (s1\<lparr>hmem := w2\<rparr>)) (\<lambda>s2.
            rbind (unlink a s2) (\<lambda>s3.
            rbind (sys_free a (hmem s3)) (\<lambda>w4. Inr (s3\<lparr>hmem := w4\<rparr>)))))))"

definition mt_add_connection_to_worker :: "kernel \<Rightarrow> addr \<Rightarrow> hstate \<Rightarrow> hstate res" where
  "mt_add_connection_to_worker K a s =
     rbind (update_conn a (\<lambda>c. c\<lparr>mt_next := wk_connections (wrk s)\<rparr>) s) (\<lambda>s1.
     let s2 = s1\<lparr>wrk := (wrk s1)\<lparr>wk_connections := Ptr a\<rparr>\<rparr>
     in rbind (load a (hmem s2)) (\<lambda>c.
        case sys_epoll_add K (wk_epoll_fd (wrk s2)) (mt_fd c) (DataPtr a)
               (EPOLLIN OR EPOLLOUT OR EPOLLET OR EPOLLRDHUP) (hmem s2) of
          (None, w) \<Rightarrow> Inr (s2\<lparr>hmem := w\<rparr>)
        | (Some e, w) \<Rightarrow>
            mt_remove_connection_safe K (Ptr a) (s2\<lparr>hmem := w, wrk := (wrk s2)\<lparr>wk_connections := mt_next c\<rparr>\<rparr>)))"

section \<open>Asynchronous operations\<close>

definition submit_block :: "kernel \<Rightarrow> iocb \<Rightarrow> hstate \<Rightarrow> hstate" where
  "submit_block K b s = (case io_submit K b (haio s) (hmem s) of (ret, q, w) \<Rightarrow>
     let s1 = s\<lparr>haio := q, hmem := w\<rparr>
     in if ret = 1 then count_operation s1 else if ret = - EAGAIN then count_eagain s1 else s1)"

definition mt_submit_async_read :: "kernel \<Rightarrow> addr \<Rightarrow> hstate \<Rightarrow> hstate res" where
  "mt_submit_async_read K a s = rbind (load a (hmem s)) (\<lambda>c.
     Inr (submit_block K ((io_prep_pread (mt_fd c) (Ptr (a, ReadBuf)) (of_nat (HYBRID_BUFFER_SIZE - 1)) 0)\<lparr>io_data := Ptr a\<rparr>) s))"

definition mt_submit_async_write :: "kernel \<Rightarrow> addr \<Rightarrow> hstate \<Rightarrow> hstate res" where
  "mt_submit_async_write K a s = rbind (load a (hmem s)) (\<lambda>c.
     Inr (submit_block K ((io_prep_pwrite (mt_fd c) (Ptr (a, WriteBuf)) (write_pending c) 0)\<lparr>io_data := Ptr a\<rparr>) s))"

section \<open>Reading and writing\<close>

definition mt_try_write :: "kernel \<Rightarrow> addr \<Rightarrow> hstate \<Rightarrow> hstate res" where
  "mt_try_write K a s = rbind (load a (hmem s)) (\<lambda>c.
     if \<not> writable c \<or> write_pending c = 0 then Inr s
     else rbind (mem_read 0 (unat (write_pending c)) (mt_write_buf c)) (\<lambda>bs.
       case sys_write K (mt_fd c) bs (hmem s) of
         (Inr n, w) \<Rightarrow>
           if 0 < n then
             let wb = (if n < unat (write_pending c)
                       then blit 0 (slice n (unat (write_pending c) - n) (mt_write_buf c)) (mt_write_buf c)
                       else mt_write_buf c)
             in rbind (update_conn a (\<lambda>c. c\<lparr>mt_write_buf := wb, write_pending := write_pending c - of_nat n\<rparr>) (s\<lparr>hmem := w\<rparr>))
                  (\<lambda>s1. touch K a (count_operation (count_success s1)))
           else Inr (s\<lparr>hmem := w\<rparr>)
       | (Inl e, w) \<Rightarrow>
           if e = EAGAIN \<or> e = EWOULDBLOCK
           then rbind (update_conn a (\<lambda>c. c\<lparr>writable := False\<rparr>) (s\<lparr>hmem := w\<rparr>))
                  (\<lambda>s1. mt_submit_async_write K a (count_eagain s1))
           else mt_remove_connection_safe K (Ptr a) (s\<lparr>hmem := w\<rparr>)))"

text \<open>\<open>"Echo: "\<close>; \<open>data\<close> is the read buffer of the connection in both calls.\<close>

definition hybrid_prefix :: "u8 list" where
  "hybrid_prefix = [69, 99, 104, 111, 58, 32]"

definition mt_process_data :: "kernel \<Rightarrow> addr \<Rightarrow> u64 \<Rightarrow> hstate \<Rightarrow> hstate res" where
  "mt_process_data K a len s = rbind (load a (hmem s)) (\<lambda>c.
     let prefix_len = of_nat (length hybrid_prefix); total_len = prefix_len + len
     in if total_len < of_nat HYBRID_BUFFER_SIZE then
          rbind (memcpy 0 hybrid_prefix (mt_write_buf c)) (\<lambda>wb1.
          rbind (mem_read 0 (unat len) (mt_read_buf c)) (\<lambda>data.
          rbind (memcpy (length hybrid_prefix) data wb1) (\<lambda>wb2.
          rbind (update_conn a (\<lambda>c. c\<lparr>mt_write_buf := wb2, write_pending := total_len\<rparr>) s) (\<lambda>s1.
            mt_try_write K a s1))))
        else Inr s)"

definition mt_try_read :: "kernel \<Rightarrow> addr \<Rightarrow> hstate \<Rightarrow> hstate res" where
  "mt_try_read K a s = rbind (load a (hmem s)) (\<lambda>c.
     if \<not> readable c then Inr s
     else case sys_read K (mt_fd c) (HYBRID_BUFFER_SIZE - 1) (hmem s) of
         (Inr bs, w) \<Rightarrow>
           if 0 < length bs then
             rbind (memcpy 0 bs (mt_read_buf c)) (\<lambda>rb1.
             rbind (memcpy (length bs) [0] rb1) (\<lambda>rb2.
             rbind (update_conn a (\<lambda>c. c\<lparr>mt_read_buf := rb2\<rparr>) (s\<lparr>hmem := w\<rparr>)) (\<lambda>s1.
             rbind (mt_process_data K a (of_nat (length bs)) s1) (\<lambda>s2.
               touch K a (count_operation (count_success s2))))))
           else mt_remove_connection_safe K (Ptr a) (s\<lparr>hmem := w\<rparr>)
       | (Inl e, w) \<Rightarrow>
           if e = EAGAIN \<or> e = EWOULDBLOCK
           then rbind (update_conn a (\<lambda>c. c\<lparr>readable := False\<rparr>) (s\<lparr>hmem := w\<rparr>))
                  (\<lambda>s1. mt_submit_async_read K a (count_eagain s1))
           else mt_remove_connection_safe K (Ptr a) (s\<lparr>hmem := w\<rparr>))"

section \<open>Events\<close>

definition mt_handle_connection_event :: "kernel \<Rightarrow> addr \<Rightarrow> u32 \<Rightarrow> hstate \<Rightarrow> hstate res" where
  "mt_handle_connection_event K a events s =
     (if events AND (EPOLLERR OR EPOLLHUP OR EPOLLRDHUP) \<noteq> 0
      then rbind (load a (hmem s)) (\<lambda>c. mt_remove_connection_safe K (Ptr a) s)
      else
        rbind (if events AND EPOLLIN \<noteq> 0
               then rbind (update_conn a (\<lambda>c. c\<lparr>readable := True\<rparr>) s) (mt_try_read K a)
               else Inr s) (\<lambda>s1.
        if events AND EPOLLOUT \<noteq> 0
        then rbind (update_conn a (\<lambda>c. c\<lparr>writable := True\<rparr>) s1) (mt_try_write K a)
        else Inr s1))"

text \<open>
  A completion. \<open>res\<close> and \<open>res2\<close> are unsigned words, so \<open>res > 0\<close> holds of every error too;
  \<open>-EAGAIN\<close> is converted to a word. A store beyond the read buffer is a fault.
\<close>

definition mt_handle_aio_completion :: "kernel \<Rightarrow> io_event \<Rightarrow> hstate \<Rightarrow> hstate res" where
  "mt_handle_aio_completion K e s = (case ev_data e of
     NULL \<Rightarrow> Inr s
   | Ptr a \<Rightarrow> rbind (load a (hmem s)) (\<lambda>c.
      if 0 < ev_res e then
        rbind (if ev_res2 e = 0
               then rbind (memcpy (unat (ev_res e)) [0] (mt_read_buf c)) (\<lambda>rb.
                    rbind (update_conn a (\<lambda>c. c\<lparr>mt_read_buf := rb\<rparr>) s)
                      (mt_process_data K a (ev_res e)))
               else Inr s) (\<lambda>s1. touch K a (count_success s1))
      else if ev_res e = - 11 then Inr (count_eagain s)
      else Inr s))"

end
