(* ===== verification/HybridInv.thy ===== *)
theory HybridInv
  imports Hybrid
begin

text \<open>
  The invariant of a worker of the hybrid proactor, and the effect of each function on it.

  \<^item> \<open>hinv s L\<close>: the connections of the worker are the linked list \<open>L\<close> of live blocks; no live
    connection is being removed, and the buffers and \<open>write_pending\<close> of all are in bounds.
  \<^item> \<open>hstep s L s' L'\<close>: the effect of a function of the worker, which may remove connections of
    \<open>L\<close> and leaves all others alone. After a removal the caller's next access faults.
\<close>

section \<open>The invariant\<close>

definition next_conn :: "(addr \<Rightarrow> mt_connection option) \<Rightarrow> addr \<Rightarrow> addr ptr option" where
  "next_conn H a = map_option mt_next (H a)"

definition conn_ok :: "mt_connection \<Rightarrow> bool" where
  "conn_ok c \<longleftrightarrow> \<not> is_removing c \<and> 0 \<le> mt_fd c \<and> length (mt_read_buf c) = 4096 \<and> length (mt_write_buf c) = 4096
     \<and> unat (write_pending c) < 4096"

text \<open>A control block in flight: its buffer is the one of the connection it belongs to.\<close>

definition iocb_ok :: "iocb \<Rightarrow> bool" where
  "iocb_ok b \<longleftrightarrow> (\<exists>a. io_data b = Ptr a \<and> io_buf b = Ptr (a, if io_opcode b = IO_CMD_PREAD then ReadBuf else WriteBuf))
     \<and> unat (io_nbytes b) < 4096"

definition aio_ok :: "aio \<Rightarrow> bool" where
  "aio_ok q \<longleftrightarrow> (\<forall>b\<in>set (in_flight q). iocb_ok b)"

text \<open>Operations on the connections \<open>L\<close> may be submitted.\<close>

definition aio_step :: "aio \<Rightarrow> addr list \<Rightarrow> aio \<Rightarrow> bool" where
  "aio_step q L q' \<longleftrightarrow> aio_ok q' \<and> finished q' = finished q
     \<and> (\<forall>b\<in>set (in_flight q'). b \<in> set (in_flight q) \<or> (\<exists>a\<in>set L. io_data b = Ptr a))"

lemma aio_step_refl [simp]: "aio_step q L q \<longleftrightarrow> aio_ok q"
  by (auto simp: aio_step_def)

lemma aio_step_trans: "aio_step q L q1 \<Longrightarrow> aio_step q1 L1 q2 \<Longrightarrow> set L1 \<subseteq> set L \<Longrightarrow> aio_step q L q2"
  unfolding aio_step_def by fastforce

definition hinv :: "hstate \<Rightarrow> addr list \<Rightarrow> bool" where
  "hinv s L \<longleftrightarrow> linked (next_conn (heap (hmem s))) (wk_connections (wrk s)) L \<and> set L \<subseteq> dom (heap (hmem s))
     \<and> (\<forall>a c. heap (hmem s) a = Some c \<longrightarrow> a < next_addr (hmem s) \<and> conn_ok c) \<and> aio_ok (haio s)"

lemma hinvD:
  assumes "hinv s L"
  shows "linked (next_conn (heap (hmem s))) (wk_connections (wrk s)) L" and "set L \<subseteq> dom (heap (hmem s))"
    and "heap (hmem s) a = Some c \<Longrightarrow> a < next_addr (hmem s)" and "heap (hmem s) a = Some c \<Longrightarrow> conn_ok c"
    and "distinct L" and "aio_ok (haio s)"
  using assms linked_distinct unfolding hinv_def by auto

lemma hinvI:
  assumes "linked (next_conn (heap (hmem s))) (wk_connections (wrk s)) L" and "set L \<subseteq> dom (heap (hmem s))"
    and "\<And>a c. heap (hmem s) a = Some c \<Longrightarrow> a < next_addr (hmem s) \<and> conn_ok c" and "aio_ok (haio s)"
  shows "hinv s L"
  using assms unfolding hinv_def by blast

lemma hinv_live: "hinv s L \<Longrightarrow> a \<in> set L \<Longrightarrow> \<exists>c. heap (hmem s) a = Some c"
  unfolding hinv_def by blast

text \<open>
  What a function of a worker with the connections \<open>L\<close> does: it may remove some of them and
  change those that stay, and it leaves the connections of the other workers alone.
\<close>

definition hstep :: "hstate \<Rightarrow> addr list \<Rightarrow> hstate \<Rightarrow> addr list \<Rightarrow> bool" where
  "hstep s L s' L' \<longleftrightarrow> hinv s' L' \<and> set L' \<subseteq> set L \<and> dom (heap (hmem s')) = dom (heap (hmem s)) - (set L - set L')
     \<and> next_addr (hmem s') = next_addr (hmem s) \<and> (\<forall>b. b \<notin> set L \<longrightarrow> heap (hmem s') b = heap (hmem s) b)
     \<and> wk_running (wrk s') = wk_running (wrk s) \<and> wk_epoll_fd (wrk s') = wk_epoll_fd (wrk s)
     \<and> (\<forall>ep f i. interest (hmem s') ep f = Some i \<longrightarrow> interest (hmem s) ep f = Some i)
     \<and> aio_step (haio s) L (haio s')"

lemma hstepD:
  assumes "hstep s L s' L'"
  shows "hinv s' L'" and "set L' \<subseteq> set L" and "dom (heap (hmem s')) = dom (heap (hmem s)) - (set L - set L')"
    and "next_addr (hmem s') = next_addr (hmem s)" and "b \<notin> set L \<Longrightarrow> heap (hmem s') b = heap (hmem s) b"
    and "wk_running (wrk s') = wk_running (wrk s)"
    and "interest (hmem s') ep f = Some i \<Longrightarrow> interest (hmem s) ep f = Some i"
    and "wk_epoll_fd (wrk s') = wk_epoll_fd (wrk s)" and "aio_step (haio s) L (haio s')"
  using assms unfolding hstep_def by blast+

lemma hstep_trans:
  assumes 1: "hstep s L s1 L1" and 2: "hstep s1 L1 s2 L2"
  shows "hstep s L s2 L2"
proof -
  have "dom (heap (hmem s2)) = dom (heap (hmem s)) - (set L - set L2)"
    unfolding hstepD(3) [OF 2] hstepD(3) [OF 1] using hstepD(2) [OF 1] hstepD(2) [OF 2] by blast
  moreover have "aio_step (haio s) L (haio s2)"
    using hstepD(9) [OF 1] hstepD(9) [OF 2] hstepD(2) [OF 1] by (rule aio_step_trans)
  ultimately show ?thesis using 1 2 unfolding hstep_def by (auto dest: subsetD)
qed

text \<open>Changes that no connection sees: counters, other calls of the kernel.\<close>

definition idle_step :: "hstate \<Rightarrow> hstate \<Rightarrow> bool" where
  "idle_step s s' \<longleftrightarrow> wk_connections (wrk s') = wk_connections (wrk s) \<and> wk_running (wrk s') = wk_running (wrk s)
     \<and> wk_epoll_fd (wrk s') = wk_epoll_fd (wrk s) \<and> heap (hmem s') = heap (hmem s)
     \<and> next_addr (hmem s') = next_addr (hmem s) \<and> interest (hmem s') = interest (hmem s) \<and> haio s' = haio s"

lemma idle_hstep: "hinv s L \<Longrightarrow> idle_step s s' \<Longrightarrow> hstep s L s' L"
  unfolding hstep_def hinv_def idle_step_def by auto

lemma counts_simps [simp]:
  "hmem (count_success s) = hmem s" "hmem (count_operation s) = hmem s" "hmem (count_eagain s) = hmem s"
  "haio (count_success s) = haio s" "haio (count_operation s) = haio s" "haio (count_eagain s) = haio s"
  "wk_connections (wrk (count_success s)) = wk_connections (wrk s)"
  "wk_connections (wrk (count_operation s)) = wk_connections (wrk s)"
  "wk_connections (wrk (count_eagain s)) = wk_connections (wrk s)"
  "wk_running (wrk (count_success s)) = wk_running (wrk s)"
  "wk_running (wrk (count_operation s)) = wk_running (wrk s)"
  "wk_running (wrk (count_eagain s)) = wk_running (wrk s)"
  "wk_epoll_fd (wrk (count_success s)) = wk_epoll_fd (wrk s)"
  "wk_epoll_fd (wrk (count_operation s)) = wk_epoll_fd (wrk s)"
  "wk_epoll_fd (wrk (count_eagain s)) = wk_epoll_fd (wrk s)"
  by (simp_all add: count_success_def count_operation_def count_eagain_def)

section \<open>Changes of one connection\<close>

lemma update_conn_Some:
  "heap (hmem s) a = Some c \<Longrightarrow> update_conn a f s = Inr (s\<lparr>hmem := put a (f c) (hmem s)\<rparr>)"
  by (simp add: update_conn_def)

lemma update_conn_None: "heap (hmem s) a = None \<Longrightarrow> update_conn a f s = Inl UseAfterFree"
  by (simp add: update_conn_def load_def)

text \<open>A change of one connection that keeps the link and the bounds.\<close>

lemma hstep_put:
  assumes inv: "hinv s L" and "a \<in> set L" and a: "heap (hmem s) a = Some c"
    and d: "mt_next d = mt_next c" "conn_ok d"
    and H: "heap (hmem s') = (heap (hmem s))(a \<mapsto> d)"
    and eq: "wk_connections (wrk s') = wk_connections (wrk s)" "wk_running (wrk s') = wk_running (wrk s)"
      "wk_epoll_fd (wrk s') = wk_epoll_fd (wrk s)" "next_addr (hmem s') = next_addr (hmem s)"
      "interest (hmem s') = interest (hmem s)"
    and q: "aio_step (haio s) L (haio s')"
  shows "hstep s L s' L"
proof -
  have "hinv s' L"
  proof (rule hinvI [OF _ _ _ q [unfolded aio_step_def, THEN conjunct1]])
    have "next_conn (heap (hmem s')) b = next_conn (heap (hmem s)) b" for b
      using a d(1) by (simp add: H next_conn_def)
    then have "linked (next_conn (heap (hmem s'))) (wk_connections (wrk s)) L
        \<longleftrightarrow> linked (next_conn (heap (hmem s))) (wk_connections (wrk s)) L"
      by (intro linked_cong) simp
    then show "linked (next_conn (heap (hmem s'))) (wk_connections (wrk s')) L"
      using hinvD(1) [OF inv] by (simp add: eq)
    show "set L \<subseteq> dom (heap (hmem s'))" using hinvD(2) [OF inv] by (auto simp: H)
    show "b < next_addr (hmem s') \<and> conn_ok e" if "heap (hmem s') b = Some e" for b e
      using that hinvD(3, 4) [OF inv] a d(2) by (auto simp: H eq split: if_splits)
  qed
  then show ?thesis using a \<open>a \<in> set L\<close> by (auto simp: hstep_def H eq q)
qed

section \<open>Removing a connection\<close>

text \<open>The search finds the pointer to a node of the list.\<close>

lemma find_link_found:
  assumes "linked (next_conn (heap w)) p (us @ a # vs)" and "a \<notin> set us" and "length us \<le> n"
  shows "find_link n a prev p w = Inr (Some (if us = [] then prev else Some (last us)))"
  using assms
proof (induction us arbitrary: n p prev)
  case Nil
  then show ?case by (cases n) auto
next
  case (Cons b us)
  then obtain m where n: "n = Suc m" by (cases n) auto
  have ba: "b \<noteq> a" using Cons.prems(2) by auto
  obtain q where q: "next_conn (heap w) b = Some q" "linked (next_conn (heap w)) q (us @ a # vs)" and p: "p = Ptr b"
    using Cons.prems(1) by (auto split: option.splits)
  obtain c where c: "heap w b = Some c" and mq: "mt_next c = q" using q(1) by (auto simp: next_conn_def)
  have link: "linked (next_conn (heap w)) (mt_next c) (us @ a # vs)" using q(2) mq by simp
  have "find_link m a (Some b) (mt_next c) w = Inr (Some (if us = [] then Some b else Some (last us)))"
    by (rule Cons.IH [OF link]) (use Cons.prems n in auto)
  then show ?case using n p ba c by simp
qed

text \<open>The list without a node.\<close>

lemma linked_unlink:
  assumes "linked nx p (us @ a # vs)" and "distinct (us @ a # vs)" and "nx a = Some q"
    and "\<And>b. b \<in> set (us @ vs) \<Longrightarrow> nx' b = (if us \<noteq> [] \<and> b = last us then Some q else nx b)"
  shows "linked nx' (if us = [] then q else p) (us @ vs)"
  using assms
proof (induction us arbitrary: p)
  case Nil
  then have "linked nx q vs" by simp
  then show ?case using linked_cong [of vs nx' nx q] Nil(4) by simp
next
  case (Cons b us)
  obtain r where r: "nx b = Some r" "linked nx r (us @ a # vs)" "p = Ptr b" using Cons.prems(1) by (auto split: option.splits)
  have dist: "distinct (us @ a # vs)" and b: "b \<notin> set us" "b \<notin> set vs" using Cons.prems(2) by auto
  show ?case
  proof (cases "us = []")
    case True
    then have "linked nx q vs" using r Cons.prems(3) by simp
    moreover have "linked nx' q vs \<longleftrightarrow> linked nx q vs"
      by (rule linked_cong) (use Cons.prems(4) True b in auto)
    moreover have "nx' b = Some q" using Cons.prems(4) [of b] True by simp
    ultimately show ?thesis using r(3) True by simp
  next
    case False
    have "linked nx' (if us = [] then q else r) (us @ vs)"
    proof (rule Cons.IH [OF r(2) dist Cons.prems(3)])
      fix d assume d: "d \<in> set (us @ vs)"
      then show "nx' d = (if us \<noteq> [] \<and> d = last us then Some q else nx d)"
        using Cons.prems(4) [of d] False by simp
    qed
    moreover have "last us \<noteq> b" using b False last_in_set by blast
    then have "nx' b = Some r" using Cons.prems(4) [of b] False r(1) by simp
    ultimately show ?thesis using r(3) False by simp
  qed
qed

text \<open>The connection is unlinked, closed and freed, and nothing else changes but one link.\<close>

lemma remove_spec:
  assumes inv: "hinv s L" and aL: "a \<in> set L" and a: "heap (hmem s) a = Some c"
  obtains s' where "mt_remove_connection_safe K (Ptr a) s = Inr s'" and "hstep s L s' (remove1 a L)"
    and "heap (hmem s') a = None"
    and "\<And>b d. b \<noteq> a \<Longrightarrow> heap (hmem s) b = Some d \<Longrightarrow> \<exists>p. heap (hmem s') b = Some (d\<lparr>mt_next := p\<rparr>)"
    and "\<exists>ok. trace (hmem s') = trace (hmem s)
           @ (if 0 \<le> wk_epoll_fd (wrk s) then [SysEpollDel (wk_epoll_fd (wrk s)) (mt_fd c) ok] else [])
           @ [SysClose (mt_fd c), SysFree a]"
proof -
  let ?H = "heap (hmem s)"
  have L: "linked (next_conn ?H) (wk_connections (wrk s)) L" "set L \<subseteq> dom ?H" "distinct L"
    using hinvD [OF inv] by auto
  have c: "conn_ok c" by (rule hinvD(4) [OF inv a])
  then have fd: "0 \<le> mt_fd c" by (simp add: conn_ok_def)
  obtain us vs where Leq: "L = us @ a # vs" using aL by (auto simp: in_set_conv_decomp)
  have nin: "a \<notin> set us" "a \<notin> set vs" and dist: "distinct (us @ a # vs)" using L(3) Leq by auto
  have rem: "remove1 a L = us @ vs" using Leq nin(1) by (simp add: remove1_append)
  text \<open>the state after the descriptor is closed\<close>
  let ?c1 = "c\<lparr>is_removing := True\<rparr>" and ?c2 = "c\<lparr>is_removing := True, mt_fd := -1\<rparr>"
  let ?s1 = "s\<lparr>hmem := put a ?c1 (hmem s)\<rparr>" and ?ep = "wk_epoll_fd (wrk s)"
  define wd where "wd = (if 0 \<le> ?ep \<and> 0 \<le> mt_fd c then snd (sys_epoll_del K ?ep (mt_fd c) (hmem ?s1)) else hmem ?s1)"
  have w2: "heap wd = ?H(a \<mapsto> ?c1)" "next_addr wd = next_addr (hmem s)"
      "\<exists>ok. trace wd = trace (hmem s) @ (if 0 \<le> ?ep then [SysEpollDel ?ep (mt_fd c) ok] else [])"
      "interest wd ep f = Some i \<Longrightarrow> interest (hmem s) ep f = Some i" for ep f i
    using fd by (auto simp: wd_def sys_epoll_del_def Let_def split: if_splits)
  let ?s2 = "s\<lparr>hmem := put a ?c2 (sys_close (mt_fd c) wd)\<rparr>"
  have H2: "heap (hmem ?s2) = ?H(a \<mapsto> ?c2)" using w2(1) by simp
  have nc: "next_conn (heap (hmem ?s2)) b = next_conn ?H b" for b using a H2 by (simp add: next_conn_def)
  have link2: "linked (next_conn (heap (hmem ?s2))) (wk_connections (wrk ?s2)) (us @ a # vs)"
    using L(1) Leq linked_cong [of L "next_conn (heap (hmem ?s2))" "next_conn ?H"] nc by simp
  have "set us \<subseteq> {..<next_addr (hmem s)}" using L(2) Leq hinvD(3) [OF inv] by auto
  then have "card (set us) \<le> card {..<next_addr (hmem s)}" by (rule card_mono [OF finite_lessThan])
  then have len: "length us \<le> next_addr (hmem ?s2)" using dist w2 by (simp add: distinct_card)
  have found: "find_link (next_addr (hmem ?s2)) a None (wk_connections (wrk ?s2)) (hmem ?s2)
      = Inr (Some (if us = [] then None else Some (last us)))"
    by (rule find_link_found [OF link2 nin(1) len])
  text \<open>the state after the list is changed\<close>
  obtain s3 where s3: "unlink a ?s2 = Inr s3" "haio s3 = haio s" "trace (hmem s3) = trace (hmem ?s2)"
      "next_addr (hmem s3) = next_addr (hmem s)" "interest (hmem s3) = interest (hmem ?s2)"
      "wrk s3 = (wrk s)\<lparr>wk_connections := (if us = [] then mt_next c else wk_connections (wrk s))\<rparr>"
      "heap (hmem s3) a = Some (?c2\<lparr>mt_next := NULL\<rparr>)"
      "\<And>b. b \<noteq> a \<Longrightarrow> heap (hmem s3) b
         = (if us \<noteq> [] \<and> b = last us then map_option (\<lambda>d. d\<lparr>mt_next := mt_next c\<rparr>) (?H b) else ?H b)"
  proof (cases "us = []")
    case True
    let ?s3 = "?s2\<lparr>wrk := (wrk s)\<lparr>wk_connections := mt_next c\<rparr>, hmem := put a (?c2\<lparr>mt_next := NULL\<rparr>) (hmem ?s2)\<rparr>"
    have "unlink a ?s2 = Inr ?s3"
      unfolding unlink_def found using True H2 by (simp add: update_conn_def)
    then show ?thesis by (rule that) (use True H2 w2 in auto)
  next
    case False
    let ?b = "last us"
    have b: "?b \<in> set us" "?b \<noteq> a" using False nin(1) last_in_set by auto
    then obtain d where d: "?H ?b = Some d" using L(2) Leq by auto
    let ?s3 = "?s2\<lparr>hmem := put a (?c2\<lparr>mt_next := NULL\<rparr>) (put ?b (d\<lparr>mt_next := mt_next c\<rparr>) (hmem ?s2))\<rparr>"
    have "unlink a ?s2 = Inr ?s3"
      unfolding unlink_def found using False H2 d b by (simp add: update_conn_def)
    then show ?thesis by (rule that) (use False H2 w2 d b in auto)
  qed
  let ?w4 = "emit (SysFree a) (hmem s3\<lparr>heap := (heap (hmem s3))(a := None)\<rparr>)"
  let ?s4 = "s3\<lparr>hmem := ?w4\<rparr>"
  have run: "mt_remove_connection_safe K (Ptr a) s = Inr ?s4"
    using a c s3(1, 7) w2(1)
    by (simp add: wd_def mt_remove_connection_safe_def update_conn_def conn_ok_def Let_def cong: if_cong)
  have H4: "heap (hmem ?s4) b = (if b = a then None else if us \<noteq> [] \<and> b = last us
      then map_option (\<lambda>d. d\<lparr>mt_next := mt_next c\<rparr>) (?H b) else ?H b)" for b
    using s3(8) by simp
  have live3: "(\<exists>y. heap (hmem s3) b = Some y) \<longleftrightarrow> (\<exists>y. ?H b = Some y)" if "b \<noteq> a" for b
    using s3(8) [OF that] by (simp split: if_splits)
  have dom4: "dom (heap (hmem ?s4)) = dom ?H - {a}" using live3 by (auto simp: dom_def)
  have link4: "linked (next_conn (heap (hmem ?s4))) (wk_connections (wrk ?s4)) (us @ vs)"
  proof -
    have "linked (next_conn (heap (hmem ?s4))) (if us = [] then mt_next c else wk_connections (wrk s)) (us @ vs)"
    proof (rule linked_unlink [OF _ dist])
      show "linked (next_conn ?H) (wk_connections (wrk s)) (us @ a # vs)" using L(1) Leq by simp
      show "next_conn ?H a = Some (mt_next c)" using a by (simp add: next_conn_def)
      fix b assume b: "b \<in> set (us @ vs)"
      then have "b \<noteq> a" "\<exists>d. ?H b = Some d" using nin L(2) Leq by auto
      then show "next_conn (heap (hmem ?s4)) b = (if us \<noteq> [] \<and> b = last us then Some (mt_next c) else next_conn ?H b)"
        using s3(8) [of b] by (auto simp: next_conn_def)
    qed
    then show ?thesis using s3(6) by simp
  qed
  have inv4: "hinv ?s4 (us @ vs)"
  proof (rule hinvI [OF link4])
    show "set (us @ vs) \<subseteq> dom (heap (hmem ?s4))" unfolding dom4 using L(2) Leq nin by auto
    show "b < next_addr (hmem ?s4) \<and> conn_ok d" if bd: "heap (hmem ?s4) b = Some d" for b d
    proof -
      obtain e p where "?H b = Some e" "d = e \<or> d = e\<lparr>mt_next := p\<rparr>"
        using bd unfolding H4 by (auto split: if_splits)
      then show ?thesis using hinvD(3, 4) [OF inv] s3(4) by (auto simp: conn_ok_def)
    qed
    show "aio_ok (haio ?s4)" using hinvD(6) [OF inv] s3(2) by simp
  qed
  have other: "heap (hmem ?s4) b = ?H b" if "b \<notin> set L" for b
  proof -
    have "b \<noteq> a" "us = [] \<or> b \<noteq> last us" using that Leq last_in_set [of us] by auto
    then show ?thesis unfolding H4 by auto
  qed
  have int4: "interest (hmem s) ep f = Some i" if "interest (hmem ?s4) ep f = Some i" for ep f i
  proof -
    have "interest wd ep f = Some i" using that s3(5) by (simp split: if_splits)
    then show ?thesis by (rule w2(4))
  qed
  have step: "hstep s L ?s4 (us @ vs)"
    unfolding hstep_def
  proof (intro conjI allI impI inv4 other)
    show "set (us @ vs) \<subseteq> set L" using Leq by auto
    show "dom (heap (hmem ?s4)) = dom ?H - (set L - set (us @ vs))" unfolding dom4 Leq using nin by auto
  qed (use s3(2, 4, 6) int4 hinvD(6) [OF inv] in simp_all)
  show ?thesis
  proof (rule that [OF run])
    show "hstep s L ?s4 (remove1 a L)" unfolding rem by (rule step)
    show "heap (hmem ?s4) a = None" by simp
    show "\<exists>p. heap (hmem ?s4) b = Some (d\<lparr>mt_next := p\<rparr>)" if "b \<noteq> a" "?H b = Some d" for b d
    proof -
      have "\<exists>p. d = d\<lparr>mt_next := p\<rparr>" by (rule exI [of _ "mt_next d"]) simp
      then show ?thesis using that unfolding H4 by auto
    qed
    show "\<exists>ok. trace (hmem ?s4) = trace (hmem s) @ (if 0 \<le> ?ep then [SysEpollDel ?ep (mt_fd c) ok] else [])
        @ [SysClose (mt_fd c), SysFree a]"
      using w2(3) s3(3) by auto
  qed
qed

end
