(* ===== verification/HybridEvent.thy ===== *)
theory HybridEvent
  imports HybridInv
begin

text \<open>
  The effect of the reading, writing and event functions of a worker of the hybrid proactor.

  \<^item> \<open>pending_bytes c\<close> is what a connection still has to send.
  \<^item> \<open>write_kills\<close>: the next \<open>mt_try_write\<close> of a connection removes it.
  \<^item> Every function has a lemma for the case that the connection stays and one for the case that it
    is removed and freed; the second makes the accesses that follow a fault.
\<close>

section \<open>What a write does\<close>

definition pending_bytes :: "mt_connection \<Rightarrow> u8 list" where
  "pending_bytes c = take (unat (write_pending c)) (mt_write_buf c)"

definition hard_error :: "errno + 'a \<Rightarrow> bool" where
  "hard_error r = (case r of Inl e \<Rightarrow> e \<noteq> EAGAIN | Inr _ \<Rightarrow> False)"

definition write_kills :: "kernel \<Rightarrow> mt_connection \<Rightarrow> hworld \<Rightarrow> bool" where
  "write_kills K c w \<longleftrightarrow> writable c \<and> write_pending c \<noteq> 0
     \<and> hard_error (fst (sys_write K (mt_fd c) (pending_bytes c) w))"

lemma hard_error_simps [simp]: "hard_error (Inl e) \<longleftrightarrow> e \<noteq> EAGAIN" "\<not> hard_error (Inr x)"
  by (simp_all add: hard_error_def)

lemma read_pending: "conn_ok c \<Longrightarrow> mem_read 0 (unat (write_pending c)) (mt_write_buf c) = Inr (pending_bytes c)"
  by (simp add: conn_ok_def pending_bytes_def)

lemma length_pending_bytes: "conn_ok c \<Longrightarrow> length (pending_bytes c) = unat (write_pending c)"
  by (simp add: conn_ok_def pending_bytes_def)

text \<open>What stays to be sent after \<open>n\<close> bytes went out.\<close>

definition rest_buffer :: "nat \<Rightarrow> mt_connection \<Rightarrow> u8 list" where
  "rest_buffer n c = (if n < unat (write_pending c)
     then blit 0 (slice n (unat (write_pending c) - n) (mt_write_buf c)) (mt_write_buf c) else mt_write_buf c)"

lemma unat_minus_of_nat: "n \<le> unat (p :: u64) \<Longrightarrow> unat (p - of_nat n) = unat p - n"
  by (metis le_unat_uoi unat_sub word_le_nat_alt)

lemma rest_pending:
  assumes c: "conn_ok c" and n: "n \<le> unat (write_pending c)"
  shows "pending_bytes (c\<lparr>mt_write_buf := rest_buffer n c, write_pending := write_pending c - of_nat n\<rparr>)
      = drop n (pending_bytes c)"
    and "conn_ok (c\<lparr>mt_write_buf := rest_buffer n c, write_pending := write_pending c - of_nat n\<rparr>)"
proof -
  let ?p = "unat (write_pending c)" and ?wb = "mt_write_buf c"
  have len: "length ?wb = 4096" "?p < 4096" using c by (simp_all add: conn_ok_def)
  have p: "unat (write_pending c - of_nat n) = ?p - n" by (rule unat_minus_of_nat [OF n])
  show "pending_bytes (c\<lparr>mt_write_buf := rest_buffer n c, write_pending := write_pending c - of_nat n\<rparr>)
      = drop n (pending_bytes c)"
  proof (cases "n < ?p")
    case True
    have "take (0 + length (slice n (?p - n) ?wb)) (blit 0 (slice n (?p - n) ?wb) ?wb)
        = take 0 ?wb @ slice n (?p - n) ?wb"
      by (rule take_blit) (use len in simp)
    then show ?thesis
      using True len p by (simp add: pending_bytes_def rest_buffer_def slice_def drop_take)
  next
    case False
    then show ?thesis using n p by (simp add: pending_bytes_def rest_buffer_def)
  qed
  show "conn_ok (c\<lparr>mt_write_buf := rest_buffer n c, write_pending := write_pending c - of_nat n\<rparr>)"
    using c p by (auto simp: conn_ok_def rest_buffer_def)
qed

section \<open>Submitting\<close>

lemma submit_block_facts:
  assumes "iocb_ok b" and "aio_ok (haio s)"
  shows "wk_connections (wrk (submit_block K b s)) = wk_connections (wrk s)"
    and "wk_running (wrk (submit_block K b s)) = wk_running (wrk s)"
    and "wk_epoll_fd (wrk (submit_block K b s)) = wk_epoll_fd (wrk s)"
    and "heap (hmem (submit_block K b s)) = heap (hmem s)"
    and "next_addr (hmem (submit_block K b s)) = next_addr (hmem s)"
    and "interest (hmem (submit_block K b s)) = interest (hmem s)"
    and "io_data b = Ptr a \<Longrightarrow> a \<in> set L \<Longrightarrow> aio_step (haio s) L (haio (submit_block K b s))"
    and "sent f (trace (hmem (submit_block K b s))) = sent f (trace (hmem s))"
  using assms by (auto simp: submit_block_def io_submit_def Let_def aio_ok_def aio_step_def)

text \<open>The control blocks that the two functions build.\<close>

definition read_block :: "addr \<Rightarrow> mt_connection \<Rightarrow> iocb" where
  "read_block a c = (io_prep_pread (mt_fd c) (Ptr (a, ReadBuf)) (of_nat (HYBRID_BUFFER_SIZE - 1)) 0)\<lparr>io_data := Ptr a\<rparr>"

definition write_block :: "addr \<Rightarrow> mt_connection \<Rightarrow> iocb" where
  "write_block a c = (io_prep_pwrite (mt_fd c) (Ptr (a, WriteBuf)) (write_pending c) 0)\<lparr>io_data := Ptr a\<rparr>"

lemma blocks_ok: "iocb_ok (read_block a c)" "conn_ok c \<Longrightarrow> iocb_ok (write_block a c)"
  by (simp_all add: iocb_ok_def read_block_def write_block_def io_prep_pread_def io_prep_pwrite_def
      HYBRID_BUFFER_SIZE_def conn_ok_def)

lemma block_data [simp]: "io_data (read_block a c) = Ptr a" "io_data (write_block a c) = Ptr a"
  by (simp_all add: read_block_def write_block_def)

lemma submit_read_eq: "heap (hmem s) a = Some c \<Longrightarrow> mt_submit_async_read K a s = Inr (submit_block K (read_block a c) s)"
  by (simp add: mt_submit_async_read_def read_block_def)

lemma submit_write_eq: "heap (hmem s) a = Some c \<Longrightarrow> mt_submit_async_write K a s = Inr (submit_block K (write_block a c) s)"
  by (simp add: mt_submit_async_write_def write_block_def)

section \<open>mt\_try\_write\<close>

lemma sys_write_facts:
  "sys_write K f bs w = (r, w') \<Longrightarrow> heap w' = heap w \<and> next_addr w' = next_addr w \<and> interest w' = interest w"
  "sys_write K f bs w = (Inr n, w') \<Longrightarrow> n \<le> length bs \<and> trace w' = trace w @ [SysWrite f (Inr (take n bs))]"
  "sys_write K f bs w = (Inl e, w') \<Longrightarrow> trace w' = trace w @ [SysWrite f (Inl e)]"
  by (auto simp: sys_write_def min_def split: sum.splits if_splits)

lemma touch_live:
  assumes "heap (hmem s) a = Some c"
  obtains t w where "touch K a s = Inr (s\<lparr>hmem := put a (c\<lparr>last_activity := t\<rparr>) w\<rparr>)" and "heap w = heap (hmem s)"
    and "next_addr w = next_addr (hmem s)" and "interest w = interest (hmem s)" and "trace w = trace (hmem s) @ [SysClock]"
proof -
  obtain t ns where c: "k_clock K (now (hmem s)) = (t, ns)" by fastforce
  then have "touch K a s = Inr (s\<lparr>hmem := put a (c\<lparr>last_activity := t\<rparr>) (emit SysClock (hmem s))\<rparr>)"
    using assms by (simp add: touch_def sys_clock_def update_conn_def)
  then show ?thesis by (rule that) auto
qed

lemma touch_gone: "heap (hmem s) a = None \<Longrightarrow> touch K a s = Inl UseAfterFree"
  by (simp add: touch_def sys_clock_def update_conn_def load_def split: prod.split)

text \<open>The connection stays: the bytes that went out are those at the front of the pending ones.\<close>

lemma try_write_live:
  assumes inv: "hinv s L" and aL: "a \<in> set L" and a: "heap (hmem s) a = Some c" and k: "\<not> write_kills K c (hmem s)"
  obtains s' c' where "mt_try_write K a s = Inr s'" and "hstep s L s' L" and "heap (hmem s') a = Some c'"
    and "mt_fd c' = mt_fd c" and "mt_read_buf c' = mt_read_buf c" and "\<And>b. b \<noteq> a \<Longrightarrow> heap (hmem s') b = heap (hmem s) b"
    and "sent (mt_fd c) (trace (hmem s')) @ pending_bytes c' = sent (mt_fd c) (trace (hmem s)) @ pending_bytes c"
    and "\<And>f. f \<noteq> mt_fd c \<Longrightarrow> sent f (trace (hmem s')) = sent f (trace (hmem s))"
proof -
  have c: "conn_ok c" by (rule hinvD(4) [OF inv a])
  have q: "aio_ok (haio s)" by (rule hinvD(6) [OF inv])
  have same: "hstep s L (s\<lparr>hmem := w\<rparr>) L"
    if "heap w = heap (hmem s)" "next_addr w = next_addr (hmem s)" "interest w = interest (hmem s)" for w
    by (rule idle_hstep [OF inv]) (use that q in \<open>simp add: idle_step_def\<close>)
  show ?thesis
  proof (cases "writable c \<and> write_pending c \<noteq> 0")
    case False
    then have "mt_try_write K a s = Inr s" using a by (auto simp: mt_try_write_def)
    moreover have "hstep s L s L" using same [of "hmem s"] by simp
    ultimately show ?thesis using a by (intro that [of s c]) auto
  next
    case True
    obtain r w where w: "sys_write K (mt_fd c) (pending_bytes c) (hmem s) = (r, w)" by fastforce
    note w_facts = sys_write_facts(1) [OF w]
    show ?thesis
    proof (cases r)
      case (Inl e)
      then have e: "e = EAGAIN" using k True w by (simp add: write_kills_def)
      let ?c = "c\<lparr>writable := False\<rparr>" and ?s1 = "s\<lparr>hmem := put a (c\<lparr>writable := False\<rparr>) w\<rparr>"
      let ?s2 = "submit_block K (write_block a ?c) (count_eagain ?s1)"
      have c': "conn_ok ?c" using c by (simp add: conn_ok_def)
      have run: "mt_try_write K a s = Inr ?s2"
        using a True w Inl e w_facts submit_write_eq [of "count_eagain ?s1" a ?c K]
        by (simp add: mt_try_write_def read_pending [OF c] update_conn_Some)
      note sb = submit_block_facts [OF blocks_ok(2) [OF c', of a], where s = "count_eagain ?s1" and K = K]
      have "hstep s L ?s2 L"
        by (rule hstep_put [OF inv aL a _ c']) (use sb(1-6) sb(7) [OF _ block_data(2) aL] w_facts q in simp_all)
      moreover have "sent f (trace w) = sent f (trace (hmem s))" for f using sys_write_facts(3) [OF w [unfolded Inl]] by simp
      ultimately show ?thesis using run sb w_facts q
        by (intro that [of ?s2 ?c]) (simp_all add: pending_bytes_def)
    next
      case (Inr n)
      note n = sys_write_facts(2) [OF w [unfolded Inr]]
      have le: "n \<le> unat (write_pending c)" using n length_pending_bytes [OF c] by simp
      show ?thesis
      proof (cases "n = 0")
        case True
        then have "mt_try_write K a s = Inr (s\<lparr>hmem := w\<rparr>)"
          using a \<open>writable c \<and> _\<close> w Inr by (simp add: mt_try_write_def read_pending [OF c])
        then show ?thesis using same [of w] w_facts a n True by (intro that [of "s\<lparr>hmem := w\<rparr>" c]) auto
      next
        case False
        let ?c = "c\<lparr>mt_write_buf := rest_buffer n c, write_pending := write_pending c - of_nat n\<rparr>"
        note rest = rest_pending [OF c le]
        let ?s1 = "count_operation (count_success (s\<lparr>hmem := put a ?c w\<rparr>))"
        have "heap (hmem ?s1) a = Some ?c" by simp
        then obtain t v where v: "touch K a ?s1 = Inr (?s1\<lparr>hmem := put a (?c\<lparr>last_activity := t\<rparr>) v\<rparr>)"
            "heap v = heap (hmem ?s1)" "next_addr v = next_addr (hmem ?s1)" "interest v = interest (hmem ?s1)"
            "trace v = trace (hmem ?s1) @ [SysClock]"
          by (rule touch_live)
        let ?c2 = "?c\<lparr>last_activity := t\<rparr>" and ?s2 = "?s1\<lparr>hmem := put a (?c\<lparr>last_activity := t\<rparr>) v\<rparr>"
        have run: "mt_try_write K a s = Inr ?s2"
          using a \<open>writable c \<and> _\<close> w Inr False w_facts v(1)
          by (simp add: mt_try_write_def read_pending [OF c] update_conn_Some rest_buffer_def)
        have c2: "conn_ok ?c2" using rest(2) by (simp add: conn_ok_def)
        have "hstep s L ?s2 L" by (rule hstep_put [OF inv aL a _ c2]) (use v w_facts q in simp_all)
        moreover have "pending_bytes ?c2 = drop n (pending_bytes c)" using rest(1) by (simp add: pending_bytes_def)
        ultimately show ?thesis using run v n w_facts by (intro that [of ?s2 ?c2]) auto
      qed
    qed
  qed
qed

lemma try_write_gone:
  assumes inv: "hinv s L" and aL: "a \<in> set L" and a: "heap (hmem s) a = Some c" and k: "write_kills K c (hmem s)"
  obtains s' where "mt_try_write K a s = Inr s'" and "hstep s L s' (remove1 a L)" and "heap (hmem s') a = None"
proof -
  have c: "conn_ok c" by (rule hinvD(4) [OF inv a])
  obtain r w where w: "sys_write K (mt_fd c) (pending_bytes c) (hmem s) = (r, w)" by fastforce
  then obtain e where e: "r = Inl e" "e \<noteq> EAGAIN" using k by (cases r) (auto simp: write_kills_def)
  let ?s = "s\<lparr>hmem := w\<rparr>"
  have w_facts: "heap w = heap (hmem s)" "next_addr w = next_addr (hmem s)" "interest w = interest (hmem s)"
    using sys_write_facts(1) [OF w] by auto
  have idle: "hstep s L ?s L"
    by (rule idle_hstep [OF inv]) (use w_facts hinvD(6) [OF inv] in \<open>simp add: idle_step_def\<close>)
  have "heap (hmem ?s) a = Some c" using w_facts a by simp
  then obtain s' where s': "mt_remove_connection_safe K (Ptr a) ?s = Inr s'" "hstep ?s L s' (remove1 a L)"
      "heap (hmem s') a = None"
    by (rule remove_spec [OF hstepD(1) [OF idle] aL])
  have "mt_try_write K a s = Inr s'"
    using a k w e s'(1) by (simp add: mt_try_write_def read_pending [OF c] write_kills_def)
  then show ?thesis using hstep_trans [OF idle s'(2)] s'(3) by (rule that)
qed

section \<open>mt\_process\_data\<close>

text \<open>The connection with the answer to \<open>len\<close> received bytes in its write buffer.\<close>

definition echoed :: "u64 \<Rightarrow> mt_connection \<Rightarrow> mt_connection" where
  "echoed len c = c\<lparr>mt_write_buf := blit 6 (take (unat len) (mt_read_buf c)) (blit 0 hybrid_prefix (mt_write_buf c)),
     write_pending := 6 + len\<rparr>"

definition echo_kills :: "kernel \<Rightarrow> mt_connection \<Rightarrow> u8 list \<Rightarrow> hworld \<Rightarrow> bool" where
  "echo_kills K c bs w \<longleftrightarrow> length bs < 4090 \<and> writable c
     \<and> hard_error (fst (sys_write K (mt_fd c) (hybrid_prefix @ bs) w))"

lemma unat_total: "unat (len :: u64) < 4096 \<Longrightarrow> unat (6 + len) = 6 + unat len"
  by (simp add: unat_word_ariths)

lemma length_prefix [simp]: "length hybrid_prefix = 6"
  by (simp add: hybrid_prefix_def)

lemma echoed_facts:
  assumes c: "conn_ok c" and len: "unat len < 4090"
  shows "conn_ok (echoed len c)" and "pending_bytes (echoed len c) = hybrid_prefix @ take (unat len) (mt_read_buf c)"
    and "write_pending (echoed len c) \<noteq> 0" and "mt_next (echoed len c) = mt_next c" and "mt_fd (echoed len c) = mt_fd c"
    and "writable (echoed len c) = writable c" and "mt_read_buf (echoed len c) = mt_read_buf c"
proof -
  let ?d = "take (unat len) (mt_read_buf c)" and ?wb = "blit 0 hybrid_prefix (mt_write_buf c)"
  have l: "length (mt_read_buf c) = 4096" "length (mt_write_buf c) = 4096" using c by (simp_all add: conn_ok_def)
  then have d: "length ?d = unat len" using len by simp
  have wb: "length ?wb = 4096" using l by simp
  have p: "unat (6 + len) = 6 + unat len" using len by (simp add: unat_total)
  have "take (6 + length ?d) (blit 6 ?d ?wb) = take 6 ?wb @ ?d" by (rule take_blit) (use d wb len in simp)
  moreover have "take (0 + length hybrid_prefix) ?wb = take 0 (mt_write_buf c) @ hybrid_prefix"
    by (rule take_blit) (use l in simp)
  ultimately show "pending_bytes (echoed len c) = hybrid_prefix @ ?d"
    using d p by (simp add: pending_bytes_def echoed_def)
  show "conn_ok (echoed len c)" using c len p d wb by (simp add: conn_ok_def echoed_def)
  show "write_pending (echoed len c) \<noteq> 0"
  proof
    assume "write_pending (echoed len c) = 0"
    then have "unat (6 + len) = 0" by (simp add: echoed_def)
    then show False using p by simp
  qed
qed (simp_all add: echoed_def)

lemma process_eq:
  assumes c: "conn_ok c" and a: "heap (hmem s) a = Some c" and len: "unat len < 4096"
  shows "mt_process_data K a len s
      = (if unat len < 4090 then mt_try_write K a (s\<lparr>hmem := put a (echoed len c) (hmem s)\<rparr>) else Inr s)"
proof -
  have l: "length (mt_read_buf c) = 4096" "length (mt_write_buf c) = 4096" using c by (simp_all add: conn_ok_def)
  have "(6 + len < (4096 :: u64)) = (unat len < 4090)"
    unfolding word_less_nat_alt by (simp add: unat_total [OF len])
  then show ?thesis
    using a l by (auto simp: mt_process_data_def HYBRID_BUFFER_SIZE_def Let_def update_conn_Some echoed_def)
qed

lemma sys_write_put: "fst (sys_write K f bs (put a c w)) = fst (sys_write K f bs w)"
  by (simp add: sys_write_def split: sum.split)

lemma write_kills_echoed:
  assumes "conn_ok c" and "unat len < 4090"
  shows "write_kills K (echoed len c) (put a d w) \<longleftrightarrow> echo_kills K c (take (unat len) (mt_read_buf c)) w"
  using echoed_facts [OF assms] assms by (simp add: write_kills_def echo_kills_def sys_write_put conn_ok_def)

text \<open>The connection stays, and its answer is sent or pending; a long one is dropped.\<close>

lemma process_live:
  assumes inv: "hinv s L" and aL: "a \<in> set L" and a: "heap (hmem s) a = Some c" and len: "unat len < 4096"
    and k: "\<not> echo_kills K c (take (unat len) (mt_read_buf c)) (hmem s)"
  obtains s' c' where "mt_process_data K a len s = Inr s'" and "hstep s L s' L" and "heap (hmem s') a = Some c'"
    and "mt_fd c' = mt_fd c" and "\<And>b. b \<noteq> a \<Longrightarrow> heap (hmem s') b = heap (hmem s) b"
    and "sent (mt_fd c) (trace (hmem s')) @ pending_bytes c' = sent (mt_fd c) (trace (hmem s))
        @ (if unat len < 4090 then hybrid_prefix @ take (unat len) (mt_read_buf c) else pending_bytes c)"
    and "\<And>f. f \<noteq> mt_fd c \<Longrightarrow> sent f (trace (hmem s')) = sent f (trace (hmem s))"
proof -
  have c: "conn_ok c" by (rule hinvD(4) [OF inv a])
  note eq = process_eq [OF c a len, of K]
  show ?thesis
  proof (cases "unat len < 4090")
    case True
    note e = echoed_facts [OF c True]
    let ?s = "s\<lparr>hmem := put a (echoed len c) (hmem s)\<rparr>"
    have st: "hstep s L ?s L" by (rule hstep_put [OF inv aL a e(4) e(1)]) (use hinvD(6) [OF inv] in simp_all)
    have "\<not> write_kills K (echoed len c) (hmem ?s)" using k by (simp add: write_kills_echoed [OF c True])
    moreover have "heap (hmem ?s) a = Some (echoed len c)" by simp
    ultimately obtain s' c' where s': "mt_try_write K a ?s = Inr s'" "hstep ?s L s' L" "heap (hmem s') a = Some c'"
        "mt_fd c' = mt_fd (echoed len c)" "\<And>b. b \<noteq> a \<Longrightarrow> heap (hmem s') b = heap (hmem ?s) b"
        "sent (mt_fd (echoed len c)) (trace (hmem s')) @ pending_bytes c'
           = sent (mt_fd (echoed len c)) (trace (hmem ?s)) @ pending_bytes (echoed len c)"
        "\<And>f. f \<noteq> mt_fd (echoed len c) \<Longrightarrow> sent f (trace (hmem s')) = sent f (trace (hmem ?s))"
      using try_write_live [OF hstepD(1) [OF st] aL] by metis
    show ?thesis
      by (rule that [of s' c']) (use s' e eq True hstep_trans [OF st s'(2)] in simp_all)
  next
    case False
    have "hstep s L s L" by (rule idle_hstep [OF inv]) (use hinvD(6) [OF inv] in \<open>simp add: idle_step_def\<close>)
    then show ?thesis using that [of s c] eq False a by simp
  qed
qed

lemma process_gone:
  assumes inv: "hinv s L" and aL: "a \<in> set L" and a: "heap (hmem s) a = Some c" and len: "unat len < 4096"
    and k: "echo_kills K c (take (unat len) (mt_read_buf c)) (hmem s)"
  obtains s' where "mt_process_data K a len s = Inr s'" and "hstep s L s' (remove1 a L)" and "heap (hmem s') a = None"
proof -
  have c: "conn_ok c" by (rule hinvD(4) [OF inv a])
  then have less: "unat len < 4090" using k len by (simp add: echo_kills_def conn_ok_def)
  note e = echoed_facts [OF c less]
  let ?s = "s\<lparr>hmem := put a (echoed len c) (hmem s)\<rparr>"
  have st: "hstep s L ?s L" by (rule hstep_put [OF inv aL a e(4) e(1)]) (use hinvD(6) [OF inv] in simp_all)
  have kills: "write_kills K (echoed len c) (hmem ?s)" using k by (simp add: write_kills_echoed [OF c less])
  have "heap (hmem ?s) a = Some (echoed len c)" by simp
  then obtain s' where s': "mt_try_write K a ?s = Inr s'" "hstep ?s L s' (remove1 a L)" "heap (hmem s') a = None"
    using kills by (rule try_write_gone [OF hstepD(1) [OF st] aL])
  show ?thesis
    by (rule that [OF _ hstep_trans [OF st s'(2)] s'(3)]) (use process_eq [OF c a len] less s'(1) in simp)
qed

section \<open>mt\_try\_read\<close>

definition read_kills :: "kernel \<Rightarrow> mt_connection \<Rightarrow> hworld \<Rightarrow> bool" where
  "read_kills K c w = (case fst (sys_read K (mt_fd c) 4095 w) of Inl e \<Rightarrow> e \<noteq> EAGAIN | Inr bs \<Rightarrow> bs = [])"

text \<open>The echo of the bytes that were read fails, and the connection is accessed again.\<close>

definition read_faults :: "kernel \<Rightarrow> mt_connection \<Rightarrow> hworld \<Rightarrow> bool" where
  "read_faults K c w = (case sys_read K (mt_fd c) 4095 w of
     (Inr bs, w') \<Rightarrow> bs \<noteq> [] \<and> echo_kills K c bs w' | _ \<Rightarrow> False)"

lemma sys_read_facts:
  "sys_read K f n w = (r, w') \<Longrightarrow> heap w' = heap w \<and> next_addr w' = next_addr w \<and> interest w' = interest w
     \<and> trace w' = trace w @ [SysRead f r]"
  "sys_read K f n w = (Inr bs, w') \<Longrightarrow> length bs \<le> n"
  by (auto simp: sys_read_def Let_def split: sum.splits)

text \<open>The read buffer after \<open>read\<close> and the terminating zero.\<close>

lemma read_buffer:
  assumes "length rb = 4096" and "length bs \<le> 4095"
  shows "memcpy 0 bs rb = Inr (blit 0 bs rb)" and "memcpy (length bs) [0] (blit 0 bs rb) = Inr (blit (length bs) [0] (blit 0 bs rb))"
    and "length (blit (length bs) [0] (blit 0 bs rb)) = 4096" and "take (length bs) (blit (length bs) [0] (blit 0 bs rb)) = bs"
proof -
  have l: "length (blit 0 bs rb) = 4096" using assms by simp
  show "memcpy 0 bs rb = Inr (blit 0 bs rb)" using assms by simp
  show "memcpy (length bs) [0] (blit 0 bs rb) = Inr (blit (length bs) [0] (blit 0 bs rb))" using assms l by simp
  show "length (blit (length bs) [0] (blit 0 bs rb)) = 4096" using assms l by simp
  have "take (0 + length bs) (blit 0 bs rb) = take 0 rb @ bs" by (rule take_blit) (use assms in simp)
  then show "take (length bs) (blit (length bs) [0] (blit 0 bs rb)) = bs" using assms l by (simp add: blit_def)
qed

text \<open>A read of at least one byte.\<close>

lemma try_read_data:
  assumes inv: "hinv s L" and aL: "a \<in> set L" and a: "heap (hmem s) a = Some c" and rd: "readable c"
    and w: "sys_read K (mt_fd c) 4095 (hmem s) = (Inr bs, w)" and bs: "bs \<noteq> []"
  obtains s1 c1 where "mt_try_read K a s = rbind (mt_process_data K a (of_nat (length bs)) s1)
        (\<lambda>s2. touch K a (count_operation (count_success s2)))"
    and "hstep s L s1 L" and "heap (hmem s1) a = Some c1" and "hmem s1 = put a c1 w" and "mt_fd c1 = mt_fd c"
    and "writable c1 = writable c" and "take (unat (of_nat (length bs) :: u64)) (mt_read_buf c1) = bs"
    and "unat (of_nat (length bs) :: u64) = length bs" and "pending_bytes c1 = pending_bytes c"
proof -
  have c: "conn_ok c" by (rule hinvD(4) [OF inv a])
  then have rb: "length (mt_read_buf c) = 4096" by (simp add: conn_ok_def)
  have len: "length bs \<le> 4095" by (rule sys_read_facts(2) [OF w])
  note wf = sys_read_facts(1) [OF w]
  note rbf = read_buffer [OF rb len]
  let ?c1 = "c\<lparr>mt_read_buf := blit (length bs) [0] (blit 0 bs (mt_read_buf c))\<rparr>"
  let ?s1 = "s\<lparr>hmem := put a ?c1 w\<rparr>"
  have un: "unat (of_nat (length bs) :: u64) = length bs" using len by (simp add: unat_of_nat take_bit_nat_eq_self)
  have c1: "conn_ok ?c1" using c rbf(3) by (simp add: conn_ok_def)
  have "mt_try_read K a s = rbind (mt_process_data K a (of_nat (length bs)) ?s1)
        (\<lambda>s2. touch K a (count_operation (count_success s2)))"
    using a rd w bs wf rbf(1, 2) by (simp add: mt_try_read_def HYBRID_BUFFER_SIZE_def update_conn_Some)
  moreover have "hstep s L ?s1 L"
    by (rule hstep_put [OF inv aL a _ c1]) (use wf hinvD(6) [OF inv] in simp_all)
  ultimately show ?thesis by (rule that [of ?s1 ?c1]) (use un rbf(4) in \<open>simp_all add: pending_bytes_def\<close>)
qed

lemma try_read_fault:
  assumes inv: "hinv s L" and aL: "a \<in> set L" and a: "heap (hmem s) a = Some c" and rd: "readable c"
    and k: "read_faults K c (hmem s)"
  shows "mt_try_read K a s = Inl UseAfterFree"
proof -
  obtain bs w where w: "sys_read K (mt_fd c) 4095 (hmem s) = (Inr bs, w)" and bs: "bs \<noteq> []" and ek: "echo_kills K c bs w"
    using k by (auto simp: read_faults_def split: prod.splits sum.splits)
  obtain s1 c1 where s1: "mt_try_read K a s = rbind (mt_process_data K a (of_nat (length bs)) s1)
        (\<lambda>s2. touch K a (count_operation (count_success s2)))" "hstep s L s1 L" "heap (hmem s1) a = Some c1"
      "hmem s1 = put a c1 w" "mt_fd c1 = mt_fd c" "writable c1 = writable c"
      "take (unat (of_nat (length bs) :: u64)) (mt_read_buf c1) = bs" "unat (of_nat (length bs) :: u64) = length bs"
    by (rule try_read_data [OF inv aL a rd w bs])
  have "echo_kills K c1 bs (hmem s1)" using ek s1(4-6) by (simp add: echo_kills_def sys_write_put)
  moreover have "length bs \<le> 4095" by (rule sys_read_facts(2) [OF w])
  ultimately obtain s2 where s2: "mt_process_data K a (of_nat (length bs)) s1 = Inr s2" "heap (hmem s2) a = None"
    using process_gone [OF hstepD(1) [OF s1(2)] aL s1(3), of "of_nat (length bs)" K] s1(7, 8) by auto
  show ?thesis using s1(1) s2 by (simp add: touch_gone)
qed

lemma try_read_gone:
  assumes inv: "hinv s L" and aL: "a \<in> set L" and a: "heap (hmem s) a = Some c" and rd: "readable c"
    and k: "read_kills K c (hmem s)"
  obtains s' where "mt_try_read K a s = Inr s'" and "hstep s L s' (remove1 a L)" and "heap (hmem s') a = None"
proof -
  obtain r w where w: "sys_read K (mt_fd c) 4095 (hmem s) = (r, w)" by fastforce
  note wf = sys_read_facts(1) [OF w]
  let ?s = "s\<lparr>hmem := w\<rparr>"
  have idle: "hstep s L ?s L"
    by (rule idle_hstep [OF inv]) (use wf hinvD(6) [OF inv] in \<open>simp add: idle_step_def\<close>)
  have "heap (hmem ?s) a = Some c" using wf a by simp
  then obtain s' where s': "mt_remove_connection_safe K (Ptr a) ?s = Inr s'" "hstep ?s L s' (remove1 a L)"
      "heap (hmem s') a = None"
    by (rule remove_spec [OF hstepD(1) [OF idle] aL])
  have "mt_try_read K a s = Inr s'"
    using a rd k w s'(1) by (auto simp: mt_try_read_def read_kills_def HYBRID_BUFFER_SIZE_def split: sum.splits)
  then show ?thesis using hstep_trans [OF idle s'(2)] s'(3) by (rule that)
qed

text \<open>What a connection has received and answered after a read.\<close>

lemma try_read_live:
  assumes inv: "hinv s L" and aL: "a \<in> set L" and a: "heap (hmem s) a = Some c" and rd: "readable c"
    and k: "\<not> read_kills K c (hmem s)" "\<not> read_faults K c (hmem s)"
  obtains s' c' where "mt_try_read K a s = Inr s'" and "hstep s L s' L" and "heap (hmem s') a = Some c'"
    and "mt_fd c' = mt_fd c"
    and "sent (mt_fd c) (trace (hmem s')) @ pending_bytes c' = sent (mt_fd c) (trace (hmem s))
        @ (case fst (sys_read K (mt_fd c) 4095 (hmem s)) of Inl e \<Rightarrow> pending_bytes c
           | Inr bs \<Rightarrow> if length bs < 4090 then hybrid_prefix @ bs else pending_bytes c)"
    and "\<And>f. f \<noteq> mt_fd c \<Longrightarrow> sent f (trace (hmem s')) = sent f (trace (hmem s))"
proof -
  have c: "conn_ok c" by (rule hinvD(4) [OF inv a])
  obtain r w where w: "sys_read K (mt_fd c) 4095 (hmem s) = (r, w)" by fastforce
  note wf = sys_read_facts(1) [OF w]
  have sw: "sent f (trace w) = sent f (trace (hmem s))" for f using wf by (cases r) simp_all
  show ?thesis
  proof (cases r)
    case (Inl e)
    then have e: "e = EAGAIN" using k(1) w by (simp add: read_kills_def)
    let ?c = "c\<lparr>readable := False\<rparr>"
    let ?s1 = "count_eagain (s\<lparr>hmem := put a ?c w\<rparr>)"
    let ?s2 = "submit_block K (read_block a ?c) ?s1"
    have run: "mt_try_read K a s = Inr ?s2"
      using a rd w Inl e wf submit_read_eq [of ?s1 a ?c K]
      by (simp add: mt_try_read_def HYBRID_BUFFER_SIZE_def update_conn_Some)
    note sb = submit_block_facts [OF blocks_ok(1) [of a ?c], where s = ?s1 and K = K]
    have c': "conn_ok ?c" using c by (simp add: conn_ok_def)
    have "hstep s L ?s2 L"
      by (rule hstep_put [OF inv aL a _ c']) (use sb(1-6) sb(7) [OF _ block_data(1) aL] wf hinvD(6) [OF inv] in simp_all)
    then show ?thesis
      by (rule that [OF run, of ?c]) (use sb wf sw w Inl hinvD(6) [OF inv] in \<open>simp_all add: pending_bytes_def\<close>)
  next
    case (Inr bs)
    have bs: "bs \<noteq> []" using k(1) w Inr by (simp add: read_kills_def)
    obtain s1 c1 where s1: "mt_try_read K a s = rbind (mt_process_data K a (of_nat (length bs)) s1)
        (\<lambda>s2. touch K a (count_operation (count_success s2)))" "hstep s L s1 L" "heap (hmem s1) a = Some c1"
        "hmem s1 = put a c1 w" "mt_fd c1 = mt_fd c" "writable c1 = writable c"
        "take (unat (of_nat (length bs) :: u64)) (mt_read_buf c1) = bs" "unat (of_nat (length bs) :: u64) = length bs"
        "pending_bytes c1 = pending_bytes c"
      by (rule try_read_data [OF inv aL a rd w [unfolded Inr] bs])
    have "\<not> echo_kills K c bs w" using k(2) w Inr bs by (simp add: read_faults_def)
    then have nk: "\<not> echo_kills K c1 (take (unat (of_nat (length bs) :: u64)) (mt_read_buf c1)) (hmem s1)"
      using s1(4-7) by (simp add: echo_kills_def sys_write_put)
    have "length bs \<le> 4095" by (rule sys_read_facts(2) [OF w [unfolded Inr]])
    then have len: "unat (of_nat (length bs) :: u64) < 4096" using s1(8) by simp
    obtain s2 c2 where s2: "mt_process_data K a (of_nat (length bs)) s1 = Inr s2" "hstep s1 L s2 L"
        "heap (hmem s2) a = Some c2" "mt_fd c2 = mt_fd c1" "\<And>b. b \<noteq> a \<Longrightarrow> heap (hmem s2) b = heap (hmem s1) b"
        "sent (mt_fd c1) (trace (hmem s2)) @ pending_bytes c2 = sent (mt_fd c1) (trace (hmem s1))
          @ (if unat (of_nat (length bs) :: u64) < 4090
             then hybrid_prefix @ take (unat (of_nat (length bs) :: u64)) (mt_read_buf c1) else pending_bytes c1)"
        "\<And>f. f \<noteq> mt_fd c1 \<Longrightarrow> sent f (trace (hmem s2)) = sent f (trace (hmem s1))"
      using process_live [OF hstepD(1) [OF s1(2)] aL s1(3) len nk] by metis
    let ?s2 = "count_operation (count_success s2)"
    have "heap (hmem ?s2) a = Some c2" using s2(3) by simp
    then obtain t v where v: "touch K a ?s2 = Inr (?s2\<lparr>hmem := put a (c2\<lparr>last_activity := t\<rparr>) v\<rparr>)"
        "heap v = heap (hmem ?s2)" "next_addr v = next_addr (hmem ?s2)" "interest v = interest (hmem ?s2)"
        "trace v = trace (hmem ?s2) @ [SysClock]"
      by (rule touch_live)
    let ?c3 = "c2\<lparr>last_activity := t\<rparr>" and ?s3 = "?s2\<lparr>hmem := put a (c2\<lparr>last_activity := t\<rparr>) v\<rparr>"
    have run: "mt_try_read K a s = Inr ?s3" using s1(1) s2(1) v(1) by simp
    have inv2: "hinv s2 L" using s2(2) by (rule hstepD)
    have c3: "conn_ok ?c3" using hinvD(4) [OF inv2 s2(3)] by (simp add: conn_ok_def)
    have "hstep s2 L ?s3 L"
      by (rule hstep_put [OF inv2 aL s2(3) _ c3]) (use v hinvD(6) [OF inv2] in simp_all)
    then have st: "hstep s L ?s3 L" using s1(2) s2(2) hstep_trans by blast
    show ?thesis
      by (rule that [OF run st, of ?c3]) (use v s2(4, 6, 7) s1(4-9) sw w Inr in \<open>simp_all add: pending_bytes_def\<close>)
  qed
qed

end
