(* ===== verification/HybridLoop.thy ===== *)
theory HybridLoop
  imports Hybrid ReactorConn
begin

text \<open>
  The threads of \<open>codes/network/proactor_epoll/hybrid_proactor.c\<close>: \<open>worker_thread_func\<close> and
  \<open>accept_thread_func\<close>, each as a step function on a program counter, over the state of the
  whole program.

  \<^item> \<open>hybrid\<close> is the state: the \<open>mt_proactor_t\<close> with its array of workers, the world, the AIO
    context of every worker and the global \<open>graceful_shutdown\<close>. \<open>on_worker\<close> runs a function of
    \<open>Hybrid\<close> on one worker of it.
  \<^item> \<open>low32\<close> is the part of a pointer that \<open>data.fd\<close> of the union reads.
  \<^item> The report every five seconds only prints, its \<open>static\<close> time has no counterpart.
    \<open>io_getevents\<close> of \<open>libaio\<close> does not set \<open>errno\<close>; the value the code reads there
    is an answer of the environment.
\<close>

section \<open>State\<close>

record mt_proactor =
  mt_listen_fd :: fd
  mt_running :: bool
  mt_exit_event_fd :: fd
  num_workers :: nat
  mt_workers :: "worker_context list ptr"
  accept_thread :: bool
  next_worker :: nat
  mt_total_connections :: u64
  mt_total_operations :: u64

record hybrid =
  mtp :: mt_proactor
  hwd :: hworld
  haios :: "aio list"
  graceful_shutdown :: bool

definition worker_at :: "nat \<Rightarrow> hybrid \<Rightarrow> worker_context res" where
  "worker_at i s = (case mt_workers (mtp s) of
     NULL \<Rightarrow> Inl NullDeref
   | Ptr ws \<Rightarrow> if i < length ws then Inr (ws ! i) else Inl OutOfBounds)"

definition set_worker :: "nat \<Rightarrow> worker_context \<Rightarrow> hybrid \<Rightarrow> hybrid" where
  "set_worker i k s = s\<lparr>mtp := (mtp s)\<lparr>mt_workers := Ptr ((deref (mt_workers (mtp s)))[i := k])\<rparr>\<rparr>"

definition on_worker :: "nat \<Rightarrow> (hstate \<Rightarrow> hstate res) \<Rightarrow> hybrid \<Rightarrow> hybrid res" where
  "on_worker i f s = rbind (worker_at i s) (\<lambda>k.
     rbind (f \<lparr>wrk = k, hmem = hwd s, haio = haios s ! i\<rparr>) (\<lambda>h.
       Inr ((set_worker i (wrk h) s)\<lparr>hwd := hmem h, haios := (haios s)[i := haio h]\<rparr>)))"

section \<open>The worker\<close>

datatype hworker_pc = HEnter | HTop | HEvents "(epoll_data \<times> u32) list" | HAio | HCompletions "io_event list" | HReport | HLeft

definition worker_enter :: "kernel \<Rightarrow> fd \<Rightarrow> hstate \<Rightarrow> hstate" where
  "worker_enter K ex h =
     (if 0 \<le> ex then h\<lparr>hmem := snd (sys_epoll_add K (wk_epoll_fd (wrk h)) ex (DataFd ex) EPOLLIN (hmem h))\<rparr> else h)"

definition hybrid_goes_on :: "worker_context \<Rightarrow> hybrid \<Rightarrow> bool" where
  "hybrid_goes_on k s \<longleftrightarrow> wk_running k \<and> \<not> graceful_shutdown s"

text \<open>One event: \<open>None\<close> when it is the exit event.\<close>

definition hybrid_event :: "kernel \<Rightarrow> (addr \<Rightarrow> fd) \<Rightarrow> fd \<Rightarrow> epoll_data \<Rightarrow> u32 \<Rightarrow> (hstate \<Rightarrow> hstate res) option" where
  "hybrid_event K low32 ex d ev = (case d of
     DataFd f \<Rightarrow> if f = ex then None else Some (\<lambda>h. Inl Uninitialised)
   | DataPtr a \<Rightarrow> if low32 a = ex then None else Some (mt_handle_connection_event K a ev))"

fun hworker_step :: "kernel \<Rightarrow> (addr \<Rightarrow> fd) \<Rightarrow> nat \<Rightarrow> hworker_pc \<Rightarrow> hybrid \<Rightarrow> (hworker_pc \<times> hybrid) res" where
  "hworker_step K low32 i HEnter s = rbind (on_worker i (\<lambda>h. Inr (worker_enter K (mt_exit_event_fd (mtp s)) h)) s)
     (\<lambda>s'. Inr (HTop, s'))"
| "hworker_step K low32 i HTop s = rbind (worker_at i s) (\<lambda>k.
     if hybrid_goes_on k s
     then case sys_epoll_wait K (wk_epoll_fd k) HYBRID_MAX_EVENTS (hwd s) of
         (Inl e, w) \<Rightarrow> Inr (if e = EINTR then HTop else HLeft, s\<lparr>hwd := w\<rparr>)
       | (Inr evs, w) \<Rightarrow> Inr (HEvents evs, s\<lparr>hwd := w\<rparr>)
     else Inr (HLeft, s))"
| "hworker_step K low32 i (HEvents []) s = rbind (worker_at i s) (\<lambda>k.
     Inr (if hybrid_goes_on k s then HAio else HLeft, s))"
| "hworker_step K low32 i (HEvents ((d, ev) # es)) s = (case hybrid_event K low32 (mt_exit_event_fd (mtp s)) d ev of
     None \<Rightarrow> rbind (worker_at i s) (\<lambda>k. Inr (HEvents [], set_worker i (k\<lparr>wk_running := False\<rparr>) s))
   | Some f \<Rightarrow> rbind (on_worker i f s) (\<lambda>s'. Inr (HEvents es, s')))"
| "hworker_step K low32 i HAio s = (case io_getevents K HYBRID_MAX_EVENTS (haios s ! i) (hwd s) of
     (Inl e, q, w) \<Rightarrow> Inr (if e = EINVAL then HLeft else HTop, s\<lparr>hwd := w\<rparr>)
   | (Inr evs, q, w) \<Rightarrow> Inr (HCompletions evs, s\<lparr>hwd := w, haios := (haios s)[i := q]\<rparr>))"
| "hworker_step K low32 i (HCompletions []) s = Inr (HReport, s)"
| "hworker_step K low32 i (HCompletions (e # es)) s = rbind (worker_at i s) (\<lambda>k.
     if hybrid_goes_on k s
     then rbind (on_worker i (mt_handle_aio_completion K e) s) (\<lambda>s'. Inr (HCompletions es, s'))
     else Inr (HReport, s))"
| "hworker_step K low32 i HReport s = rbind (worker_at i s) (\<lambda>k.
     if hybrid_goes_on k s then Inr (HTop, s\<lparr>hwd := snd (sys_clock K (hwd s))\<rparr>) else Inr (HLeft, s))"
| "hworker_step K low32 i HLeft s = Inr (HLeft, s)"

section \<open>Accepting\<close>

definition crlf :: "u8 list" where
  "crlf = [13, 10]"

definition welcome_text :: "u8 list" where
  "welcome_text = map of_char ''Welcome to Multi-threaded Hybrid Proactor Server!'' @ crlf
     @ map of_char ''Type something and press enter to echo.'' @ crlf"

definition mt_send_welcome_message :: "kernel \<Rightarrow> addr \<Rightarrow> hstate \<Rightarrow> hstate res" where
  "mt_send_welcome_message K a s =
     (if length welcome_text < HYBRID_BUFFER_SIZE then
        rbind (load a (hmem s)) (\<lambda>c. rbind (memcpy 0 welcome_text (mt_write_buf c)) (\<lambda>wb.
        rbind (update_conn a (\<lambda>c. c\<lparr>mt_write_buf := wb, write_pending := of_nat (length welcome_text)\<rparr>) s)
          (mt_try_write K a)))
      else Inr s)"

datatype accept_pc = ATop | AWelcome nat addr | ALeft

text \<open>The choice of the worker: round robin.\<close>

definition pick_worker :: "hybrid \<Rightarrow> nat \<times> hybrid" where
  "pick_worker s = (next_worker (mtp s), s\<lparr>mtp := (mtp s)\<lparr>next_worker := (next_worker (mtp s) + 1) mod num_workers (mtp s)\<rparr>\<rparr>)"

fun accept_step :: "kernel \<Rightarrow> accept_pc \<Rightarrow> hybrid \<Rightarrow> (accept_pc \<times> hybrid) res" where
  "accept_step K ATop s =
     (if mt_running (mtp s) \<and> \<not> graceful_shutdown s
      then case sys_newfd K (SysAccept (mt_listen_fd (mtp s))) (hwd s) of
          (Inl e, w) \<Rightarrow> if e = EAGAIN \<or> e = EWOULDBLOCK then Inr (ATop, s\<lparr>hwd := emit SysSleep w\<rparr>) else Inr (ALeft, s\<lparr>hwd := w\<rparr>)
        | (Inr f, w) \<Rightarrow>
            if graceful_shutdown s then Inr (ALeft, s\<lparr>hwd := sys_close f w\<rparr>)
            else (case set_nonblocking K f w of (r, w1) \<Rightarrow>
              if r < 0 then Inr (ATop, s\<lparr>hwd := sys_close f w1\<rparr>)
              else (case pick_worker (s\<lparr>hwd := w1\<rparr>) of (i, s1) \<Rightarrow>
                rbind (mt_create_connection K f i (hwd s1)) (\<lambda>(p, w2). case p of
                    NULL \<Rightarrow> Inr (ATop, s1\<lparr>hwd := sys_close f w2\<rparr>)
                  | Ptr a \<Rightarrow> rbind (on_worker i (mt_add_connection_to_worker K a) (s1\<lparr>hwd := w2\<rparr>)) (\<lambda>s2.
                      Inr (AWelcome i a, s2)))))
      else Inr (ALeft, s))"
| "accept_step K (AWelcome i a) s =
     rbind (on_worker i (mt_send_welcome_message K a)
              (s\<lparr>mtp := (mtp s)\<lparr>mt_total_connections := mt_total_connections (mtp s) + 1\<rparr>\<rparr>)) (\<lambda>s'. Inr (ATop, s'))"
| "accept_step K ALeft s = Inr (ALeft, s)"

section \<open>Interleaving\<close>

record hsys =
  hyb :: hybrid
  hpcs :: "hworker_pc list"
  apc :: accept_pc

text \<open>The kernel's access to the buffers of a connection.\<close>

definition conn_buffer :: "bufptr \<Rightarrow> hworld \<Rightarrow> u8 list res" where
  "conn_buffer b w = (case b of (a, sel) \<Rightarrow> rbind (load a w) (\<lambda>c.
     Inr (case sel of ReadBuf \<Rightarrow> mt_read_buf c | WriteBuf \<Rightarrow> mt_write_buf c)))"

definition set_conn_buffer :: "bufptr \<Rightarrow> u8 list \<Rightarrow> hworld \<Rightarrow> hworld res" where
  "set_conn_buffer b bs w = (case b of (a, sel) \<Rightarrow> rbind (load a w) (\<lambda>c.
     store a (case sel of ReadBuf \<Rightarrow> c\<lparr>mt_read_buf := bs\<rparr> | WriteBuf \<Rightarrow> c\<lparr>mt_write_buf := bs\<rparr>) w))"

definition hybrid_signal :: "hybrid \<Rightarrow> hybrid" where
  "hybrid_signal s =
     (if graceful_shutdown s then s
      else let p = (mtp s)\<lparr>mt_running := False\<rparr> in
        s\<lparr>graceful_shutdown := True, mtp := p,
          hwd := (if 0 \<le> mt_exit_event_fd p then emit (SysNotify (mt_exit_event_fd p)) (hwd s) else hwd s)\<rparr>)"

datatype hact = HWorker nat | HAccept | HKernel nat nat io_outcome u64 | HSignal

fun hybrid_enabled :: "hact \<Rightarrow> hsys \<Rightarrow> bool" where
  "hybrid_enabled (HWorker i) s \<longleftrightarrow> i < length (hpcs s)"
| "hybrid_enabled (HKernel i j out r2) s \<longleftrightarrow> i < length (haios (hyb s)) \<and> j < length (in_flight (haios (hyb s) ! i))
     \<and> outcome_fits (io_opcode (in_flight (haios (hyb s) ! i) ! j)) out"
| "hybrid_enabled _ s \<longleftrightarrow> True"

fun hybrid_act :: "kernel \<Rightarrow> (addr \<Rightarrow> fd) \<Rightarrow> hact \<Rightarrow> hsys \<Rightarrow> hsys res" where
  "hybrid_act K low32 (HWorker i) s = rbind (hworker_step K low32 i (hpcs s ! i) (hyb s)) (\<lambda>(p, h).
     Inr (s\<lparr>hyb := h, hpcs := (hpcs s)[i := p]\<rparr>))"
| "hybrid_act K low32 HAccept s = rbind (accept_step K (apc s) (hyb s)) (\<lambda>(p, h). Inr (s\<lparr>hyb := h, apc := p\<rparr>))"
| "hybrid_act K low32 (HKernel i j out r2) s =
     rbind (io_finish conn_buffer set_conn_buffer j out r2 (haios (hyb s) ! i) (hwd (hyb s))) (\<lambda>(q, w).
       Inr (s\<lparr>hyb := (hyb s)\<lparr>haios := (haios (hyb s))[i := q], hwd := w\<rparr>\<rparr>))"
| "hybrid_act K low32 HSignal s = Inr (s\<lparr>hyb := hybrid_signal (hyb s)\<rparr>)"

inductive hybrid_reach :: "kernel \<Rightarrow> (addr \<Rightarrow> fd) \<Rightarrow> hsys \<Rightarrow> hsys \<Rightarrow> bool" for K low32 s0 where
  here: "hybrid_reach K low32 s0 s0"
| step: "hybrid_reach K low32 s0 s \<Longrightarrow> hybrid_enabled a s \<Longrightarrow> hybrid_act K low32 a s = Inr s' \<Longrightarrow> hybrid_reach K low32 s0 s'"

end
