(* ===== verification/HybridSafety.thy ===== *)
theory HybridSafety
  imports HybridEvent HybridLoop
begin

text \<open>
  What the calls of the threads of the hybrid proactor do to the connections of a worker: events,
  completions, new connections, the welcome message, and the kernel's accesses to the buffers.
\<close>

section \<open>Events\<close>

text \<open>
  The situations in which \<open>mt_handle_connection_event\<close> uses a connection after \<open>mt_try_read\<close>
  freed it: the echo of what was read failed, or the read ended the connection and the event also
  says that the descriptor is writable.
\<close>

definition event_hazard :: "kernel \<Rightarrow> mt_connection \<Rightarrow> u32 \<Rightarrow> hworld \<Rightarrow> bool" where
  "event_hazard K c ev w \<longleftrightarrow> ev AND (EPOLLERR OR EPOLLHUP OR EPOLLRDHUP) = 0 \<and> ev AND EPOLLIN \<noteq> 0
     \<and> (read_faults K c w \<or> read_kills K c w \<and> ev AND EPOLLOUT \<noteq> 0)"

lemma sys_read_put: "fst (sys_read K f n (put a c w)) = fst (sys_read K f n w)"
  "now (snd (sys_read K f n (put a c w))) = now (snd (sys_read K f n w))"
  by (simp_all add: sys_read_def Let_def now_def)

lemma sys_write_now: "now w = now w' \<Longrightarrow> fst (sys_write K f bs w) = fst (sys_write K f bs w')"
  by (simp add: sys_write_def split: sum.split)

lemma read_cases_put:
  "read_kills K (c\<lparr>readable := b\<rparr>) (put a d w) = read_kills K c w"
  "read_faults K (c\<lparr>readable := b\<rparr>) (put a d w) = read_faults K c w"
proof -
  show "read_kills K (c\<lparr>readable := b\<rparr>) (put a d w) = read_kills K c w"
    by (simp add: read_kills_def sys_read_put)
  obtain r v where v: "sys_read K (mt_fd c) 4095 w = (r, v)" by fastforce
  obtain r' v' where v': "sys_read K (mt_fd c) 4095 (put a d w) = (r', v')" by fastforce
  have "r' = r" "now v' = now v"
    using sys_read_put [of K "mt_fd c" 4095 a d w] v v' by simp_all
  then show "read_faults K (c\<lparr>readable := b\<rparr>) (put a d w) = read_faults K c w"
    using v v' sys_write_now [of v' v K]
    by (auto simp: read_faults_def echo_kills_def split: sum.split)
qed

text \<open>Setting a readiness flag.\<close>

lemma flag_step:
  assumes inv: "hinv s L" and aL: "a \<in> set L" and a: "heap (hmem s) a = Some c"
  shows "hstep s L (s\<lparr>hmem := put a (c\<lparr>readable := b\<rparr>) (hmem s)\<rparr>) L"
    and "hstep s L (s\<lparr>hmem := put a (c\<lparr>writable := b\<rparr>) (hmem s)\<rparr>) L"
proof -
  have c: "conn_ok (c\<lparr>readable := b\<rparr>)" "conn_ok (c\<lparr>writable := b\<rparr>)"
    using hinvD(4) [OF inv a] by (simp_all add: conn_ok_def)
  show "hstep s L (s\<lparr>hmem := put a (c\<lparr>readable := b\<rparr>) (hmem s)\<rparr>) L"
    by (rule hstep_put [OF inv aL a _ c(1)]) (use hinvD(6) [OF inv] in simp_all)
  show "hstep s L (s\<lparr>hmem := put a (c\<lparr>writable := b\<rparr>) (hmem s)\<rparr>) L"
    by (rule hstep_put [OF inv aL a _ c(2)]) (use hinvD(6) [OF inv] in simp_all)
qed

lemma event_fault:
  assumes inv: "hinv s L" and aL: "a \<in> set L" and a: "heap (hmem s) a = Some c" and h: "event_hazard K c ev (hmem s)"
  shows "mt_handle_connection_event K a ev s = Inl UseAfterFree"
proof -
  let ?c = "c\<lparr>readable := True\<rparr>"
  let ?s = "s\<lparr>hmem := put a ?c (hmem s)\<rparr>"
  have inv1: "hinv ?s L" by (rule hstepD(1) [OF flag_step(1) [OF inv aL a]])
  have a1: "heap (hmem ?s) a = Some ?c" and rd: "readable ?c" by simp_all
  have ev: "ev AND (EPOLLERR OR EPOLLHUP OR EPOLLRDHUP) = 0" "ev AND EPOLLIN \<noteq> 0"
    using h unfolding event_hazard_def by blast+
  consider "read_faults K ?c (hmem ?s)" | "read_kills K ?c (hmem ?s)" "ev AND EPOLLOUT \<noteq> 0"
    using h unfolding event_hazard_def by (auto simp: read_cases_put)
  then show ?thesis
  proof cases
    case 1
    then show ?thesis
      using a ev try_read_fault [OF inv1 aL a1 rd] unfolding mt_handle_connection_event_def
      by (simp add: update_conn_Some)
  next
    case 2
    obtain s' where "mt_try_read K a ?s = Inr s'" "heap (hmem s') a = None"
      by (rule try_read_gone [OF inv1 aL a1 rd 2(1)])
    then show ?thesis
      using a ev 2(2) unfolding mt_handle_connection_event_def
      by (simp add: update_conn_Some update_conn_None)
  qed
qed

lemma event_ok:
  assumes inv: "hinv s L" and aL: "a \<in> set L" and a: "heap (hmem s) a = Some c" and h: "\<not> event_hazard K c ev (hmem s)"
  obtains s' L' where "mt_handle_connection_event K a ev s = Inr s'" and "hstep s L s' L'" and "L' = L \<or> L' = remove1 a L"
proof (cases "ev AND (EPOLLERR OR EPOLLHUP OR EPOLLRDHUP) = 0")
  case False
  obtain s' where "mt_remove_connection_safe K (Ptr a) s = Inr s'" "hstep s L s' (remove1 a L)"
    by (rule remove_spec [OF inv aL a])
  then show ?thesis using a False by (intro that) (auto simp: mt_handle_connection_event_def)
next
  case True
  note result = that
  text \<open>the part that handles \<open>EPOLLOUT\<close> of a connection that is still there\<close>
  have out: thesis
    if in_run: "(if ev AND EPOLLIN \<noteq> 0 then rbind (update_conn a (\<lambda>c. c\<lparr>readable := True\<rparr>) s) (mt_try_read K a)
         else Inr s) = Inr s1" and st: "hstep s L s1 L" and a1: "heap (hmem s1) a = Some c1" for s1 c1
  proof (cases "ev AND EPOLLOUT = 0")
    case nout: True
    then have "mt_handle_connection_event K a ev s = Inr s1"
      unfolding mt_handle_connection_event_def using True in_run by simp
    then show thesis using st by (rule result) simp
  next
    case wout: False
    let ?c = "c1\<lparr>writable := True\<rparr>"
    let ?s = "s1\<lparr>hmem := put a ?c (hmem s1)\<rparr>"
    have st1: "hstep s L ?s L"
      by (rule hstep_trans [OF st flag_step(2) [OF hstepD(1) [OF st] aL a1]])
    have run: "mt_handle_connection_event K a ev s = mt_try_write K a ?s"
      unfolding mt_handle_connection_event_def using True in_run wout a1 by (simp add: update_conn_Some)
    have a2: "heap (hmem ?s) a = Some ?c" by simp
    show thesis
    proof (cases "write_kills K ?c (hmem ?s)")
      case True
      obtain s' where s': "mt_try_write K a ?s = Inr s'" "hstep ?s L s' (remove1 a L)"
        by (rule try_write_gone [OF hstepD(1) [OF st1] aL a2 True])
      show thesis by (rule result [OF _ hstep_trans [OF st1 s'(2)]]) (use run s'(1) in simp_all)
    next
      case False
      obtain s' where s': "mt_try_write K a ?s = Inr s'" "hstep ?s L s' L"
        using try_write_live [OF hstepD(1) [OF st1] aL a2 False] by metis
      show thesis by (rule result [OF _ hstep_trans [OF st1 s'(2)]]) (use run s'(1) in simp_all)
    qed
  qed
  show ?thesis
  proof (cases "ev AND EPOLLIN = 0")
    case nin: True
    have "hstep s L s L" by (rule idle_hstep [OF inv]) (simp add: idle_step_def)
    then show ?thesis using out [of s c] nin a by simp
  next
    case rin: False
    let ?c = "c\<lparr>readable := True\<rparr>"
    let ?s = "s\<lparr>hmem := put a ?c (hmem s)\<rparr>"
    have st: "hstep s L ?s L" by (rule flag_step(1) [OF inv aL a])
    have a1: "heap (hmem ?s) a = Some ?c" and rd: "readable ?c" by simp_all
    have nf: "\<not> read_faults K ?c (hmem ?s)" and nk: "ev AND EPOLLOUT = 0 \<or> \<not> read_kills K ?c (hmem ?s)"
      using h True rin unfolding event_hazard_def by (auto simp: read_cases_put)
    have upd: "update_conn a (\<lambda>c. c\<lparr>readable := True\<rparr>) s = Inr ?s" using a by (simp add: update_conn_Some)
    show ?thesis
    proof (cases "read_kills K ?c (hmem ?s)")
      case kills: True
      obtain s' where s': "mt_try_read K a ?s = Inr s'" "hstep ?s L s' (remove1 a L)"
        by (rule try_read_gone [OF hstepD(1) [OF st] aL a1 rd kills])
      have "ev AND EPOLLOUT = 0" using nk kills by simp
      then have "mt_handle_connection_event K a ev s = Inr s'"
        unfolding mt_handle_connection_event_def using True rin upd s'(1) by simp
      then show ?thesis using hstep_trans [OF st s'(2)] by (rule result) simp
    next
      case False
      obtain s' c' where s': "mt_try_read K a ?s = Inr s'" "hstep ?s L s' L" "heap (hmem s') a = Some c'"
        using try_read_live [OF hstepD(1) [OF st] aL a1 rd False nf] by metis
      show ?thesis by (rule out [OF _ hstep_trans [OF st s'(2)] s'(3)]) (use rin upd s'(1) in simp)
    qed
  qed
qed

section \<open>Completions\<close>

lemma completion_none: "heap (hmem s) a = None \<Longrightarrow> ev_data e = Ptr a \<Longrightarrow> mt_handle_aio_completion K e s = Inl UseAfterFree"
  by (simp add: mt_handle_aio_completion_def load_def)

text \<open>The cases of a completion of a live connection.\<close>

lemma completion_eq:
  assumes a: "heap (hmem s) a = Some c" and c: "conn_ok c" and e: "ev_data e = Ptr a"
  shows "ev_res e = 0 \<Longrightarrow> mt_handle_aio_completion K e s = Inr s"
    and "ev_res e \<noteq> 0 \<Longrightarrow> ev_res2 e \<noteq> 0 \<Longrightarrow> mt_handle_aio_completion K e s = touch K a (count_success s)"
    and "4096 \<le> unat (ev_res e) \<Longrightarrow> ev_res2 e = 0 \<Longrightarrow> mt_handle_aio_completion K e s = Inl OutOfBounds"
    and "ev_res e \<noteq> 0 \<Longrightarrow> unat (ev_res e) < 4096 \<Longrightarrow> ev_res2 e = 0 \<Longrightarrow> mt_handle_aio_completion K e s
      = rbind (mt_process_data K a (ev_res e)
          (s\<lparr>hmem := put a (c\<lparr>mt_read_buf := blit (unat (ev_res e)) [0] (mt_read_buf c)\<rparr>) (hmem s)\<rparr>))
          (\<lambda>s1. touch K a (count_success s1))"
proof -
  have l: "length (mt_read_buf c) = 4096" using c by (simp add: conn_ok_def)
  show "ev_res e = 0 \<Longrightarrow> mt_handle_aio_completion K e s = Inr s"
    using a e by (simp add: mt_handle_aio_completion_def)
  show "ev_res e \<noteq> 0 \<Longrightarrow> ev_res2 e \<noteq> 0 \<Longrightarrow> mt_handle_aio_completion K e s = touch K a (count_success s)"
    using a e by (simp add: mt_handle_aio_completion_def word_gt_0)
  show "mt_handle_aio_completion K e s = Inl OutOfBounds" if "4096 \<le> unat (ev_res e)" "ev_res2 e = 0"
  proof -
    have "0 < ev_res e" using that(1) by (auto simp: word_gt_0)
    then show ?thesis using a e l that by (simp add: mt_handle_aio_completion_def memcpy_def)
  qed
  show "ev_res e \<noteq> 0 \<Longrightarrow> unat (ev_res e) < 4096 \<Longrightarrow> ev_res2 e = 0 \<Longrightarrow> mt_handle_aio_completion K e s
      = rbind (mt_process_data K a (ev_res e)
          (s\<lparr>hmem := put a (c\<lparr>mt_read_buf := blit (unat (ev_res e)) [0] (mt_read_buf c)\<rparr>) (hmem s)\<rparr>))
          (\<lambda>s1. touch K a (count_success s1))"
    using a e l by (simp add: mt_handle_aio_completion_def word_gt_0 update_conn_Some)
qed

lemma touch_step:
  assumes inv: "hinv s L" and aL: "a \<in> set L" and a: "heap (hmem s) a = Some c"
  obtains s' where "touch K a (count_success s) = Inr s'" and "hstep s L s' L"
proof -
  have "heap (hmem (count_success s)) a = Some c" using a by simp
  then obtain t w where w: "touch K a (count_success s) = Inr (count_success s\<lparr>hmem := put a (c\<lparr>last_activity := t\<rparr>) w\<rparr>)"
      "heap w = heap (hmem (count_success s))" "next_addr w = next_addr (hmem (count_success s))"
      "interest w = interest (hmem (count_success s))"
    by (rule touch_live)
  have "conn_ok (c\<lparr>last_activity := t\<rparr>)" using hinvD(4) [OF inv a] by (simp add: conn_ok_def)
  then have "hstep s L (count_success s\<lparr>hmem := put a (c\<lparr>last_activity := t\<rparr>) w\<rparr>) L"
    by (intro hstep_put [OF inv aL a]) (use w hinvD(6) [OF inv] in simp_all)
  then show ?thesis using w(1) by (intro that)
qed

text \<open>Whether a completion faults: the connection is gone, \<open>res\<close> is beyond the buffer, or the echo fails.\<close>

lemma completion_outcome:
  assumes inv: "hinv s L" and aL: "a \<in> set L" and e: "ev_data e = Ptr a"
  obtains "mt_handle_aio_completion K e s = Inl OutOfBounds" and "4096 \<le> unat (ev_res e)" and "ev_res2 e = 0"
    | "mt_handle_aio_completion K e s = Inl UseAfterFree"
    | s' where "mt_handle_aio_completion K e s = Inr s'" and "hstep s L s' L"
proof -
  obtain c where a: "heap (hmem s) a = Some c" using hinv_live [OF inv aL] by blast
  have c: "conn_ok c" by (rule hinvD(4) [OF inv a])
  note eq = completion_eq [OF a c e, of K]
  have refl: "hstep s L s L" by (rule idle_hstep [OF inv]) (simp add: idle_step_def)
  consider "ev_res e = 0" | "ev_res e \<noteq> 0" "ev_res2 e \<noteq> 0" | "4096 \<le> unat (ev_res e)" "ev_res2 e = 0"
    | "ev_res e \<noteq> 0" "unat (ev_res e) < 4096" "ev_res2 e = 0"
    by linarith
  then show thesis
  proof cases
    case 1
    then show thesis using eq(1) refl that(3) by blast
  next
    case 2
    then show thesis using eq(2) touch_step [OF inv aL a, of K] that(3) by metis
  next
    case 3
    show thesis by (rule that(1) [OF eq(3) [OF 3] 3])
  next
    case 4
    let ?c = "c\<lparr>mt_read_buf := blit (unat (ev_res e)) [0] (mt_read_buf c)\<rparr>"
    let ?s = "s\<lparr>hmem := put a ?c (hmem s)\<rparr>"
    have c1: "conn_ok ?c" using c 4(2) by (simp add: conn_ok_def)
    have st: "hstep s L ?s L" by (rule hstep_put [OF inv aL a _ c1]) (use hinvD(6) [OF inv] in simp_all)
    have a1: "heap (hmem ?s) a = Some ?c" by simp
    show thesis
    proof (cases "echo_kills K ?c (take (unat (ev_res e)) (mt_read_buf ?c)) (hmem ?s)")
      case True
      obtain s1 where "mt_process_data K a (ev_res e) ?s = Inr s1" "heap (hmem s1) a = None"
        by (rule process_gone [OF hstepD(1) [OF st] aL a1 4(2) True])
      then have "mt_handle_aio_completion K e s = Inl UseAfterFree"
        unfolding eq(4) [OF 4] by (simp add: touch_gone)
      then show thesis by (rule that(2))
    next
      case False
      obtain s1 c1 where s1: "mt_process_data K a (ev_res e) ?s = Inr s1" "hstep ?s L s1 L" "heap (hmem s1) a = Some c1"
        using process_live [OF hstepD(1) [OF st] aL a1 4(2) False] by metis
      obtain s2 where s2: "touch K a (count_success s1) = Inr s2" "hstep s1 L s2 L"
        by (rule touch_step [OF hstepD(1) [OF s1(2)] aL s1(3)])
      have "mt_handle_aio_completion K e s = Inr s2" unfolding eq(4) [OF 4] using s1(1) s2(1) by simp
      then show thesis using hstep_trans [OF st hstep_trans [OF s1(2) s2(2)]] by (rule that(3))
    qed
  qed
qed

end
