(* ===== verification/HybridAdd.thy ===== *)
theory HybridAdd
  imports HybridSafety
begin

text \<open>
  New connections of the hybrid proactor, the welcome message, and the kernel's accesses to the
  buffers of a connection.
\<close>

section \<open>Removing a connection that is in no list\<close>

lemma find_link_absent:
  assumes "linked (next_conn (heap w)) p L" and "a \<notin> set L" and "length L \<le> n"
  shows "find_link n a prev p w = Inr None"
  using assms
proof (induction L arbitrary: n p prev)
  case Nil
  then show ?case by (cases n) auto
next
  case (Cons b L)
  obtain m where n: "n = Suc m" using Cons.prems(3) by (cases n) auto
  obtain q where q: "next_conn (heap w) b = Some q" "linked (next_conn (heap w)) q L" and p: "p = Ptr b"
    using Cons.prems(1) by (auto split: option.splits)
  obtain c where c: "heap w b = Some c" "mt_next c = q" using q(1) by (auto simp: next_conn_def)
  have "find_link m a (Some b) (mt_next c) w = Inr None"
    by (rule Cons.IH) (use q(2) c(2) Cons.prems n in auto)
  then show ?case using n p c(1) Cons.prems(2) by auto
qed

text \<open>The list, seen in a heap where a block outside the list changed.\<close>

lemma linked_outside:
  assumes "linked (next_conn H) p L" and "a \<notin> set L" and "\<And>b. b \<noteq> a \<Longrightarrow> H' b = H b"
  shows "linked (next_conn H') p L"
proof -
  have "next_conn H' b = next_conn H b" if "b \<in> set L" for b
    using that assms(2, 3) by (cases "b = a") (auto simp: next_conn_def)
  then show ?thesis using linked_cong [of L "next_conn H'" "next_conn H"] assms(1) by blast
qed

lemma list_short:
  assumes "hinv s L"
  shows "length L \<le> next_addr (hmem s)"
proof -
  have "set L \<subseteq> {..<next_addr (hmem s)}" using hinvD(2, 3) [OF assms] by auto
  then have "card (set L) \<le> card {..<next_addr (hmem s)}" by (rule card_mono [OF finite_lessThan])
  then show ?thesis using hinvD(5) [OF assms] by (simp add: distinct_card)
qed

lemma remove_unlisted:
  assumes inv: "hinv s L" and aL: "a \<notin> set L" and a: "heap (hmem s) a = Some c"
  obtains s' where "mt_remove_connection_safe K (Ptr a) s = Inr s'" and "hinv s' L"
    and "heap (hmem s') = (heap (hmem s))(a := None)" and "next_addr (hmem s') = next_addr (hmem s)"
    and "wrk s' = wrk s" and "haio s' = haio s"
    and "\<forall>ep f i. interest (hmem s') ep f = Some i \<longrightarrow> interest (hmem s) ep f = Some i"
proof -
  let ?H = "heap (hmem s)"
  have c: "conn_ok c" by (rule hinvD(4) [OF inv a])
  then have fd: "0 \<le> mt_fd c" by (simp add: conn_ok_def)
  let ?c1 = "c\<lparr>is_removing := True\<rparr>" and ?c2 = "c\<lparr>is_removing := True, mt_fd := -1\<rparr>"
  let ?s1 = "s\<lparr>hmem := put a ?c1 (hmem s)\<rparr>" and ?ep = "wk_epoll_fd (wrk s)"
  define wd where "wd = (if 0 \<le> ?ep \<and> 0 \<le> mt_fd c then snd (sys_epoll_del K ?ep (mt_fd c) (hmem ?s1)) else hmem ?s1)"
  have wd: "heap wd = ?H(a \<mapsto> ?c1)" "next_addr wd = next_addr (hmem s)"
      "interest wd ep f = Some i \<Longrightarrow> interest (hmem s) ep f = Some i" for ep f i
    using fd by (auto simp: wd_def sys_epoll_del_def Let_def split: if_splits)
  let ?s2 = "s\<lparr>hmem := put a ?c2 (sys_close (mt_fd c) wd)\<rparr>"
  have H2: "heap (hmem ?s2) = ?H(a \<mapsto> ?c2)" using wd(1) by simp
  have link2: "linked (next_conn (heap (hmem ?s2))) (wk_connections (wrk ?s2)) L"
    using linked_outside [OF hinvD(1) [OF inv] aL, of "heap (hmem ?s2)"] H2 wd(1) by simp
  have "find_link (next_addr (hmem ?s2)) a None (wk_connections (wrk ?s2)) (hmem ?s2) = Inr None"
    by (rule find_link_absent [OF link2 aL]) (use list_short [OF inv] wd in simp)
  then have unlink: "unlink a ?s2 = Inr ?s2" by (simp add: unlink_def)
  let ?s4 = "s\<lparr>hmem := emit (SysFree a) (hmem ?s2\<lparr>heap := (heap (hmem ?s2))(a := None)\<rparr>)\<rparr>"
  have run: "mt_remove_connection_safe K (Ptr a) s = Inr ?s4"
    using a c unlink wd(1)
    by (simp add: wd_def mt_remove_connection_safe_def update_conn_def conn_ok_def Let_def cong: if_cong)
  have H4: "heap (hmem ?s4) = ?H(a := None)" using H2 by simp
  have "hinv ?s4 L"
  proof (rule hinvI)
    show "linked (next_conn (heap (hmem ?s4))) (wk_connections (wrk ?s4)) L"
      using linked_outside [OF hinvD(1) [OF inv] aL, of "heap (hmem ?s4)"] H4 wd(1) by simp
    show "set L \<subseteq> dom (heap (hmem ?s4))" using hinvD(2) [OF inv] aL H4 by auto
    show "b < next_addr (hmem ?s4) \<and> conn_ok d" if "heap (hmem ?s4) b = Some d" for b d
      using that hinvD(3, 4) [OF inv] wd(2) unfolding H4 by (auto split: if_splits)
  qed (use hinvD(6) [OF inv] in simp)
  moreover have "interest (hmem s) ep f = Some i" if "interest (hmem ?s4) ep f = Some i" for ep f i
    using that wd(3) by (simp split: if_splits)
  ultimately show ?thesis using run H4 wd(2) by (intro that [of ?s4]) simp_all
qed

section \<open>New connections\<close>

definition new_connection :: "fd \<Rightarrow> nat \<Rightarrow> u64 \<Rightarrow> mt_connection" where
  "new_connection f i t = zero_mt_connection\<lparr>mt_fd := f, mt_worker_id := i, readable := True, writable := True,
     mt_state := CONN_ACTIVE, last_activity := t, is_removing := False, ref_count := 1\<rparr>"

lemma added_connection_ok: "0 \<le> f \<Longrightarrow> conn_ok (new_connection f i t)"
  by (simp add: new_connection_def zero_mt_connection_def conn_ok_def)

lemma create_connection_cases:
  obtains w' where "mt_create_connection K f i w = Inr (NULL, w')" and "heap w' = heap w" and "next_addr w' = next_addr w"
      and "interest w' = interest w"
    | t w' where "mt_create_connection K f i w = Inr (Ptr (next_addr w), w')"
      and "heap w' = (heap w)(next_addr w \<mapsto> new_connection f i t)" and "next_addr w' = next_addr w + 1"
      and "interest w' = interest w"
proof (cases "k_alloc K (now w)")
  case False
  then have "mt_create_connection K f i w = Inr (NULL, emit (SysAlloc None) w)"
    by (simp add: mt_create_connection_def sys_alloc_def)
  then show ?thesis by (rule that(1)) simp_all
next
  case True
  let ?a = "next_addr w"
  let ?w1 = "emit (SysAlloc (Some ?a)) (w\<lparr>heap := (heap w)(?a \<mapsto> zero_mt_connection), next_addr := ?a + 1\<rparr>)"
  obtain t ns where t: "k_clock K (now ?w1) = (t, ns)" by fastforce
  have "mt_create_connection K f i w = Inr (Ptr ?a, put ?a (new_connection f i t) (emit SysClock ?w1))"
    using True t by (simp add: mt_create_connection_def sys_alloc_def sys_clock_def new_connection_def)
  then show ?thesis by (rule that(2)) simp_all
qed

text \<open>
  Adding a connection: it becomes the first of the list, or, when it cannot be registered, it is
  closed and freed.
\<close>

lemma add_connection_cases:
  assumes inv: "hinv s L" and aL: "a \<notin> set L" and a: "heap (hmem s) a = Some c"
  obtains s' d where "mt_add_connection_to_worker K a s = Inr s'" and "hinv s' (a # L)"
      and "heap (hmem s') = (heap (hmem s))(a \<mapsto> d)" and "next_addr (hmem s') = next_addr (hmem s)"
      and "wrk s' = (wrk s)\<lparr>wk_connections := Ptr a\<rparr>" and "haio s' = haio s"
      and "interest (hmem s') = (interest (hmem s))(wk_epoll_fd (wrk s) := (interest (hmem s) (wk_epoll_fd (wrk s)))
             (mt_fd c \<mapsto> (DataPtr a, EPOLLIN OR EPOLLOUT OR EPOLLET OR EPOLLRDHUP)))"
    | s' where "mt_add_connection_to_worker K a s = Inr s'" and "hinv s' L"
      and "heap (hmem s') = (heap (hmem s))(a := None)" and "next_addr (hmem s') = next_addr (hmem s)"
      and "wrk s' = wrk s" and "haio s' = haio s"
      and "\<forall>ep f i. interest (hmem s') ep f = Some i \<longrightarrow> interest (hmem s) ep f = Some i"
proof -
  let ?H = "heap (hmem s)" and ?p = "wk_connections (wrk s)" and ?ep = "wk_epoll_fd (wrk s)"
  let ?msk = "EPOLLIN OR EPOLLOUT OR EPOLLET OR EPOLLRDHUP"
  let ?d = "c\<lparr>mt_next := ?p\<rparr>"
  let ?s1 = "s\<lparr>hmem := put a ?d (hmem s)\<rparr>"
  have c: "conn_ok c" by (rule hinvD(4) [OF inv a])
  then have d: "conn_ok ?d" by (simp add: conn_ok_def)
  obtain r w where w: "sys_epoll_add K ?ep (mt_fd c) (DataPtr a) ?msk (hmem ?s1) = (r, w)" by fastforce
  have wf: "heap w = ?H(a \<mapsto> ?d)" "next_addr w = next_addr (hmem s)"
      "interest w = (if r = None then (interest (hmem s))(?ep := (interest (hmem s) ?ep)(mt_fd c \<mapsto> (DataPtr a, ?msk)))
         else interest (hmem s))"
    using w by (auto simp: sys_epoll_add_def Let_def split: if_splits)
  have link: "linked (next_conn (?H(a \<mapsto> ?d))) ?p L"
    using linked_outside [OF hinvD(1) [OF inv] aL, of "?H(a \<mapsto> ?d)"] by simp
  have bounds: "b < next_addr (hmem s) \<and> conn_ok e" if "(?H(a \<mapsto> ?d)) b = Some e" for b e
    using that hinvD(3, 4) [OF inv] a d by (auto split: if_splits)
  show ?thesis
  proof (cases r)
    case None
    let ?s' = "s\<lparr>wrk := (wrk s)\<lparr>wk_connections := Ptr a\<rparr>, hmem := w\<rparr>"
    have run: "mt_add_connection_to_worker K a s = Inr ?s'"
      using a w None by (simp add: mt_add_connection_to_worker_def update_conn_Some Let_def)
    have "hinv ?s' (a # L)"
    proof (rule hinvI)
      show "linked (next_conn (heap (hmem ?s'))) (wk_connections (wrk ?s')) (a # L)"
        using link wf(1) by (simp add: next_conn_def)
      show "set (a # L) \<subseteq> dom (heap (hmem ?s'))" using hinvD(2) [OF inv] wf(1) by auto
      show "b < next_addr (hmem ?s') \<and> conn_ok e" if "heap (hmem ?s') b = Some e" for b e
        using that bounds wf(1, 2) by simp
    qed (use hinvD(6) [OF inv] in simp)
    then show ?thesis using run wf None by (intro that(1) [of ?s' ?d]) simp_all
  next
    case (Some e)
    let ?s2 = "s\<lparr>hmem := w\<rparr>"
    have inv2: "hinv ?s2 L"
    proof (rule hinvI)
      show "linked (next_conn (heap (hmem ?s2))) (wk_connections (wrk ?s2)) L" using link wf(1) by simp
      show "set L \<subseteq> dom (heap (hmem ?s2))" using hinvD(2) [OF inv] wf(1) by auto
      show "b < next_addr (hmem ?s2) \<and> conn_ok e" if "heap (hmem ?s2) b = Some e" for b e
        using that bounds wf(1, 2) by simp
    qed (use hinvD(6) [OF inv] in simp)
    have a2: "heap (hmem ?s2) a = Some ?d" using wf(1) by simp
    obtain s' where s': "mt_remove_connection_safe K (Ptr a) ?s2 = Inr s'" "hinv s' L"
        "heap (hmem s') = (heap (hmem ?s2))(a := None)" "next_addr (hmem s') = next_addr (hmem ?s2)"
        "wrk s' = wrk ?s2" "haio s' = haio ?s2"
        "\<forall>ep f i. interest (hmem s') ep f = Some i \<longrightarrow> interest (hmem ?s2) ep f = Some i"
      by (rule remove_unlisted [OF inv2 aL a2])
    have same: "wrk s = (wrk s)\<lparr>wk_connections := ?p\<rparr>" by simp
    have "mt_add_connection_to_worker K a s = Inr s'"
      using a w Some s'(1) by (simp add: mt_add_connection_to_worker_def update_conn_Some Let_def)
    then show ?thesis
      by (rule that(2)) (use s' wf Some in \<open>simp_all add: fun_upd_idem\<close>)
  qed
qed

text \<open>The welcome message: the connection stays, is removed, or was removed before.\<close>

lemma length_welcome: "length welcome_text = 92"
  by (simp add: welcome_text_def crlf_def)

lemma welcome_live:
  assumes inv: "hinv s L" and aL: "a \<in> set L"
  obtains s' L' where "mt_send_welcome_message K a s = Inr s'" and "hstep s L s' L'" and "L' = L \<or> L' = remove1 a L"
proof -
  obtain c where a: "heap (hmem s) a = Some c" using hinv_live [OF inv aL] by blast
  have c: "conn_ok c" by (rule hinvD(4) [OF inv a])
  let ?c = "c\<lparr>mt_write_buf := blit 0 welcome_text (mt_write_buf c), write_pending := 92\<rparr>"
  let ?s = "s\<lparr>hmem := put a ?c (hmem s)\<rparr>"
  have c1: "conn_ok ?c" using c by (simp add: conn_ok_def length_welcome)
  have st: "hstep s L ?s L" by (rule hstep_put [OF inv aL a _ c1]) (use hinvD(6) [OF inv] in simp_all)
  have run: "mt_send_welcome_message K a s = mt_try_write K a ?s"
    using a c by (simp add: mt_send_welcome_message_def length_welcome HYBRID_BUFFER_SIZE_def update_conn_Some conn_ok_def)
  have a1: "heap (hmem ?s) a = Some ?c" by simp
  show ?thesis
  proof (cases "write_kills K ?c (hmem ?s)")
    case True
    obtain s' where "mt_try_write K a ?s = Inr s'" "hstep ?s L s' (remove1 a L)"
      by (rule try_write_gone [OF hstepD(1) [OF st] aL a1 True])
    then show ?thesis using hstep_trans [OF st] run by (intro that) auto
  next
    case False
    obtain s' where "mt_try_write K a ?s = Inr s'" "hstep ?s L s' L"
      using try_write_live [OF hstepD(1) [OF st] aL a1 False] by metis
    then show ?thesis using hstep_trans [OF st] run by (intro that) auto
  qed
qed

lemma welcome_gone: "heap (hmem s) a = None \<Longrightarrow> mt_send_welcome_message K a s = Inl UseAfterFree"
  by (simp add: mt_send_welcome_message_def length_welcome HYBRID_BUFFER_SIZE_def load_def)

section \<open>The kernel's accesses to the buffers\<close>

lemma transfer_live:
  assumes b: "iocb_ok b" and d: "io_data b = Ptr a" and a: "heap w a = Some c" and c: "conn_ok c"
    and fits: "outcome_fits (io_opcode b) out"
  obtains r w' e where "io_transfer conn_buffer set_conn_buffer b out w = Inr (r, w')" and "heap w' = (heap w)(a \<mapsto> e)"
    and "conn_ok e" and "mt_next e = mt_next c" and "next_addr w' = next_addr w" and "interest w' = interest w"
proof -
  have buf: "io_buf b = Ptr (a, if io_opcode b = IO_CMD_PREAD then ReadBuf else WriteBuf)" and n: "unat (io_nbytes b) < 4096"
    using b d by (auto simp: iocb_ok_def)
  have l: "length (mt_read_buf c) = 4096" "length (mt_write_buf c) = 4096" using c by (simp_all add: conn_ok_def)
  have idem: "(heap w)(a \<mapsto> c) = heap w" using a by (simp add: fun_upd_idem)
  show ?thesis
  proof (cases out)
    case (IoError e)
    show ?thesis
      by (rule that [of "- word_of_int e" "emit (if io_opcode b = IO_CMD_PREAD then SysRead (io_fd b) (Inl e)
            else SysWrite (io_fd b) (Inl e)) w" c]) (use IoError c idem in \<open>simp_all add: io_transfer_def\<close>)
  next
    case (IoData bs)
    then have op: "io_opcode b = IO_CMD_PREAD" using fits by simp
    let ?data = "take (unat (io_nbytes b)) bs"
    let ?c = "c\<lparr>mt_read_buf := blit 0 ?data (mt_read_buf c)\<rparr>"
    have len: "length ?data \<le> 4096" using n by simp
    then have c': "conn_ok ?c" using c by (simp add: conn_ok_def)
    have "io_transfer conn_buffer set_conn_buffer b out w
        = Inr (of_nat (length ?data), emit (SysRead (io_fd b) (Inr ?data)) (put a ?c w))"
      using IoData buf op a l len by (simp add: io_transfer_def conn_buffer_def set_conn_buffer_def Let_def)
    then show ?thesis by (rule that [of _ _ ?c]) (use c' in simp_all)
  next
    case (IoCount k)
    then have op: "io_opcode b = IO_CMD_PWRITE" using fits by simp
    have "io_transfer conn_buffer set_conn_buffer b out w = Inr (of_nat (length (take k (slice 0 (unat (io_nbytes b)) (mt_write_buf c)))),
        emit (SysWrite (io_fd b) (Inr (take k (slice 0 (unat (io_nbytes b)) (mt_write_buf c))))) w)"
      using IoCount buf op a l n by (simp add: io_transfer_def conn_buffer_def min.commute)
    then show ?thesis by (rule that [of _ _ c]) (use c idem in simp_all)
  qed
qed

lemma transfer_dead:
  assumes b: "iocb_ok b" and d: "io_data b = Ptr a" and a: "heap w a = None"
  shows "io_transfer conn_buffer set_conn_buffer b out w = Inl UseAfterFree
    \<or> (\<exists>r w'. io_transfer conn_buffer set_conn_buffer b out w = Inr (r, w') \<and> heap w' = heap w \<and> next_addr w' = next_addr w
         \<and> interest w' = interest w)"
proof -
  have "io_buf b = Ptr (a, if io_opcode b = IO_CMD_PREAD then ReadBuf else WriteBuf)"
    using b d by (auto simp: iocb_ok_def)
  then show ?thesis using a by (cases out) (simp_all add: io_transfer_def conn_buffer_def load_def)
qed

end
