(* ===== verification/HybridSystem.thy ===== *)
theory HybridSystem
  imports HybridAdd
begin

text \<open>
  The invariant of the whole hybrid proactor and its preservation by every step of its threads, of
  the kernel and of the signal handler.

  \<^item> \<open>worker_inv\<close>: the invariant of one worker with the events and operations that are on their
    way to it: each names a connection of this worker or one that was freed.
  \<^item> \<open>hybrid_inv\<close>: every worker has its own list of connections, and the lists are disjoint.
  \<^item> A step either keeps the invariant or is a use after free or a store out of bounds.
\<close>

section \<open>The invariant of a worker\<close>

text \<open>An address that was allocated, of a connection of \<open>L\<close> or of a freed one.\<close>

definition known :: "hworld \<Rightarrow> addr list \<Rightarrow> addr \<Rightarrow> bool" where
  "known w L a \<longleftrightarrow> a < next_addr w \<and> (a \<in> set L \<or> heap w a = None)"

definition item_ok :: "fd \<Rightarrow> hworld \<Rightarrow> addr list \<Rightarrow> epoll_data \<Rightarrow> bool" where
  "item_ok ex w L d \<longleftrightarrow> (case d of DataFd f \<Rightarrow> f = ex | DataPtr a \<Rightarrow> known w L a)"

definition data_ok :: "hworld \<Rightarrow> addr list \<Rightarrow> addr ptr \<Rightarrow> bool" where
  "data_ok w L p \<longleftrightarrow> (case p of NULL \<Rightarrow> True | Ptr a \<Rightarrow> known w L a)"

definition pc_ok :: "fd \<Rightarrow> hworld \<Rightarrow> addr list \<Rightarrow> hworker_pc \<Rightarrow> bool" where
  "pc_ok ex w L pc \<longleftrightarrow> (case pc of HEvents es \<Rightarrow> \<forall>d\<in>fst ` set es. item_ok ex w L d
     | HCompletions es \<Rightarrow> \<forall>e\<in>set es. data_ok w L (ev_data e) | _ \<Rightarrow> True)"

definition aio_known :: "hworld \<Rightarrow> addr list \<Rightarrow> aio \<Rightarrow> bool" where
  "aio_known w L q \<longleftrightarrow> (\<forall>b\<in>set (in_flight q). data_ok w L (io_data b)) \<and> (\<forall>e\<in>set (finished q). data_ok w L (ev_data e))"

definition interest_ok :: "fd \<Rightarrow> hworld \<Rightarrow> addr list \<Rightarrow> fd \<Rightarrow> bool" where
  "interest_ok ex w L ep \<longleftrightarrow> (\<forall>f d m. interest w ep f = Some (d, m) \<longrightarrow> item_ok ex w L d)"

definition worker_inv :: "fd \<Rightarrow> hworld \<Rightarrow> hworker_pc \<Rightarrow> worker_context \<Rightarrow> aio \<Rightarrow> addr list \<Rightarrow> bool" where
  "worker_inv ex w pc k q L \<longleftrightarrow> hinv \<lparr>wrk = k, hmem = w, haio = q\<rparr> L \<and> interest_ok ex w L (wk_epoll_fd k)
     \<and> pc_ok ex w L pc \<and> aio_known w L q"

text \<open>What another thread may do without disturbing a worker.\<close>

definition apart :: "fd \<Rightarrow> addr list \<Rightarrow> hworld \<Rightarrow> hworld \<Rightarrow> bool" where
  "apart ep L w w' \<longleftrightarrow> (\<forall>b\<in>set L. heap w' b = heap w b) \<and> (\<forall>a < next_addr w. heap w a = None \<longrightarrow> heap w' a = None)
     \<and> next_addr w \<le> next_addr w' \<and> (\<forall>f i. interest w' ep f = Some i \<longrightarrow> interest w ep f = Some i)"

text \<open>The known addresses stay known when connections are removed and new ones get new addresses.\<close>

definition grows :: "hworld \<Rightarrow> addr list \<Rightarrow> hworld \<Rightarrow> addr list \<Rightarrow> bool" where
  "grows w L w' L' \<longleftrightarrow> next_addr w \<le> next_addr w' \<and> (\<forall>a < next_addr w. a \<in> set L \<longrightarrow> a \<in> set L' \<or> heap w' a = None)
     \<and> (\<forall>a < next_addr w. heap w a = None \<longrightarrow> heap w' a = None)"

lemma known_grows: "grows w L w' L' \<Longrightarrow> known w L a \<Longrightarrow> known w' L' a"
  unfolding grows_def known_def by fastforce

lemma ok_grows:
  assumes "grows w L w' L'"
  shows "item_ok ex w L d \<Longrightarrow> item_ok ex w' L' d" and "data_ok w L p \<Longrightarrow> data_ok w' L' p"
    and "pc_ok ex w L pc \<Longrightarrow> pc_ok ex w' L' pc" and "aio_known w L q \<Longrightarrow> aio_known w' L' q"
proof -
  note k = known_grows [OF assms]
  show i: "item_ok ex w L d \<Longrightarrow> item_ok ex w' L' d" for d
    using k by (auto simp: item_ok_def split: epoll_data.splits)
  show d: "data_ok w L p \<Longrightarrow> data_ok w' L' p" for p using k by (auto simp: data_ok_def split: ptr.splits)
  show "pc_ok ex w L pc \<Longrightarrow> pc_ok ex w' L' pc" using i d by (auto simp: pc_ok_def split: hworker_pc.splits)
  show "aio_known w L q \<Longrightarrow> aio_known w' L' q" using d by (auto simp: aio_known_def)
qed

lemma heap_grows_refl: "grows w L w L"
  by (simp add: grows_def)

lemma apart_grows: "apart ep L w w' \<Longrightarrow> grows w L w' L"
  by (simp add: apart_def grows_def)

lemma worker_inv_apart:
  assumes inv: "worker_inv ex w pc k q L" and ap: "apart (wk_epoll_fd k) L w w'"
    and conns: "\<And>a c. heap w' a = Some c \<Longrightarrow> a < next_addr w' \<and> conn_ok c"
  shows "worker_inv ex w' pc k q L"
proof -
  note g = ok_grows [OF apart_grows [OF ap]]
  let ?s = "\<lparr>wrk = k, hmem = w, haio = q\<rparr>" and ?s' = "\<lparr>wrk = k, hmem = w', haio = q\<rparr>"
  have h: "hinv ?s L" using inv by (simp add: worker_inv_def)
  have same: "heap w' b = heap w b" if "b \<in> set L" for b using ap that by (simp add: apart_def)
  have "hinv ?s' L"
  proof (rule hinvI)
    have "next_conn (heap w') b = next_conn (heap w) b" if "b \<in> set L" for b
      using same [OF that] by (simp add: next_conn_def)
    then show "linked (next_conn (heap (hmem ?s'))) (wk_connections (wrk ?s')) L"
      using linked_cong [of L "next_conn (heap w')" "next_conn (heap w)"] hinvD(1) [OF h] by simp
    show "set L \<subseteq> dom (heap (hmem ?s'))" using hinvD(2) [OF h] same by (auto simp: dom_def)
    show "a < next_addr (hmem ?s') \<and> conn_ok c" if "heap (hmem ?s') a = Some c" for a c using that conns by simp
    show "aio_ok (haio ?s')" using hinvD(6) [OF h] by simp
  qed
  moreover have "interest_ok ex w' L (wk_epoll_fd k)"
    using inv ap g(1) unfolding worker_inv_def interest_ok_def apart_def by blast
  ultimately show ?thesis using inv g(3, 4) by (simp add: worker_inv_def)
qed

text \<open>The worker's own step.\<close>

lemma hstep_dead: "hstep s L s' L' \<Longrightarrow> heap (hmem s) a = None \<Longrightarrow> heap (hmem s') a = None"
  by (metis DiffE domIff hstepD(3))

lemma hstep_removed: "hstep s L s' L' \<Longrightarrow> a \<in> set L \<Longrightarrow> a \<notin> set L' \<Longrightarrow> heap (hmem s') a = None"
  by (metis DiffE DiffI domIff hstepD(3))

lemma hstep_grows:
  assumes "hstep s L s' L'"
  shows "grows (hmem s) L (hmem s') L'"
  unfolding grows_def
proof (intro conjI allI impI)
  note st = hstepD [OF assms]
  show "next_addr (hmem s) \<le> next_addr (hmem s')" using st(4) by simp
  show "a \<in> set L' \<or> heap (hmem s') a = None" if "a \<in> set L" for a
    using hstep_removed [OF assms that] by (cases "a \<in> set L'") simp_all
  show "heap (hmem s') a = None" if "heap (hmem s) a = None" for a using hstep_dead [OF assms that] .
qed

lemma hstep_apart:
  assumes "hstep s L s' L'" and "set M \<inter> set L = {}"
  shows "apart ep M (hmem s) (hmem s')"
  unfolding apart_def
proof (intro conjI ballI allI impI)
  note st = hstepD [OF assms(1)]
  show "heap (hmem s') b = heap (hmem s) b" if "b \<in> set M" for b using st(5) that assms(2) by blast
  show "heap (hmem s') a = None" if "heap (hmem s) a = None" for a using hstep_dead [OF assms(1) that] .
  show "next_addr (hmem s) \<le> next_addr (hmem s')" using st(4) by simp
  show "interest (hmem s) ep f = Some i" if "interest (hmem s') ep f = Some i" for f i using st(7) that by simp
qed

lemma aio_known_step:
  assumes g: "grows w L w' L'" and k: "aio_known w L q" and st: "aio_step q L q'"
    and low: "\<And>a. a \<in> set L \<Longrightarrow> a < next_addr w"
  shows "aio_known w' L' q'"
proof -
  note d = ok_grows(2) [OF g]
  have "data_ok w L (io_data b)" if "b \<in> set (in_flight q')" for b
    using that k st low unfolding aio_step_def aio_known_def by (fastforce simp: data_ok_def known_def)
  moreover have "data_ok w L (ev_data e)" if "e \<in> set (finished q')" for e
    using that k st unfolding aio_step_def aio_known_def by auto
  ultimately show ?thesis using d by (auto simp: aio_known_def)
qed

lemma worker_inv_hstep:
  assumes inv: "worker_inv ex w pc k q L" and st: "hstep \<lparr>wrk = k, hmem = w, haio = q\<rparr> L h L'"
    and pc: "pc_ok ex (hmem h) L' pc'"
  shows "worker_inv ex (hmem h) pc' (wrk h) (haio h) L'"
proof -
  let ?s = "\<lparr>wrk = k, hmem = w, haio = q\<rparr>"
  note d = hstepD [OF st]
  have g: "grows w L (hmem h) L'" using hstep_grows [OF st] by simp
  have hs: "hinv ?s L" using inv by (simp add: worker_inv_def)
  have "interest_ok ex (hmem h) L' (wk_epoll_fd (wrk h))"
    unfolding interest_ok_def
  proof (intro allI impI)
    fix f e m assume "interest (hmem h) (wk_epoll_fd (wrk h)) f = Some (e, m)"
    then have "interest w (wk_epoll_fd k) f = Some (e, m)" using d(7, 8) by simp
    then show "item_ok ex (hmem h) L' e"
      using inv ok_grows(1) [OF g] unfolding worker_inv_def interest_ok_def by blast
  qed
  moreover have low: "a < next_addr w" if "a \<in> set L" for a using hinv_live [OF hs that] hinvD(3) [OF hs] by auto
  have "aio_known (hmem h) L' (haio h)"
    by (rule aio_known_step [OF g _ _ low]) (use inv d(9) in \<open>simp_all add: worker_inv_def\<close>)
  moreover have "hinv \<lparr>wrk = wrk h, hmem = hmem h, haio = haio h\<rparr> L'" using d(1) by (simp add: hinv_def)
  ultimately show ?thesis using pc by (simp add: worker_inv_def)
qed

section \<open>The invariant of the program\<close>

text \<open>The workers with their program counters; \<open>Ls\<close> are their lists of connections.\<close>

definition workers_inv :: "nat \<Rightarrow> fd \<Rightarrow> hworld \<Rightarrow> hworker_pc list \<Rightarrow> worker_context list \<Rightarrow> aio list \<Rightarrow> addr list list \<Rightarrow> bool" where
  "workers_inv n ex w pcs ks qs Ls \<longleftrightarrow> length pcs = n \<and> length ks = n \<and> length qs = n \<and> length Ls = n
     \<and> (\<forall>i<n. worker_inv ex w (pcs ! i) (ks ! i) (qs ! i) (Ls ! i))
     \<and> (\<forall>i<n. \<forall>j<n. i \<noteq> j \<longrightarrow> set (Ls ! i) \<inter> set (Ls ! j) = {} \<and> wk_epoll_fd (ks ! i) \<noteq> wk_epoll_fd (ks ! j))"

definition hybrid_inv :: "nat \<Rightarrow> fd \<Rightarrow> hsys \<Rightarrow> addr list list \<Rightarrow> bool" where
  "hybrid_inv n ex s Ls \<longleftrightarrow> 0 < n \<and> num_workers (mtp (hyb s)) = n \<and> next_worker (mtp (hyb s)) < n
     \<and> mt_exit_event_fd (mtp (hyb s)) = ex
     \<and> (\<exists>ks. mt_workers (mtp (hyb s)) = Ptr ks \<and> workers_inv n ex (hwd (hyb s)) (hpcs s) ks (haios (hyb s)) Ls)
     \<and> (case apc s of AWelcome i a \<Rightarrow> i < n \<and> known (hwd (hyb s)) (Ls ! i) a | _ \<Rightarrow> True)"

lemma workers_invD:
  assumes "workers_inv n ex w pcs ks qs Ls" and "i < n"
  shows "worker_inv ex w (pcs ! i) (ks ! i) (qs ! i) (Ls ! i)"
    and "\<And>j. j < n \<Longrightarrow> j \<noteq> i \<Longrightarrow> set (Ls ! j) \<inter> set (Ls ! i) = {} \<and> wk_epoll_fd (ks ! j) \<noteq> wk_epoll_fd (ks ! i)"
    and "length pcs = n" "length ks = n" "length qs = n" "length Ls = n"
  using assms unfolding workers_inv_def by blast+

text \<open>One worker does a step, or a connection is added to one worker.\<close>

lemma workers_inv_update:
  assumes inv: "workers_inv n ex w pcs ks qs Ls" and i: "i < n"
    and own: "worker_inv ex w' pc' k' q' L'" and ep: "wk_epoll_fd k' = wk_epoll_fd (ks ! i)"
    and ap: "\<And>j. j < n \<Longrightarrow> j \<noteq> i \<Longrightarrow> apart (wk_epoll_fd (ks ! j)) (Ls ! j) w w'"
    and dis: "\<And>j. j < n \<Longrightarrow> j \<noteq> i \<Longrightarrow> set (Ls ! j) \<inter> set L' = {}"
  shows "workers_inv n ex w' (pcs[i := pc']) (ks[i := k']) (qs[i := q']) (Ls[i := L'])"
  unfolding workers_inv_def
proof (intro conjI allI impI)
  note d = workers_invD [OF inv]
  note l = d(3-6) [OF i]
  have conns: "a < next_addr w' \<and> conn_ok c" if "heap w' a = Some c" for a c
    using own that hinvD(3, 4) unfolding worker_inv_def by fastforce
  show "worker_inv ex w' (pcs[i := pc'] ! j) (ks[i := k'] ! j) (qs[i := q'] ! j) (Ls[i := L'] ! j)" if j: "j < n" for j
  proof (cases "j = i")
    case True
    then show ?thesis using own l i by simp
  next
    case False
    then have "worker_inv ex w' (pcs ! j) (ks ! j) (qs ! j) (Ls ! j)"
      using worker_inv_apart [OF d(1) [OF j] ap [OF j False]] conns by blast
    then show ?thesis using False by simp
  qed
  show "set (Ls[i := L'] ! j) \<inter> set (Ls[i := L'] ! m) = {}" if "j < n" "m < n" "j \<noteq> m" for j m
    using that dis d(2) l(4) by (cases "j = i"; cases "m = i") (auto simp: Int_commute)
  show "wk_epoll_fd (ks[i := k'] ! j) \<noteq> wk_epoll_fd (ks[i := k'] ! m)" if "j < n" "m < n" "j \<noteq> m" for j m
    using that d(2) ep l(2) by (cases "j = i"; cases "m = i") auto
qed (use workers_invD(3-6) [OF inv i] in simp_all)

lemma workers_inv_pc:
  assumes inv: "workers_inv n ex w pcs ks qs Ls" and i: "i < n" and pc: "pc_ok ex w (Ls ! i) pc'"
  shows "workers_inv n ex w (pcs[i := pc']) ks qs Ls"
proof -
  have "worker_inv ex w pc' (ks ! i) (qs ! i) (Ls ! i)"
    using workers_invD(1) [OF inv i] pc by (simp add: worker_inv_def)
  moreover have "apart ep L w w" for ep L by (simp add: apart_def)
  ultimately show ?thesis
    using workers_inv_update [OF inv i, of w pc' "ks ! i" "qs ! i" "Ls ! i"] workers_invD(2) [OF inv i] by simp
qed

lemma workers_inv_hstep:
  assumes inv: "workers_inv n ex w pcs ks qs Ls" and i: "i < n"
    and st: "hstep \<lparr>wrk = ks ! i, hmem = w, haio = qs ! i\<rparr> (Ls ! i) h L'" and pc: "pc_ok ex (hmem h) L' pc'"
  shows "workers_inv n ex (hmem h) (pcs[i := pc']) (ks[i := wrk h]) (qs[i := haio h]) (Ls[i := L'])"
proof (rule workers_inv_update [OF inv i worker_inv_hstep [OF workers_invD(1) [OF inv i] st pc]])
  show "wk_epoll_fd (wrk h) = wk_epoll_fd (ks ! i)" using hstepD(8) [OF st] by simp
  fix j assume j: "j < n" "j \<noteq> i"
  have dis: "set (Ls ! j) \<inter> set (Ls ! i) = {}" using workers_invD(2) [OF inv i j] by blast
  then show "apart (wk_epoll_fd (ks ! j)) (Ls ! j) w (hmem h)" using hstep_apart [OF st] by simp
  show "set (Ls ! j) \<inter> set L' = {}" using dis hstepD(2) [OF st] by blast
qed

text \<open>A change of the world that no worker sees.\<close>

lemma workers_inv_apart:
  assumes inv: "workers_inv n ex w pcs ks qs Ls"
    and ap: "\<And>i. i < n \<Longrightarrow> apart (wk_epoll_fd (ks ! i)) (Ls ! i) w w'"
    and conns: "\<And>a c. heap w' a = Some c \<Longrightarrow> a < next_addr w' \<and> conn_ok c"
  shows "workers_inv n ex w' pcs ks qs Ls"
  unfolding workers_inv_def
proof (intro conjI allI impI)
  fix i assume i: "i < n"
  show "worker_inv ex w' (pcs ! i) (ks ! i) (qs ! i) (Ls ! i)"
    using worker_inv_apart [OF workers_invD(1) [OF inv i] ap [OF i]] conns by blast
qed (use inv in \<open>auto simp: workers_inv_def\<close>)

lemma workers_inv_conns:
  assumes "workers_inv n ex w pcs ks qs Ls" and "0 < n" and "heap w a = Some c"
  shows "a < next_addr w" and "conn_ok c"
proof -
  have h: "hinv \<lparr>wrk = ks ! 0, hmem = w, haio = qs ! 0\<rparr> (Ls ! 0)"
    using workers_invD(1) [OF assms(1, 2)] by (simp add: worker_inv_def)
  show "a < next_addr w" "conn_ok c" using hinvD(3, 4) [OF h] assms(3) by auto
qed

lemma workers_inv_world:
  assumes inv: "workers_inv n ex w pcs ks qs Ls" and n: "0 < n"
    and w: "heap w' = heap w" "next_addr w' = next_addr w"
    and int: "\<And>ep f i. interest w' ep f = Some i \<Longrightarrow> interest w ep f = Some i"
  shows "workers_inv n ex w' pcs ks qs Ls"
  by (rule workers_inv_apart [OF inv]) (use w int workers_inv_conns [OF inv n] in \<open>simp_all add: apart_def\<close>)

section \<open>Steps of a worker\<close>

lemma hybrid_invE:
  assumes "hybrid_inv n ex s Ls"
  obtains ks where "mt_workers (mtp (hyb s)) = Ptr ks" and "workers_inv n ex (hwd (hyb s)) (hpcs s) ks (haios (hyb s)) Ls"
    and "num_workers (mtp (hyb s)) = n" and "next_worker (mtp (hyb s)) < n" and "mt_exit_event_fd (mtp (hyb s)) = ex"
  using assms unfolding hybrid_inv_def by blast

lemma hybrid_inv_next:
  assumes inv: "hybrid_inv n ex s Ls" and ws: "workers_inv n ex (hwd h) pcs ks (haios h) Ls'"
    and g: "\<And>j. j < n \<Longrightarrow> grows (hwd (hyb s)) (Ls ! j) (hwd h) (Ls' ! j)"
    and p: "mt_workers (mtp h) = Ptr ks" "num_workers (mtp h) = n" "next_worker (mtp h) < n" "mt_exit_event_fd (mtp h) = ex"
  shows "hybrid_inv n ex (s\<lparr>hyb := h, hpcs := pcs\<rparr>) Ls'"
proof -
  have "case apc s of AWelcome i a \<Rightarrow> i < n \<and> known (hwd h) (Ls' ! i) a | _ \<Rightarrow> True"
  proof (cases "apc s")
    case (AWelcome i a)
    then have "i < n" "known (hwd (hyb s)) (Ls ! i) a" using inv unfolding hybrid_inv_def by auto
    then show ?thesis using known_grows [OF g] AWelcome by simp
  qed simp_all
  then show ?thesis using inv ws p unfolding hybrid_inv_def by (cases "apc s") simp_all
qed

text \<open>A safe step: only a use after free is possible, and a store out of bounds when \<open>b\<close> holds.\<close>

definition safe_result :: "nat \<Rightarrow> fd \<Rightarrow> bool \<Rightarrow> hsys res \<Rightarrow> bool" where
  "safe_result n ex b r \<longleftrightarrow> (case r of Inl f \<Rightarrow> f = UseAfterFree \<or> f = OutOfBounds \<and> b | Inr s \<Rightarrow> \<exists>Ls. hybrid_inv n ex s Ls)"

lemma safe_result_simps [simp]:
  "safe_result n ex b (Inl UseAfterFree)" "safe_result n ex b (Inl OutOfBounds) \<longleftrightarrow> b"
  "safe_result n ex b (Inr s) \<longleftrightarrow> (\<exists>Ls. hybrid_inv n ex s Ls)"
  by (simp_all add: safe_result_def)

text \<open>The completion of an operation that failed, as the worker reads it.\<close>

definition long_completion :: "hact \<Rightarrow> hsys \<Rightarrow> bool" where
  "long_completion a s \<longleftrightarrow> (\<exists>i e es. a = HWorker i \<and> hpcs s ! i = HCompletions (e # es) \<and> 4096 \<le> unat (ev_res e) \<and> ev_res2 e = 0)"

lemma worker_at_Ptr: "mt_workers (mtp h) = Ptr ks \<Longrightarrow> i < length ks \<Longrightarrow> worker_at i h = Inr (ks ! i)"
  by (simp add: worker_at_def)

lemma set_worker_simps [simp]:
  "hwd (set_worker i k h) = hwd h" "haios (set_worker i k h) = haios h" "graceful_shutdown (set_worker i k h) = graceful_shutdown h"
  "num_workers (mtp (set_worker i k h)) = num_workers (mtp h)" "next_worker (mtp (set_worker i k h)) = next_worker (mtp h)"
  "mt_exit_event_fd (mtp (set_worker i k h)) = mt_exit_event_fd (mtp h)"
  "mt_workers (mtp h) = Ptr ks \<Longrightarrow> mt_workers (mtp (set_worker i k h)) = Ptr (ks[i := k])"
  by (simp_all add: set_worker_def)

text \<open>A function of \<open>Hybrid\<close> run on a worker.\<close>

lemma on_worker_run:
  assumes inv: "hybrid_inv n ex s Ls" and i: "i < n" and ks: "mt_workers (mtp (hyb s)) = Ptr ks"
    and st: "hstep \<lparr>wrk = ks ! i, hmem = hwd (hyb s), haio = haios (hyb s) ! i\<rparr> (Ls ! i) h L'"
    and run: "f \<lparr>wrk = ks ! i, hmem = hwd (hyb s), haio = haios (hyb s) ! i\<rparr> = Inr h"
    and pc: "pc_ok ex (hmem h) L' pc'"
  shows "\<exists>h'. on_worker i f (hyb s) = Inr h' \<and> hybrid_inv n ex (s\<lparr>hyb := h', hpcs := (hpcs s)[i := pc']\<rparr>) (Ls[i := L'])
    \<and> hwd h' = hmem h"
proof -
  obtain ks' where ks': "mt_workers (mtp (hyb s)) = Ptr ks'"
      and ws: "workers_inv n ex (hwd (hyb s)) (hpcs s) ks' (haios (hyb s)) Ls"
      and p: "num_workers (mtp (hyb s)) = n" "next_worker (mtp (hyb s)) < n" "mt_exit_event_fd (mtp (hyb s)) = ex"
    by (rule hybrid_invE [OF inv])
  have eq: "ks' = ks" using ks ks' by simp
  note l = workers_invD(3-6) [OF ws i]
  let ?h = "(set_worker i (wrk h) (hyb s))\<lparr>hwd := hmem h, haios := (haios (hyb s))[i := haio h]\<rparr>"
  have r: "on_worker i f (hyb s) = Inr ?h"
    using run i l(2) eq ks by (simp add: on_worker_def worker_at_Ptr [OF ks])
  have "hybrid_inv n ex (s\<lparr>hyb := ?h, hpcs := (hpcs s)[i := pc']\<rparr>) (Ls[i := L'])"
  proof (rule hybrid_inv_next [OF inv])
    show "workers_inv n ex (hwd ?h) ((hpcs s)[i := pc']) (ks[i := wrk h]) (haios ?h) (Ls[i := L'])"
      using workers_inv_hstep [OF ws i _ pc] st eq by simp
    show "mt_workers (mtp ?h) = Ptr (ks[i := wrk h])" using ks by simp
    fix j assume j: "j < n"
    show "grows (hwd (hyb s)) (Ls ! j) (hwd ?h) (Ls[i := L'] ! j)"
    proof (cases "j = i")
      case True
      then show ?thesis using hstep_grows [OF st] i l(4) by simp
    next
      case False
      have "set (Ls ! j) \<inter> set (Ls ! i) = {}" using workers_invD(2) [OF ws i j False] by blast
      then show ?thesis using apart_grows [OF hstep_apart [OF st]] False by simp
    qed
  qed (use p in simp_all)
  then show ?thesis using r by auto
qed

lemma event_dead:
  "heap (hmem s) a = None \<Longrightarrow> mt_handle_connection_event K a ev s = Inl UseAfterFree \<or> mt_handle_connection_event K a ev s = Inr s"
  unfolding mt_handle_connection_event_def by (simp add: load_def update_conn_None)

text \<open>Steps that change the program counter and maybe the trace.\<close>

lemma pc_step:
  assumes inv: "hybrid_inv n ex s Ls" and i: "i < n"
    and w: "heap (hwd h) = heap (hwd (hyb s))" "next_addr (hwd h) = next_addr (hwd (hyb s))" "interest (hwd h) = interest (hwd (hyb s))"
    and eq: "mtp h = mtp (hyb s)" "haios h = haios (hyb s)" and pc: "pc_ok ex (hwd h) (Ls ! i) pc'"
  shows "hybrid_inv n ex (s\<lparr>hyb := h, hpcs := (hpcs s)[i := pc']\<rparr>) Ls"
proof -
  obtain ks where ks: "mt_workers (mtp (hyb s)) = Ptr ks"
      and ws: "workers_inv n ex (hwd (hyb s)) (hpcs s) ks (haios (hyb s)) Ls"
      and p: "num_workers (mtp (hyb s)) = n" "next_worker (mtp (hyb s)) < n" "mt_exit_event_fd (mtp (hyb s)) = ex"
    by (rule hybrid_invE [OF inv])
  have "workers_inv n ex (hwd h) ((hpcs s)[i := pc']) ks (haios h) Ls"
    unfolding eq(2) by (rule workers_inv_pc [OF workers_inv_world [OF ws] i pc]) (use w i in simp_all)
  then show ?thesis
    by (rule hybrid_inv_next [OF inv]) (use ks p eq w in \<open>simp_all add: grows_def\<close>)
qed

lemma items_reported:
  assumes "interest_ok ex w L ep" and "sys_epoll_wait K ep m w = (Inr evs, w')" and "d \<in> fst ` set evs"
  shows "item_ok ex w L d"
proof -
  obtain f e where "(f, d, e) \<in> set (ready (interest w ep) (projr (k_poll K (now w))))"
    using assms(2, 3) by (auto simp: sys_epoll_wait_def split: sum.splits dest!: in_set_takeD)
  then obtain msk where "interest w ep f = Some (d, msk)" by (rule ready_registered)
  then show ?thesis using assms(1) unfolding interest_ok_def by blast
qed

lemma worker_enter_inv:
  assumes inv: "hybrid_inv n ex s Ls" and i: "i < n"
  shows "\<exists>h. on_worker i (\<lambda>h. Inr (worker_enter K (mt_exit_event_fd (mtp (hyb s))) h)) (hyb s) = Inr h
    \<and> hybrid_inv n ex (s\<lparr>hyb := h, hpcs := (hpcs s)[i := HTop]\<rparr>) Ls"
proof -
  obtain ks where ks: "mt_workers (mtp (hyb s)) = Ptr ks"
      and ws: "workers_inv n ex (hwd (hyb s)) (hpcs s) ks (haios (hyb s)) Ls"
      and p: "num_workers (mtp (hyb s)) = n" "next_worker (mtp (hyb s)) < n" "mt_exit_event_fd (mtp (hyb s)) = ex"
    by (rule hybrid_invE [OF inv])
  note l = workers_invD(3-6) [OF ws i]
  let ?w = "hwd (hyb s)" and ?ep = "wk_epoll_fd (ks ! i)" and ?q = "haios (hyb s) ! i"
  let ?e = "worker_enter K ex \<lparr>wrk = ks ! i, hmem = ?w, haio = ?q\<rparr>"
  have e: "wrk ?e = ks ! i" "haio ?e = ?q" by (simp_all add: worker_enter_def)
  have w: "heap (hmem ?e) = heap ?w" "next_addr (hmem ?e) = next_addr ?w"
    by (simp_all add: worker_enter_def sys_epoll_add_def Let_def)
  have int: "interest (hmem ?e) b f = interest ?w b f \<or> b = ?ep \<and> interest (hmem ?e) b f = Some (DataFd ex, EPOLLIN)" for b f
    by (simp add: worker_enter_def sys_epoll_add_def Let_def)
  let ?h = "(set_worker i (wrk ?e) (hyb s))\<lparr>hwd := hmem ?e, haios := (haios (hyb s))[i := haio ?e]\<rparr>"
  have run: "on_worker i (\<lambda>h. Inr (worker_enter K (mt_exit_event_fd (mtp (hyb s))) h)) (hyb s) = Inr ?h"
    using i l p by (simp add: on_worker_def worker_at_Ptr [OF ks])
  have g: "grows ?w L (hmem ?e) L" for L using w by (simp add: grows_def)
  have own: "worker_inv ex (hmem ?e) HTop (ks ! i) ?q (Ls ! i)"
  proof -
    have old: "worker_inv ex ?w (hpcs s ! i) (ks ! i) ?q (Ls ! i)" by (rule workers_invD(1) [OF ws i])
    have "hinv \<lparr>wrk = ks ! i, hmem = hmem ?e, haio = ?q\<rparr> (Ls ! i)"
      using old w by (simp add: worker_inv_def hinv_def)
    moreover have "interest_ok ex (hmem ?e) (Ls ! i) ?ep"
      unfolding interest_ok_def
    proof (intro allI impI)
      fix f d m assume a: "interest (hmem ?e) ?ep f = Some (d, m)"
      from int [of ?ep f] show "item_ok ex (hmem ?e) (Ls ! i) d"
      proof
        assume "interest (hmem ?e) ?ep f = interest ?w ?ep f"
        then have "interest ?w ?ep f = Some (d, m)" using a by simp
        then have "item_ok ex ?w (Ls ! i) d" using old unfolding worker_inv_def interest_ok_def by blast
        then show ?thesis by (rule ok_grows(1) [OF g])
      next
        assume "?ep = ?ep \<and> interest (hmem ?e) ?ep f = Some (DataFd ex, EPOLLIN)"
        then show ?thesis using a by (simp add: item_ok_def)
      qed
    qed
    ultimately show ?thesis using old ok_grows(4) [OF g] by (simp add: worker_inv_def pc_ok_def)
  qed
  have "workers_inv n ex (hmem ?e) ((hpcs s)[i := HTop]) (ks[i := ks ! i]) ((haios (hyb s))[i := ?q]) (Ls[i := Ls ! i])"
  proof (rule workers_inv_update [OF ws i own])
    fix j assume j: "j < n" "j \<noteq> i"
    note d = workers_invD(2) [OF ws i j]
    show "set (Ls ! j) \<inter> set (Ls ! i) = {}" using d by blast
    show "apart (wk_epoll_fd (ks ! j)) (Ls ! j) ?w (hmem ?e)"
      using w int [of "wk_epoll_fd (ks ! j)"] d by (simp add: apart_def)
  qed simp
  then have "hybrid_inv n ex (s\<lparr>hyb := ?h, hpcs := (hpcs s)[i := HTop]\<rparr>) Ls"
    by (intro hybrid_inv_next [OF inv, of ?h _ "ks[i := ks ! i]"]) (use ks p g e in simp_all)
  then show ?thesis using run by blast
qed

text \<open>Reaping finished operations.\<close>

lemma aio_reap_inv:
  assumes inv: "hybrid_inv n ex s Ls" and i: "i < n"
    and run: "io_getevents K m (haios (hyb s) ! i) (hwd (hyb s)) = (r, q, w)"
    and pc: "pc_ok ex (hwd (hyb s)) (Ls ! i) pc'"
  shows "hybrid_inv n ex (s\<lparr>hyb := (hyb s)\<lparr>hwd := w, haios := (haios (hyb s))[i := q]\<rparr>, hpcs := (hpcs s)[i := pc']\<rparr>) Ls"
proof -
  obtain ks where ks: "mt_workers (mtp (hyb s)) = Ptr ks"
      and ws: "workers_inv n ex (hwd (hyb s)) (hpcs s) ks (haios (hyb s)) Ls"
      and p: "num_workers (mtp (hyb s)) = n" "next_worker (mtp (hyb s)) < n" "mt_exit_event_fd (mtp (hyb s)) = ex"
    by (rule hybrid_invE [OF inv])
  let ?q = "haios (hyb s) ! i" and ?v = "hwd (hyb s)"
  have q: "in_flight q = in_flight ?q" "set (finished q) \<subseteq> set (finished ?q)"
    and w: "heap w = heap ?v" "next_addr w = next_addr ?v" "interest w = interest ?v"
    using run by (auto simp: io_getevents_def split: sum.splits dest: in_set_dropD)
  have g: "grows ?v L w L" for L using w by (simp add: grows_def)
  have old: "worker_inv ex ?v (hpcs s ! i) (ks ! i) ?q (Ls ! i)" by (rule workers_invD(1) [OF ws i])
  have "hinv \<lparr>wrk = ks ! i, hmem = w, haio = q\<rparr> (Ls ! i)"
    using old w q by (simp add: worker_inv_def hinv_def aio_ok_def)
  moreover have "interest_ok ex w (Ls ! i) (wk_epoll_fd (ks ! i))"
    using old w ok_grows(1) [OF g] unfolding worker_inv_def interest_ok_def by simp
  moreover have "aio_known ?v (Ls ! i) q" using old q by (auto simp: worker_inv_def aio_known_def)
  then have "aio_known w (Ls ! i) q" by (rule ok_grows(4) [OF g])
  ultimately have own: "worker_inv ex w pc' (ks ! i) q (Ls ! i)"
    using ok_grows(3) [OF g pc] by (simp add: worker_inv_def)
  have "workers_inv n ex w ((hpcs s)[i := pc']) (ks[i := ks ! i]) ((haios (hyb s))[i := q]) (Ls[i := Ls ! i])"
  proof (rule workers_inv_update [OF ws i own])
    fix j assume j: "j < n" "j \<noteq> i"
    show "set (Ls ! j) \<inter> set (Ls ! i) = {}" using workers_invD(2) [OF ws i j] by blast
    show "apart (wk_epoll_fd (ks ! j)) (Ls ! j) ?v w" using w by (simp add: apart_def)
  qed simp
  then show ?thesis
    by (intro hybrid_inv_next [OF inv, of _ _ ks]) (use ks p g in simp_all)
qed

end
