(* ===== verification/HybridReach.thy ===== *)
theory HybridReach
  imports HybridSystem
begin

text \<open>
  Every step of the hybrid proactor is safe: it keeps the invariant, or it is a use after free or a
  store out of bounds. So is every reachable state.
\<close>

section \<open>Workers\<close>

lemma worker_safe:
  assumes inv: "hybrid_inv n ex s Ls" and i: "i < n"
  shows "safe_result n ex (long_completion (HWorker i) s) (hybrid_act K low32 (HWorker i) s)"
proof -
  obtain ks where ks: "mt_workers (mtp (hyb s)) = Ptr ks"
      and ws: "workers_inv n ex (hwd (hyb s)) (hpcs s) ks (haios (hyb s)) Ls"
      and p: "num_workers (mtp (hyb s)) = n" "next_worker (mtp (hyb s)) < n" "mt_exit_event_fd (mtp (hyb s)) = ex"
    by (rule hybrid_invE [OF inv])
  note l = workers_invD(3-6) [OF ws i]
  have own: "worker_inv ex (hwd (hyb s)) (hpcs s ! i) (ks ! i) (haios (hyb s) ! i) (Ls ! i)"
    by (rule workers_invD(1) [OF ws i])
  have at: "worker_at i (hyb s) = Inr (ks ! i)" using i l(2) by (simp add: worker_at_Ptr [OF ks])
  let ?v = "\<lparr>wrk = ks ! i, hmem = hwd (hyb s), haio = haios (hyb s) ! i\<rparr>"
  have hv: "hinv ?v (Ls ! i)" using own by (simp add: worker_inv_def)
  have pc0: "pc_ok ex (hwd (hyb s)) (Ls ! i) (hpcs s ! i)" using own by (simp add: worker_inv_def)
  have refl: "hstep ?v (Ls ! i) ?v (Ls ! i)" by (rule idle_hstep [OF hv]) (simp add: idle_step_def)
  text \<open>steps that change no connection, and steps that run a function on the worker\<close>
  have idle: "safe_result n ex (long_completion (HWorker i) s) (hybrid_act K low32 (HWorker i) s)"
    if st: "hworker_step K low32 i (hpcs s ! i) (hyb s) = Inr (pc', (hyb s)\<lparr>hwd := w\<rparr>)"
      and w: "heap w = heap (hwd (hyb s))" "next_addr w = next_addr (hwd (hyb s))" "interest w = interest (hwd (hyb s))"
      and pc: "pc_ok ex w (Ls ! i) pc'" for pc' w
  proof -
    have "hybrid_inv n ex (s\<lparr>hyb := (hyb s)\<lparr>hwd := w\<rparr>, hpcs := (hpcs s)[i := pc']\<rparr>) Ls"
      by (rule pc_step [OF inv i]) (use w pc in simp_all)
    then show ?thesis using st by auto
  qed
  have call: "safe_result n ex (long_completion (HWorker i) s) (hybrid_act K low32 (HWorker i) s)"
    if run: "f ?v = Inr h" and st: "hstep ?v (Ls ! i) h L'" and pc: "pc_ok ex (hmem h) L' pc'"
      and eq: "\<And>h'. on_worker i f (hyb s) = Inr h' \<Longrightarrow> hworker_step K low32 i (hpcs s ! i) (hyb s) = Inr (pc', h')" for f h L' pc'
  proof -
    obtain h' where h': "on_worker i f (hyb s) = Inr h'"
        "hybrid_inv n ex (s\<lparr>hyb := h', hpcs := (hpcs s)[i := pc']\<rparr>) (Ls[i := L'])"
      using on_worker_run [where f = f, OF inv i ks st run pc] by blast
    then show ?thesis using eq by auto
  qed
  have fails: "safe_result n ex (long_completion (HWorker i) s) (hybrid_act K low32 (HWorker i) s)"
    if run: "f ?v = Inl e" and e: "e = UseAfterFree \<or> e = OutOfBounds \<and> long_completion (HWorker i) s"
      and eq: "on_worker i f (hyb s) = Inl e \<Longrightarrow> hworker_step K low32 i (hpcs s ! i) (hyb s) = Inl e" for f e
  proof -
    have "on_worker i f (hyb s) = Inl e" using run at by (simp add: on_worker_def)
    then show ?thesis using eq e by auto
  qed
  show ?thesis
  proof (cases "hpcs s ! i")
    case HEnter
    obtain h where "on_worker i (\<lambda>h. Inr (worker_enter K (mt_exit_event_fd (mtp (hyb s))) h)) (hyb s) = Inr h"
        "hybrid_inv n ex (s\<lparr>hyb := h, hpcs := (hpcs s)[i := HTop]\<rparr>) Ls"
      using worker_enter_inv [OF inv i] by blast
    then show ?thesis using HEnter by auto
  next
    case HTop
    show ?thesis
    proof (cases "hybrid_goes_on (ks ! i) (hyb s)")
      case False
      show ?thesis by (rule idle [of HLeft "hwd (hyb s)"]) (use HTop False at in \<open>simp_all add: pc_ok_def\<close>)
    next
      case True
      obtain r w where w: "sys_epoll_wait K (wk_epoll_fd (ks ! i)) HYBRID_MAX_EVENTS (hwd (hyb s)) = (r, w)" by fastforce
      have eq: "heap w = heap (hwd (hyb s))" "next_addr w = next_addr (hwd (hyb s))" "interest w = interest (hwd (hyb s))"
        using w by (auto simp: sys_epoll_wait_def)
      show ?thesis
      proof (cases r)
        case (Inl e)
        show ?thesis
          by (rule idle [of "if e = EINTR then HTop else HLeft" w]) (use HTop True at w Inl eq in \<open>simp_all add: pc_ok_def\<close>)
      next
        case (Inr evs)
        have "interest_ok ex (hwd (hyb s)) (Ls ! i) (wk_epoll_fd (ks ! i))" using own by (simp add: worker_inv_def)
        then have "item_ok ex (hwd (hyb s)) (Ls ! i) d" if "d \<in> fst ` set evs" for d
          using items_reported [OF _ w [unfolded Inr] that] by blast
        then have "pc_ok ex (hwd (hyb s)) (Ls ! i) (HEvents evs)" unfolding pc_ok_def by simp
        moreover have "grows (hwd (hyb s)) (Ls ! i) w (Ls ! i)" using eq by (simp add: grows_def)
        ultimately have "pc_ok ex w (Ls ! i) (HEvents evs)" using ok_grows(3) by blast
        then show ?thesis by (intro idle [of "HEvents evs" w]) (use HTop True at w Inr eq in simp_all)
      qed
    qed
  next
    case (HEvents es)
    show ?thesis
    proof (cases es)
      case Nil
      show ?thesis
        by (rule idle [of "if hybrid_goes_on (ks ! i) (hyb s) then HAio else HLeft" "hwd (hyb s)"])
          (use HEvents Nil at in \<open>simp_all add: pc_ok_def\<close>)
    next
      case (Cons x es')
      obtain d ev where x: "x = (d, ev)" by (cases x)
      have d: "item_ok ex (hwd (hyb s)) (Ls ! i) d" and rest: "pc_ok ex (hwd (hyb s)) (Ls ! i) (HEvents es')"
        using pc0 HEvents Cons x by (auto simp: pc_ok_def)
      note step = HEvents [unfolded Cons x]
      show ?thesis
      proof (cases "hybrid_event K low32 ex d ev")
        case None
        let ?k = "(ks ! i)\<lparr>wk_running := False\<rparr>"
        have "workers_inv n ex (hwd (hyb s)) ((hpcs s)[i := HEvents []]) (ks[i := ?k]) ((haios (hyb s))[i := haios (hyb s) ! i]) (Ls[i := Ls ! i])"
        proof (rule workers_inv_update [OF ws i])
          show "worker_inv ex (hwd (hyb s)) (HEvents []) ?k (haios (hyb s) ! i) (Ls ! i)"
            using own by (simp add: worker_inv_def hinv_def pc_ok_def)
          fix j assume j: "j < n" "j \<noteq> i"
          show "set (Ls ! j) \<inter> set (Ls ! i) = {}" using workers_invD(2) [OF ws i j] by blast
          show "apart (wk_epoll_fd (ks ! j)) (Ls ! j) (hwd (hyb s)) (hwd (hyb s))" by (simp add: apart_def)
        qed simp
        then have "hybrid_inv n ex (s\<lparr>hyb := set_worker i ?k (hyb s), hpcs := (hpcs s)[i := HEvents []]\<rparr>) Ls"
          by (intro hybrid_inv_next [OF inv, of _ _ "ks[i := ?k]"]) (use ks p in \<open>simp_all add: heap_grows_refl\<close>)
        then show ?thesis using step None at p by auto
      next
        case (Some f)
        then obtain a where a: "d = DataPtr a" "f = mt_handle_connection_event K a ev"
          using d by (auto simp: hybrid_event_def item_ok_def split: epoll_data.splits if_splits)
        have eq: "on_worker i f (hyb s) = Inr h' \<Longrightarrow> hworker_step K low32 i (hpcs s ! i) (hyb s) = Inr (HEvents es', h')" for h'
          using step Some p by simp
        have eqf: "on_worker i f (hyb s) = Inl e \<Longrightarrow> hworker_step K low32 i (hpcs s ! i) (hyb s) = Inl e" for e
          using step Some p by simp
        have stays: "pc_ok ex (hmem h) L' (HEvents es')" if "hstep ?v (Ls ! i) h L'" for h L'
          using ok_grows(3) [OF hstep_grows [OF that]] rest by simp
        have kn: "known (hwd (hyb s)) (Ls ! i) a" using d a(1) by (simp add: item_ok_def)
        show ?thesis
        proof (cases "a \<in> set (Ls ! i)")
          case True
          obtain c where c: "heap (hmem ?v) a = Some c" using hinv_live [OF hv True] by blast
          show ?thesis
          proof (cases "event_hazard K c ev (hmem ?v)")
            case hz: True
            show ?thesis by (rule fails [where f = f, OF _ _ eqf]) (use event_fault [OF hv True c hz] a(2) in auto)
          next
            case False
            obtain h L' where h: "mt_handle_connection_event K a ev ?v = Inr h" "hstep ?v (Ls ! i) h L'"
              by (rule event_ok [OF hv True c False])
            show ?thesis by (rule call [where f = f, OF _ h(2) stays [OF h(2)] eq]) (use h(1) a(2) in simp_all)
          qed
        next
          case False
          then have "heap (hmem ?v) a = None" using kn by (simp add: known_def)
          from event_dead [OF this, of K ev] show ?thesis
          proof
            assume "mt_handle_connection_event K a ev ?v = Inl UseAfterFree"
            then show ?thesis by (intro fails [where f = f, OF _ _ eqf]) (use a(2) in auto)
          next
            assume "mt_handle_connection_event K a ev ?v = Inr ?v"
            then show ?thesis by (intro call [where f = f, OF _ refl stays [OF refl] eq]) (use a(2) in simp_all)
          qed
        qed
      qed
    qed
  next
    case HAio
    obtain r q w where w: "io_getevents K HYBRID_MAX_EVENTS (haios (hyb s) ! i) (hwd (hyb s)) = (r, q, w)"
      by (metis prod_cases3)
    show ?thesis
    proof (cases r)
      case (Inl e)
      have "heap w = heap (hwd (hyb s))" "next_addr w = next_addr (hwd (hyb s))" "interest w = interest (hwd (hyb s))"
        using w by (auto simp: io_getevents_def split: sum.splits)
      then show ?thesis
        by (intro idle [of "if e = EINVAL then HLeft else HTop" w]) (use HAio w Inl in \<open>simp_all add: pc_ok_def\<close>)
    next
      case (Inr evs)
      have "set evs \<subseteq> set (finished (haios (hyb s) ! i))"
        using w Inr by (auto simp: io_getevents_def split: sum.splits dest: in_set_takeD)
      then have "pc_ok ex (hwd (hyb s)) (Ls ! i) (HCompletions evs)"
        using own by (auto simp: worker_inv_def aio_known_def pc_ok_def)
      then show ?thesis using aio_reap_inv [OF inv i w] HAio w Inr by auto
    qed
  next
    case (HCompletions es)
    show ?thesis
    proof (cases es)
      case Nil
      show ?thesis by (rule idle [of HReport "hwd (hyb s)"]) (use HCompletions Nil in \<open>simp_all add: pc_ok_def\<close>)
    next
      case (Cons e es')
      show ?thesis
      proof (cases "hybrid_goes_on (ks ! i) (hyb s)")
        case False
        show ?thesis
          by (rule idle [of HReport "hwd (hyb s)"]) (use HCompletions Cons False at in \<open>simp_all add: pc_ok_def\<close>)
      next
        case True
        let ?f = "mt_handle_aio_completion K e"
        have eq: "on_worker i ?f (hyb s) = Inr h' \<Longrightarrow> hworker_step K low32 i (hpcs s ! i) (hyb s) = Inr (HCompletions es', h')" for h'
          using HCompletions Cons True at by simp
        have eqf: "on_worker i ?f (hyb s) = Inl x \<Longrightarrow> hworker_step K low32 i (hpcs s ! i) (hyb s) = Inl x" for x
          using HCompletions Cons True at by simp
        have e: "data_ok (hwd (hyb s)) (Ls ! i) (ev_data e)" and rest: "pc_ok ex (hwd (hyb s)) (Ls ! i) (HCompletions es')"
          using pc0 HCompletions Cons by (auto simp: pc_ok_def)
        have stays: "pc_ok ex (hmem h) L' (HCompletions es')" if "hstep ?v (Ls ! i) h L'" for h L'
          using ok_grows(3) [OF hstep_grows [OF that]] rest by simp
        show ?thesis
        proof (cases "ev_data e")
          case NULL
          then have "?f ?v = Inr ?v" by (simp add: mt_handle_aio_completion_def)
          then show ?thesis by (rule call [where f = ?f, OF _ refl stays [OF refl] eq])
        next
          case (Ptr a)
          then have kn: "known (hwd (hyb s)) (Ls ! i) a" using e by (simp add: data_ok_def)
          show ?thesis
          proof (cases "a \<in> set (Ls ! i)")
            case False
            then have "heap (hmem ?v) a = None" using kn by (simp add: known_def)
            then have "?f ?v = Inl UseAfterFree" using Ptr by (rule completion_none)
            then show ?thesis by (rule fails [where f = ?f, OF _ _ eqf]) simp
          next
            case aL: True
            show ?thesis
            proof (rule completion_outcome [OF hv aL Ptr, of K])
              assume bad: "?f ?v = Inl OutOfBounds" "4096 \<le> unat (ev_res e)" "ev_res2 e = 0"
              then have "long_completion (HWorker i) s" using HCompletions Cons by (simp add: long_completion_def)
              then show ?thesis by (intro fails [where f = ?f, OF bad(1) _ eqf]) simp_all
            next
              assume "?f ?v = Inl UseAfterFree"
              then show ?thesis by (rule fails [where f = ?f, OF _ _ eqf]) simp
            next
              fix h assume h: "?f ?v = Inr h" "hstep ?v (Ls ! i) h (Ls ! i)"
              show ?thesis by (rule call [where f = ?f, OF h(1, 2) stays [OF h(2)] eq])
            qed
          qed
        qed
      qed
    qed
  next
    case HReport
    show ?thesis
    proof (cases "hybrid_goes_on (ks ! i) (hyb s)")
      case True
      show ?thesis
        by (rule idle [of HTop "snd (sys_clock K (hwd (hyb s)))"])
          (use HReport True at in \<open>simp_all add: pc_ok_def sys_clock_def\<close>)
    next
      case False
      show ?thesis by (rule idle [of HLeft "hwd (hyb s)"]) (use HReport False at in \<open>simp_all add: pc_ok_def\<close>)
    qed
  next
    case HLeft
    show ?thesis by (rule idle [of HLeft "hwd (hyb s)"]) (use HLeft in \<open>simp_all add: pc_ok_def\<close>)
  qed
qed

section \<open>The accepting thread\<close>

lemma set_nonblocking_world:
  "set_nonblocking K f w = (r, w') \<Longrightarrow> heap w' = heap w \<and> next_addr w' = next_addr w \<and> interest w' = interest w"
  by (auto simp: set_nonblocking_def sys_getfl_def sys_setfl_def sys_ok_def split: sum.splits option.splits)

lemma hybrid_inv_accept:
  assumes inv: "hybrid_inv n ex s Ls" and ws: "workers_inv n ex (hwd h) (hpcs s) ks (haios h) Ls'"
    and p: "mt_workers (mtp h) = Ptr ks" "num_workers (mtp h) = n" "next_worker (mtp h) < n" "mt_exit_event_fd (mtp h) = ex"
    and pc: "case pc of AWelcome i a \<Rightarrow> i < n \<and> known (hwd h) (Ls' ! i) a | _ \<Rightarrow> True"
  shows "hybrid_inv n ex (s\<lparr>hyb := h, apc := pc\<rparr>) Ls'"
proof -
  have "0 < n" using inv by (simp add: hybrid_inv_def)
  then show ?thesis using ws p pc unfolding hybrid_inv_def by (cases pc) simp_all
qed

text \<open>A new connection for a worker.\<close>

lemma create_workers_inv:
  assumes ws: "workers_inv n ex w pcs ks qs Ls" and n: "0 < n" and c: "conn_ok c"
    and w': "heap w' = (heap w)(next_addr w \<mapsto> c)" "next_addr w' = next_addr w + 1" "interest w' = interest w"
  shows "workers_inv n ex w' pcs ks qs Ls"
proof (rule workers_inv_apart [OF ws])
  show "apart (wk_epoll_fd (ks ! i)) (Ls ! i) w w'" if i: "i < n" for i
  proof -
    have h: "hinv \<lparr>wrk = ks ! i, hmem = w, haio = qs ! i\<rparr> (Ls ! i)"
      using workers_invD(1) [OF ws i] by (simp add: worker_inv_def)
    have "b < next_addr w" if "b \<in> set (Ls ! i)" for b using hinv_live [OF h that] hinvD(3) [OF h] by auto
    then show ?thesis using w' by (auto simp: apart_def)
  qed
  show "a < next_addr w' \<and> conn_ok d" if "heap w' a = Some d" for a d
    using that c w' workers_inv_conns [OF ws n, of a d] by (auto split: if_splits)
qed

lemma fresh_not_listed:
  assumes "workers_inv n ex w pcs ks qs Ls" and "j < n"
  shows "next_addr w \<notin> set (Ls ! j)"
proof
  assume a: "next_addr w \<in> set (Ls ! j)"
  have h: "hinv \<lparr>wrk = ks ! j, hmem = w, haio = qs ! j\<rparr> (Ls ! j)"
    using workers_invD(1) [OF assms] by (simp add: worker_inv_def)
  show False using hinv_live [OF h a] hinvD(3) [OF h] by auto
qed

text \<open>Adding a live connection that is in no list: the worker has it or it is gone.\<close>

lemma add_workers_inv:
  assumes ws: "workers_inv n ex w pcs ks qs Ls" and i: "i < n" and a: "heap w a = Some c"
    and fresh: "\<And>j. j < n \<Longrightarrow> a \<notin> set (Ls ! j)"
  shows "\<exists>h L'. mt_add_connection_to_worker K a \<lparr>wrk = ks ! i, hmem = w, haio = qs ! i\<rparr> = Inr h
    \<and> workers_inv n ex (hmem h) pcs (ks[i := wrk h]) (qs[i := haio h]) (Ls[i := L']) \<and> known (hmem h) L' a"
proof -
  let ?s = "\<lparr>wrk = ks ! i, hmem = w, haio = qs ! i\<rparr>" and ?ep = "wk_epoll_fd (ks ! i)"
  have own: "worker_inv ex w (pcs ! i) (ks ! i) (qs ! i) (Ls ! i)" by (rule workers_invD(1) [OF ws i])
  have hs: "hinv ?s (Ls ! i)" using own by (simp add: worker_inv_def)
  have low: "a < next_addr w" using hinvD(3) [OF hs] a by simp
  have pcs: "pcs[i := pcs ! i] = pcs" by simp
  have sa: "heap (hmem ?s) a = Some c" using a by simp
  show ?thesis
  proof (rule add_connection_cases [OF hs fresh [OF i] sa, of K])
    fix h d
    assume h: "mt_add_connection_to_worker K a ?s = Inr h" "hinv h (a # Ls ! i)" "heap (hmem h) = (heap (hmem ?s))(a \<mapsto> d)"
      "next_addr (hmem h) = next_addr (hmem ?s)" "wrk h = (wrk ?s)\<lparr>wk_connections := Ptr a\<rparr>" "haio h = haio ?s"
      and int: "interest (hmem h) = (interest (hmem ?s))(wk_epoll_fd (wrk ?s) := (interest (hmem ?s) (wk_epoll_fd (wrk ?s)))
             (mt_fd c \<mapsto> (DataPtr a, EPOLLIN OR EPOLLOUT OR EPOLLET OR EPOLLRDHUP)))"
    have g: "grows w (Ls ! i) (hmem h) (a # Ls ! i)" using h(3, 4) a by (auto simp: grows_def)
    have own': "worker_inv ex (hmem h) (pcs ! i) (wrk h) (haio h) (a # Ls ! i)"
    proof -
      have "interest_ok ex (hmem h) (a # Ls ! i) (wk_epoll_fd (wrk h))"
        unfolding interest_ok_def
      proof (intro allI impI)
        fix f e m assume e: "interest (hmem h) (wk_epoll_fd (wrk h)) f = Some (e, m)"
        show "item_ok ex (hmem h) (a # Ls ! i) e"
        proof (cases "f = mt_fd c")
          case True
          then have "e = DataPtr a" using e h(5) int by simp
          then show ?thesis using low h(4) by (simp add: item_ok_def known_def)
        next
          case False
          then have "interest w ?ep f = Some (e, m)" using e h(5) int by simp
          then have "item_ok ex w (Ls ! i) e" using own unfolding worker_inv_def interest_ok_def by blast
          then show ?thesis by (rule ok_grows(1) [OF g])
        qed
      qed
      moreover have "hinv \<lparr>wrk = wrk h, hmem = hmem h, haio = haio h\<rparr> (a # Ls ! i)" using h(2) by (simp add: hinv_def)
      ultimately show ?thesis using own ok_grows(3, 4) [OF g] h(6) by (simp add: worker_inv_def)
    qed
    have "workers_inv n ex (hmem h) (pcs[i := pcs ! i]) (ks[i := wrk h]) (qs[i := haio h]) (Ls[i := a # Ls ! i])"
    proof (rule workers_inv_update [OF ws i own'])
      show "wk_epoll_fd (wrk h) = ?ep" using h(5) by simp
      fix j assume j: "j < n" "j \<noteq> i"
      note d = workers_invD(2) [OF ws i j]
      show "set (Ls ! j) \<inter> set (a # Ls ! i) = {}" using d fresh [OF j(1)] by auto
      show "apart (wk_epoll_fd (ks ! j)) (Ls ! j) w (hmem h)"
        using h(3, 4) int d fresh [OF j(1)] a by (auto simp: apart_def)
    qed
    moreover have "known (hmem h) (a # Ls ! i) a" using low h(4) by (simp add: known_def)
    ultimately show ?thesis using h(1) pcs by auto
  next
    fix h
    assume h: "mt_add_connection_to_worker K a ?s = Inr h" "hinv h (Ls ! i)" "heap (hmem h) = (heap (hmem ?s))(a := None)"
      "next_addr (hmem h) = next_addr (hmem ?s)" "wrk h = wrk ?s" "haio h = haio ?s"
      and int: "\<forall>ep f i. interest (hmem h) ep f = Some i \<longrightarrow> interest (hmem ?s) ep f = Some i"
    have ap: "apart ep (Ls ! j) w (hmem h)" if "j < n" for ep j
      using h(3, 4) int fresh [OF that] unfolding apart_def by auto
    have conns: "b < next_addr (hmem h) \<and> conn_ok e" if "heap (hmem h) b = Some e" for b e
      using hinvD(3, 4) [OF h(2)] that by blast
    have "workers_inv n ex (hmem h) pcs ks qs Ls" by (rule workers_inv_apart [OF ws ap conns])
    moreover have "known (hmem h) (Ls ! i) a" using low h(3, 4) by (simp add: known_def)
    moreover have "ks[i := wrk h] = ks" "qs[i := haio h] = qs" "Ls[i := Ls ! i] = Ls" using h(5, 6) by simp_all
    ultimately show ?thesis using h(1) by metis
  qed
qed

lemma accept_safe:
  assumes inv: "hybrid_inv n ex s Ls"
  shows "safe_result n ex (long_completion HAccept s) (hybrid_act K low32 HAccept s)"
proof -
  obtain ks where ks: "mt_workers (mtp (hyb s)) = Ptr ks"
      and ws: "workers_inv n ex (hwd (hyb s)) (hpcs s) ks (haios (hyb s)) Ls"
      and p: "num_workers (mtp (hyb s)) = n" "next_worker (mtp (hyb s)) < n" "mt_exit_event_fd (mtp (hyb s)) = ex"
    by (rule hybrid_invE [OF inv])
  have n: "0 < n" using inv by (simp add: hybrid_inv_def)
  let ?w = "hwd (hyb s)"
  text \<open>steps that only change the world, or the world and the choice of the worker\<close>
  have idle: "safe_result n ex (long_completion HAccept s) (hybrid_act K low32 HAccept s)"
    if st: "accept_step K (apc s) (hyb s) = Inr (pc', h)" and pc: "pc' = ATop \<or> pc' = ALeft"
      and w: "heap (hwd h) = heap ?w" "next_addr (hwd h) = next_addr ?w"
        "\<And>ep f i. interest (hwd h) ep f = Some i \<Longrightarrow> interest ?w ep f = Some i"
      and q: "haios h = haios (hyb s)" and m: "mt_workers (mtp h) = Ptr ks" "num_workers (mtp h) = n"
        "next_worker (mtp h) < n" "mt_exit_event_fd (mtp h) = ex" for pc' h
  proof -
    have "workers_inv n ex (hwd h) (hpcs s) ks (haios h) Ls" unfolding q by (rule workers_inv_world [OF ws n w])
    then have "hybrid_inv n ex (s\<lparr>hyb := h, apc := pc'\<rparr>) Ls"
      by (rule hybrid_inv_accept [OF inv]) (use m pc in auto)
    then show ?thesis using st by auto
  qed
  show ?thesis
  proof (cases "apc s")
    case ALeft
    show ?thesis by (rule idle [of ALeft "hyb s"]) (use ALeft ks p in simp_all)
  next
    case (AWelcome i a)
    then have i: "i < n" and kn: "known ?w (Ls ! i) a" using inv by (auto simp: hybrid_inv_def)
    let ?h = "(hyb s)\<lparr>mtp := (mtp (hyb s))\<lparr>mt_total_connections := mt_total_connections (mtp (hyb s)) + 1\<rparr>\<rparr>"
    let ?s = "s\<lparr>hyb := ?h\<rparr>"
    have inv1: "hybrid_inv n ex ?s Ls" using inv AWelcome unfolding hybrid_inv_def by simp
    have ks1: "mt_workers (mtp (hyb ?s)) = Ptr ks" using ks by simp
    have own: "worker_inv ex ?w (hpcs s ! i) (ks ! i) (haios (hyb s) ! i) (Ls ! i)" by (rule workers_invD(1) [OF ws i])
    let ?v = "\<lparr>wrk = ks ! i, hmem = hwd (hyb ?s), haio = haios (hyb ?s) ! i\<rparr>"
    have hv: "hinv ?v (Ls ! i)" using own by (simp add: worker_inv_def)
    have l: "length ks = n" by (rule workers_invD(4) [OF ws i])
    show ?thesis
    proof (cases "a \<in> set (Ls ! i)")
      case False
      then have "heap (hmem ?v) a = None" using kn by (simp add: known_def)
      then have "mt_send_welcome_message K a ?v = Inl UseAfterFree" by (rule welcome_gone)
      then have "on_worker i (mt_send_welcome_message K a) ?h = Inl UseAfterFree"
        using ks l i by (simp add: on_worker_def worker_at_def)
      then show ?thesis using AWelcome by simp
    next
      case True
      obtain h L' where h: "mt_send_welcome_message K a ?v = Inr h" "hstep ?v (Ls ! i) h L'"
        by (rule welcome_live [OF hv True])
      have "pc_ok ex (hmem h) L' (hpcs s ! i)"
        using ok_grows(3) [OF hstep_grows [OF h(2)]] own by (simp add: worker_inv_def)
      then obtain h' where h': "on_worker i (mt_send_welcome_message K a) (hyb ?s) = Inr h'"
          "hybrid_inv n ex (?s\<lparr>hyb := h', hpcs := (hpcs ?s)[i := hpcs s ! i]\<rparr>) (Ls[i := L'])"
        using on_worker_run [where f = "mt_send_welcome_message K a", OF inv1 i ks1 h(2) h(1)] by blast
      then have "hybrid_inv n ex (s\<lparr>hyb := h', apc := ATop\<rparr>) (Ls[i := L'])"
        unfolding hybrid_inv_def by simp
      then show ?thesis using AWelcome h'(1) by auto
    qed
  next
    case ATop
    note step = ATop
    show ?thesis
    proof (cases "mt_running (mtp (hyb s)) \<and> \<not> graceful_shutdown (hyb s)")
      case False
      show ?thesis by (rule idle [of ALeft "hyb s"]) (use step False ks p in auto)
    next
      case go: True
      obtain r w where w: "sys_newfd K (SysAccept (mt_listen_fd (mtp (hyb s)))) ?w = (r, w)" by fastforce
      have wf: "heap w = heap ?w" "next_addr w = next_addr ?w" "interest w = interest ?w"
        using w by (auto simp: sys_newfd_def)
      show ?thesis
      proof (cases r)
        case (Inl e)
        show ?thesis
        proof (cases "e = EAGAIN")
          case True
          show ?thesis by (rule idle [of ATop "(hyb s)\<lparr>hwd := emit SysSleep w\<rparr>"]) (use step go w Inl True wf ks p in simp_all)
        next
          case False
          show ?thesis by (rule idle [of ALeft "(hyb s)\<lparr>hwd := w\<rparr>"]) (use step go w Inl False wf ks p in simp_all)
        qed
      next
        case (Inr f)
        have f: "0 \<le> f" using w Inr by (auto simp: sys_newfd_def split: sum.splits)
        obtain r1 w1 where w1: "set_nonblocking K f w = (r1, w1)" by fastforce
        have wf1: "heap w1 = heap ?w" "next_addr w1 = next_addr ?w" "interest w1 = interest ?w"
          using set_nonblocking_world [OF w1] wf by simp_all
        show ?thesis
        proof (cases "r1 < 0")
          case True
          show ?thesis
            by (rule idle [of ATop "(hyb s)\<lparr>hwd := sys_close f w1\<rparr>"])
              (use step go w Inr w1 True wf1 ks p in \<open>simp_all split: if_splits\<close>)
        next
          case False
          define i where "i = next_worker (mtp (hyb s))"
          have i: "i < n" using p i_def by simp
          let ?m = "(mtp (hyb s))\<lparr>next_worker := (next_worker (mtp (hyb s)) + 1) mod num_workers (mtp (hyb s))\<rparr>"
          have m: "next_worker ?m < n" using p n by simp
          let ?s1 = "(hyb s)\<lparr>hwd := w1, mtp := ?m\<rparr>"
          have pick: "pick_worker ((hyb s)\<lparr>hwd := w1\<rparr>) = (i, ?s1)" by (simp add: pick_worker_def i_def)
          have ws1: "workers_inv n ex w1 (hpcs s) ks (haios (hyb s)) Ls" by (rule workers_inv_world [OF ws n]) (use wf1 in simp_all)
          show ?thesis
          proof (rule create_connection_cases [of K f i w1])
            fix w2 assume w2: "mt_create_connection K f i w1 = Inr (NULL, w2)" "heap w2 = heap w1"
              "next_addr w2 = next_addr w1" "interest w2 = interest w1"
            show ?thesis
              by (rule idle [of ATop "?s1\<lparr>hwd := sys_close f w2\<rparr>"])
                (use step go w Inr w1 False pick w2 wf1 ks p m in \<open>simp_all split: if_splits\<close>)
          next
            fix t w2
            assume w2: "mt_create_connection K f i w1 = Inr (Ptr (next_addr w1), w2)"
              "heap w2 = (heap w1)(next_addr w1 \<mapsto> new_connection f i t)" "next_addr w2 = next_addr w1 + 1"
              "interest w2 = interest w1"
            let ?a = "next_addr w1"
            have ws2: "workers_inv n ex w2 (hpcs s) ks (haios (hyb s)) Ls"
              by (rule create_workers_inv [OF ws1 n added_connection_ok [OF f] w2(2-4)])
            have live: "heap w2 ?a = Some (new_connection f i t)" using w2(2) by simp
            obtain h L' where h: "mt_add_connection_to_worker K ?a \<lparr>wrk = ks ! i, hmem = w2, haio = haios (hyb s) ! i\<rparr> = Inr h"
                "workers_inv n ex (hmem h) (hpcs s) (ks[i := wrk h]) ((haios (hyb s))[i := haio h]) (Ls[i := L'])"
                "known (hmem h) L' ?a"
              using add_workers_inv [OF ws2 i live fresh_not_listed [OF ws1], of K] by blast
            have l: "length ks = n" "length Ls = n" using workers_invD(4, 6) [OF ws i] by auto
            let ?h = "(set_worker i (wrk h) (?s1\<lparr>hwd := w2\<rparr>))\<lparr>hwd := hmem h, haios := (haios (hyb s))[i := haio h]\<rparr>"
            have "on_worker i (mt_add_connection_to_worker K ?a) (?s1\<lparr>hwd := w2\<rparr>) = Inr ?h"
              using h(1) ks l i by (simp add: on_worker_def worker_at_def)
            then have run: "accept_step K (apc s) (hyb s) = Inr (AWelcome i ?a, ?h)"
              using step go w Inr w1 False pick w2(1) by simp
            have "hybrid_inv n ex (s\<lparr>hyb := ?h, apc := AWelcome i ?a\<rparr>) (Ls[i := L'])"
              by (rule hybrid_inv_accept [OF inv, of _ "ks[i := wrk h]"]) (use h ks p m l i in \<open>simp_all add: set_worker_def\<close>)
            then show ?thesis using run by auto
          qed
        qed
      qed
    qed
  qed
qed

section \<open>The kernel and the signal handler\<close>

lemma hybrid_inv_kernel:
  assumes inv: "hybrid_inv n ex s Ls" and i: "i < n" and ks: "mt_workers (mtp (hyb s)) = Ptr ks"
    and own: "worker_inv ex w (hpcs s ! i) (ks ! i) q (Ls ! i)"
    and ap: "\<And>j. j < n \<Longrightarrow> j \<noteq> i \<Longrightarrow> apart (wk_epoll_fd (ks ! j)) (Ls ! j) (hwd (hyb s)) w"
    and g: "\<And>L. grows (hwd (hyb s)) L w L"
  shows "hybrid_inv n ex (s\<lparr>hyb := (hyb s)\<lparr>haios := (haios (hyb s))[i := q], hwd := w\<rparr>\<rparr>) Ls"
proof -
  obtain ks' where ks': "mt_workers (mtp (hyb s)) = Ptr ks'"
      and ws': "workers_inv n ex (hwd (hyb s)) (hpcs s) ks' (haios (hyb s)) Ls"
      and p: "num_workers (mtp (hyb s)) = n" "next_worker (mtp (hyb s)) < n" "mt_exit_event_fd (mtp (hyb s)) = ex"
    by (rule hybrid_invE [OF inv])
  have ws: "workers_inv n ex (hwd (hyb s)) (hpcs s) ks (haios (hyb s)) Ls" using ws' ks ks' by simp
  have "workers_inv n ex w ((hpcs s)[i := hpcs s ! i]) (ks[i := ks ! i]) ((haios (hyb s))[i := q]) (Ls[i := Ls ! i])"
  proof (rule workers_inv_update [OF ws i own _ ap])
    show "set (Ls ! j) \<inter> set (Ls ! i) = {}" if "j < n" "j \<noteq> i" for j using workers_invD(2) [OF ws i that] by blast
  qed simp_all
  then have "hybrid_inv n ex (s\<lparr>hyb := (hyb s)\<lparr>haios := (haios (hyb s))[i := q], hwd := w\<rparr>, hpcs := hpcs s\<rparr>) Ls"
    by (intro hybrid_inv_next [OF inv, of _ _ ks]) (use ks p g in simp_all)
  then show ?thesis by simp
qed

lemma kernel_safe:
  assumes inv: "hybrid_inv n ex s Ls" and en: "hybrid_enabled (HKernel i j out r2) s"
  shows "safe_result n ex (long_completion (HKernel i j out r2) s) (hybrid_act K low32 (HKernel i j out r2) s)"
proof -
  obtain ks where ks: "mt_workers (mtp (hyb s)) = Ptr ks"
      and ws: "workers_inv n ex (hwd (hyb s)) (hpcs s) ks (haios (hyb s)) Ls"
    by (rule hybrid_invE [OF inv])
  let ?w = "hwd (hyb s)" and ?q = "haios (hyb s) ! i"
  have n: "0 < n" using inv by (simp add: hybrid_inv_def)
  have "length (haios (hyb s)) = n" using workers_invD(5) [OF ws n] .
  then have i: "i < n" and j: "j < length (in_flight ?q)" and fits: "outcome_fits (io_opcode (in_flight ?q ! j)) out"
    using en by simp_all
  let ?b = "in_flight ?q ! j"
  have own: "worker_inv ex ?w (hpcs s ! i) (ks ! i) ?q (Ls ! i)" by (rule workers_invD(1) [OF ws i])
  let ?v = "\<lparr>wrk = ks ! i, hmem = ?w, haio = ?q\<rparr>"
  have hv: "hinv ?v (Ls ! i)" using own by (simp add: worker_inv_def)
  have bok: "iocb_ok ?b" using hinvD(6) [OF hv] nth_mem [OF j] by (simp add: aio_ok_def)
  obtain a where a: "io_data ?b = Ptr a" using bok by (auto simp: iocb_ok_def)
  have "data_ok ?w (Ls ! i) (io_data ?b)" using own nth_mem [OF j] by (simp add: worker_inv_def aio_known_def)
  then have kn: "known ?w (Ls ! i) a" using a by (simp add: data_ok_def)
  text \<open>the queue of the context afterwards\<close>
  have after: "worker_inv ex w (hpcs s ! i) (ks ! i) q (Ls ! i)"
    if q: "q = \<lparr>in_flight = take j (in_flight ?q) @ drop (Suc j) (in_flight ?q),
              finished = finished ?q @ [\<lparr>ev_data = io_data ?b, ev_res = r, ev_res2 = r2\<rparr>]\<rparr>"
      and h: "hinv \<lparr>wrk = ks ! i, hmem = w, haio = ?q\<rparr> (Ls ! i)"
      and g: "\<And>L. grows ?w L w L" and int: "interest w = interest ?w" for q r w
  proof -
    have fl: "set (in_flight q) \<subseteq> set (in_flight ?q)" using q by (auto dest: in_set_takeD in_set_dropD)
    have "hinv \<lparr>wrk = ks ! i, hmem = w, haio = q\<rparr> (Ls ! i)" using h fl by (auto simp: hinv_def aio_ok_def)
    moreover have "aio_known ?w (Ls ! i) q"
      using own fl kn a q by (auto simp: worker_inv_def aio_known_def data_ok_def)
    then have "aio_known w (Ls ! i) q" by (rule ok_grows(4) [OF g])
    moreover have "interest_ok ex w (Ls ! i) (wk_epoll_fd (ks ! i))"
      using own ok_grows(1) [OF g] unfolding worker_inv_def interest_ok_def int by blast
    ultimately show ?thesis using own ok_grows(3) [OF g] by (simp add: worker_inv_def)
  qed
  have done_: "safe_result n ex (long_completion (HKernel i j out r2) s) (hybrid_act K low32 (HKernel i j out r2) s)"
    if t: "io_transfer conn_buffer set_conn_buffer ?b out ?w = Inr (r, w)"
      and h: "hinv \<lparr>wrk = ks ! i, hmem = w, haio = ?q\<rparr> (Ls ! i)" and g: "\<And>L. grows ?w L w L" and int: "interest w = interest ?w"
      and ap: "\<And>m. m < n \<Longrightarrow> m \<noteq> i \<Longrightarrow> apart (wk_epoll_fd (ks ! m)) (Ls ! m) ?w w" for r w
  proof -
    let ?q' = "\<lparr>in_flight = take j (in_flight ?q) @ drop (Suc j) (in_flight ?q),
        finished = finished ?q @ [\<lparr>ev_data = io_data ?b, ev_res = r, ev_res2 = r2\<rparr>]\<rparr>"
    have "hybrid_inv n ex (s\<lparr>hyb := (hyb s)\<lparr>haios := (haios (hyb s))[i := ?q'], hwd := w\<rparr>\<rparr>) Ls"
      by (rule hybrid_inv_kernel [OF inv i ks after [OF refl h g int] ap g])
    then show ?thesis using t by (auto simp: io_finish_def Let_def)
  qed
  show ?thesis
  proof (cases "heap ?w a")
    case None
    from transfer_dead [OF bok a None, of out] show ?thesis
    proof
      assume "io_transfer conn_buffer set_conn_buffer ?b out ?w = Inl UseAfterFree"
      then show ?thesis by (simp add: io_finish_def Let_def)
    next
      assume "\<exists>r w'. io_transfer conn_buffer set_conn_buffer ?b out ?w = Inr (r, w') \<and> heap w' = heap ?w
        \<and> next_addr w' = next_addr ?w \<and> interest w' = interest ?w"
      then obtain r w' where t: "io_transfer conn_buffer set_conn_buffer ?b out ?w = Inr (r, w')"
          and w': "heap w' = heap ?w" "next_addr w' = next_addr ?w" "interest w' = interest ?w"
        by blast
      show ?thesis
        by (rule done_ [OF t]) (use hv w' in \<open>simp_all add: hinv_def grows_def apart_def\<close>)
    qed
  next
    case (Some c)
    then have aL: "a \<in> set (Ls ! i)" using kn by (simp add: known_def)
    have c: "conn_ok c" using hinvD(4) [OF hv] Some by simp
    obtain r w' e where t: "io_transfer conn_buffer set_conn_buffer ?b out ?w = Inr (r, w')" and H: "heap w' = (heap ?w)(a \<mapsto> e)"
        and e: "conn_ok e" "mt_next e = mt_next c" and w': "next_addr w' = next_addr ?w" "interest w' = interest ?w"
      by (rule transfer_live [where c = c and w = ?w and out = out, OF bok a Some c fits])
    have va: "heap (hmem ?v) a = Some c" using Some by simp
    let ?v' = "\<lparr>wrk = ks ! i, hmem = w', haio = ?q\<rparr>"
    have st: "hstep ?v (Ls ! i) ?v' (Ls ! i)"
      by (rule hstep_put [OF hv aL va e(2, 1)]) (use H w' hinvD(6) [OF hv] in simp_all)
    show ?thesis
    proof (rule done_ [OF t hstepD(1) [OF st] _ w'(2)])
      show "grows ?w L w' L" for L using H w' Some by (auto simp: grows_def)
      fix m assume m: "m < n" "m \<noteq> i"
      have "set (Ls ! m) \<inter> set (Ls ! i) = {}" using workers_invD(2) [OF ws i m] by blast
      then show "apart (wk_epoll_fd (ks ! m)) (Ls ! m) ?w w'" using hstep_apart [OF st] by simp
    qed
  qed
qed

lemma signal_safe:
  assumes inv: "hybrid_inv n ex s Ls"
  shows "safe_result n ex (long_completion HSignal s) (hybrid_act K low32 HSignal s)"
proof -
  obtain ks where ks: "mt_workers (mtp (hyb s)) = Ptr ks"
      and ws: "workers_inv n ex (hwd (hyb s)) (hpcs s) ks (haios (hyb s)) Ls"
      and p: "num_workers (mtp (hyb s)) = n" "next_worker (mtp (hyb s)) < n" "mt_exit_event_fd (mtp (hyb s)) = ex"
    by (rule hybrid_invE [OF inv])
  have n: "0 < n" using inv by (simp add: hybrid_inv_def)
  let ?h = "hybrid_signal (hyb s)"
  have w: "heap (hwd ?h) = heap (hwd (hyb s))" "next_addr (hwd ?h) = next_addr (hwd (hyb s))"
      "interest (hwd ?h) = interest (hwd (hyb s))" and q: "haios ?h = haios (hyb s)"
    by (simp_all add: hybrid_signal_def Let_def)
  have "workers_inv n ex (hwd ?h) (hpcs s) ks (haios ?h) Ls"
    unfolding q by (rule workers_inv_world [OF ws n]) (use w in simp_all)
  then have "hybrid_inv n ex (s\<lparr>hyb := ?h, hpcs := hpcs s\<rparr>) Ls"
    by (rule hybrid_inv_next [OF inv]) (use ks p w in \<open>simp_all add: hybrid_signal_def Let_def grows_def\<close>)
  then show ?thesis by auto
qed

section \<open>Reachable states\<close>

lemma act_safe:
  assumes inv: "hybrid_inv n ex s Ls" and en: "hybrid_enabled a s"
  shows "safe_result n ex (long_completion a s) (hybrid_act K low32 a s)"
proof (cases a)
  case (HWorker i)
  obtain ks where ws: "workers_inv n ex (hwd (hyb s)) (hpcs s) ks (haios (hyb s)) Ls" by (rule hybrid_invE [OF inv])
  have "0 < n" using inv by (simp add: hybrid_inv_def)
  then have "length (hpcs s) = n" by (rule workers_invD(3) [OF ws])
  then show ?thesis using worker_safe [OF inv] en HWorker by simp
next
  case HAccept
  then show ?thesis using accept_safe [OF inv] by simp
next
  case (HKernel i j out r2)
  then show ?thesis using kernel_safe [OF inv] en by simp
next
  case HSignal
  then show ?thesis using signal_safe [OF inv] by simp
qed

lemma reach_safe:
  assumes "hybrid_reach K low32 s0 s" and "hybrid_inv n ex s0 Ls0"
  shows "\<exists>Ls. hybrid_inv n ex s Ls"
  using assms
proof (induction rule: hybrid_reach.induct)
  case here
  then show ?case by blast
next
  case (step s a s')
  then obtain Ls where "hybrid_inv n ex s Ls" by blast
  then show ?case using act_safe [of n ex s Ls a K low32] step.hyps by simp
qed

end
