(* ===== verification/HybridLife.thy ===== *)
theory HybridLife
  imports HybridLoop
begin

text \<open>
  \<open>codes/network/proactor_epoll/hybrid_proactor.c\<close> and \<open>efficient_hybrid_server.c\<close>:
  initialising, starting and stopping the hybrid proactor, and the program.

  \<^item> \<open>J th s\<close> is the state when \<open>pthread_join\<close> of the thread \<open>th\<close> returns, \<open>None\<close> when the
    thread never ends.
  \<^item> The arguments of \<open>main\<close> are the results of \<open>atoi\<close>, when given.
\<close>

section \<open>Initialising\<close>

definition zero_worker :: worker_context where
  "zero_worker = \<lparr>wk_id = 0, wk_thread = False, wk_running = False, wk_epoll_fd = 0, wk_aio_ctx = False,
     wk_connections = NULL, total_operations = 0, eagain_errors = 0, successful_ops = 0\<rparr>"

definition zero_mt_proactor :: mt_proactor where
  "zero_mt_proactor = \<lparr>mt_listen_fd = 0, mt_running = False, mt_exit_event_fd = 0, num_workers = 0, mt_workers = NULL,
     accept_thread = False, next_worker = 0, mt_total_connections = 0, mt_total_operations = 0\<rparr>"

definition mt_proactor_init :: "kernel \<Rightarrow> int \<Rightarrow> hybrid \<Rightarrow> int \<times> hybrid" where
  "mt_proactor_init K n s =
     (if n \<le> 0 \<or> MAX_WORKER_THREADS < n then (-1, s)
      else
        let p = zero_mt_proactor\<lparr>num_workers := nat n, mt_running := True, next_worker := 0\<rparr>
        in case sys_block K (hwd s) of
            (False, w1) \<Rightarrow> (-1, s\<lparr>mtp := p, hwd := w1\<rparr>)
          | (True, w1) \<Rightarrow>
              let p1 = p\<lparr>mt_workers := Ptr (replicate (nat n) zero_worker)\<rparr>
              in (case sys_newfd K SysEventfd w1 of
                  (Inl e, w2) \<Rightarrow> (-1, s\<lparr>mtp := p1\<lparr>mt_exit_event_fd := -1\<rparr>, hwd := emit SysFreeBlock w2\<rparr>)
                | (Inr ex, w2) \<Rightarrow> (0, s\<lparr>mtp := p1\<lparr>mt_exit_event_fd := ex\<rparr>, hwd := w2,
                                         haios := replicate (nat n) empty_aio\<rparr>)))"

section \<open>Stopping\<close>

datatype hthread = AcceptThread | WorkerThread nat

definition join_if :: "(hthread \<Rightarrow> hybrid \<Rightarrow> hybrid option) \<Rightarrow> bool \<Rightarrow> hthread \<Rightarrow> hybrid \<Rightarrow> hybrid res option" where
  "join_if J b th s = (if b then (case J th (s\<lparr>hwd := emit SysJoin (hwd s)\<rparr>) of None \<Rightarrow> None | Some s' \<Rightarrow> Some (Inr s'))
                       else Some (Inr s))"

text \<open>
  The loop that reaps what is left in an AIO context: it ends with the first call that returns no
  event, the number of calls being at most one more than the number of finished operations.
\<close>

fun drain :: "kernel \<Rightarrow> nat \<Rightarrow> aio \<Rightarrow> hworld \<Rightarrow> aio \<times> hworld" where
  "drain K 0 q w = (case io_getevents K HYBRID_MAX_EVENTS q w of (r, q1, w1) \<Rightarrow> (q1, w1))"
| "drain K (Suc n) q w = (case io_getevents K HYBRID_MAX_EVENTS q w of
     (Inl e, q1, w1) \<Rightarrow> (q1, w1)
   | (Inr evs, q1, w1) \<Rightarrow> if evs = [] then (q1, w1) else drain K n q1 w1)"

text \<open>The loop that frees the connections of a worker; a node is freed before the next is visited.\<close>

fun free_list :: "nat \<Rightarrow> addr ptr \<Rightarrow> hworld \<Rightarrow> hworld res" where
  "free_list 0 p w = (case p of NULL \<Rightarrow> Inr w | Ptr a \<Rightarrow> Inl UseAfterFree)"
| "free_list (Suc n) p w = (case p of
     NULL \<Rightarrow> Inr w
   | Ptr a \<Rightarrow> rbind (load a w) (\<lambda>c.
       rbind (sys_free a (if 0 \<le> mt_fd c then sys_close (mt_fd c) w else w)) (free_list n (mt_next c))))"

text \<open>What is left in the AIO context of a worker is reaped and dropped.\<close>

definition reap_context :: "kernel \<Rightarrow> worker_context \<Rightarrow> aio \<Rightarrow> hworld \<Rightarrow> aio \<times> hworld" where
  "reap_context K k q w =
     (if wk_aio_ctx k then (case drain K (length (finished q)) q w of (q', w') \<Rightarrow> (empty_aio, emit SysIoDestroy w')) else (q, w))"

definition release_context :: "kernel \<Rightarrow> hstate \<Rightarrow> hstate res" where
  "release_context K h =
     (let k = wrk h; w1 = (if 0 \<le> wk_epoll_fd k then sys_close (wk_epoll_fd k) (hmem h) else hmem h)
      in case reap_context K k (haio h) w1 of (q2, w2) \<Rightarrow>
        rbind (free_list (next_addr w2) (wk_connections k) w2) (\<lambda>w3.
          Inr (h\<lparr>wrk := k\<lparr>wk_epoll_fd := (if 0 \<le> wk_epoll_fd k then -1 else wk_epoll_fd k), wk_aio_ctx := False,
                          wk_connections := NULL\<rparr>, hmem := w3, haio := q2\<rparr>)))"

definition release_worker :: "kernel \<Rightarrow> nat \<Rightarrow> hybrid \<Rightarrow> hybrid res" where
  "release_worker K i s = on_worker i (release_context K) s"

fun stop_workers :: "(hthread \<Rightarrow> hybrid \<Rightarrow> hybrid option) \<Rightarrow> kernel \<Rightarrow> nat list \<Rightarrow> hybrid \<Rightarrow> hybrid res option" where
  "stop_workers J K [] s = Some (Inr s)"
| "stop_workers J K (i # is) s =
     xbind (Some (worker_at i s)) (\<lambda>k.
     xbind (join_if J (wk_thread k) (WorkerThread i) (set_worker i (k\<lparr>wk_running := False\<rparr>) s)) (\<lambda>s1.
     xbind (Some (release_worker K i s1)) (stop_workers J K is)))"

text \<open>The flags and the exit event at the beginning, the main resources at the end.\<close>

definition begin_stop :: "hybrid \<Rightarrow> hybrid" where
  "begin_stop s = s\<lparr>mtp := (mtp s)\<lparr>mt_running := False\<rparr>, graceful_shutdown := True,
     hwd := (if 0 \<le> mt_exit_event_fd (mtp s) then emit (SysNotify (mt_exit_event_fd (mtp s))) (hwd s) else hwd s)\<rparr>"

definition release_main :: "hybrid \<Rightarrow> hybrid" where
  "release_main s =
     (let p = mtp s;
          w1 = (if 0 \<le> mt_exit_event_fd p then sys_close (mt_exit_event_fd p) (hwd s) else hwd s);
          w2 = (if 0 \<le> mt_listen_fd p then sys_close (mt_listen_fd p) w1 else w1);
          w3 = (if mt_workers p = NULL then w2 else emit SysFreeBlock w2)
      in s\<lparr>hwd := w3, mtp := p\<lparr>mt_exit_event_fd := (if 0 \<le> mt_exit_event_fd p then -1 else mt_exit_event_fd p),
            mt_listen_fd := (if 0 \<le> mt_listen_fd p then -1 else mt_listen_fd p), mt_workers := NULL\<rparr>\<rparr>)"

definition mt_proactor_stop :: "(hthread \<Rightarrow> hybrid \<Rightarrow> hybrid option) \<Rightarrow> kernel \<Rightarrow> hybrid \<Rightarrow> (int \<times> hybrid) res option" where
  "mt_proactor_stop J K s =
     (if \<not> mt_running (mtp s) then Some (Inr (0, s))
      else xbind (join_if J (accept_thread (mtp s)) AcceptThread (begin_stop s)) (\<lambda>s2.
           xbind (stop_workers J K [0..<num_workers (mtp s2)] s2) (\<lambda>s3. Some (Inr (0, release_main s3)))))"

section \<open>Starting\<close>

text \<open>One pass of the loop that starts the workers; \<open>False\<close> for \<open>goto cleanup\<close>.\<close>

definition start_worker :: "kernel \<Rightarrow> nat \<Rightarrow> hybrid \<Rightarrow> (bool \<times> hybrid) res" where
  "start_worker K i s = rbind (worker_at i s) (\<lambda>k0.
     let k = k0\<lparr>wk_id := i, wk_running := True\<rparr>
     in case sys_ok K SysIoSetup (hwd s) of
          (Some e, w1) \<Rightarrow> Inr (False, (set_worker i k s)\<lparr>hwd := w1\<rparr>)
        | (None, w1) \<Rightarrow> (case sys_newfd K SysEpollCreate w1 of
            (Inl e, w2) \<Rightarrow> Inr (False, (set_worker i (k\<lparr>wk_aio_ctx := True, wk_epoll_fd := -1\<rparr>) s)\<lparr>hwd := emit SysIoDestroy w2\<rparr>)
          | (Inr ep, w2) \<Rightarrow>
              let k1 = k\<lparr>wk_aio_ctx := True, wk_epoll_fd := ep\<rparr>
              in (case sys_ok K SysThread w2 of
                  (Some e, w3) \<Rightarrow> Inr (False, (set_worker i k1 s)\<lparr>hwd := emit SysIoDestroy (sys_close ep w3)\<rparr>)
                | (None, w3) \<Rightarrow> Inr (True, (set_worker i (k1\<lparr>wk_thread := True\<rparr>) s)\<lparr>hwd := w3\<rparr>))))"

fun hybrid_start_workers :: "kernel \<Rightarrow> nat list \<Rightarrow> hybrid \<Rightarrow> (bool \<times> hybrid) res" where
  "hybrid_start_workers K [] s = Inr (True, s)"
| "hybrid_start_workers K (i # is) s = rbind (start_worker K i s) (\<lambda>(b, s1).
     if b then hybrid_start_workers K is s1 else Inr (False, s1))"

definition mt_proactor_start :: "(hthread \<Rightarrow> hybrid \<Rightarrow> hybrid option) \<Rightarrow> kernel \<Rightarrow> hybrid \<Rightarrow> (int \<times> hybrid) res option" where
  "mt_proactor_start J K s =
     (let cleanup = (\<lambda>s. xbind (mt_proactor_stop J K (s\<lparr>mtp := (mtp s)\<lparr>mt_running := False\<rparr>\<rparr>)) (\<lambda>(_, s'). Some (Inr (-1, s'))))
      in xbind (Some (hybrid_start_workers K [0..<num_workers (mtp s)] s)) (\<lambda>(b, s1).
         if \<not> b then cleanup s1
         else case sys_ok K SysThread (hwd s1) of
             (Some e, w) \<Rightarrow> cleanup (s1\<lparr>hwd := w\<rparr>)
           | (None, w) \<Rightarrow> Some (Inr (0, s1\<lparr>hwd := w, mtp := (mtp s1)\<lparr>accept_thread := True\<rparr>\<rparr>))))"

section \<open>The program\<close>

text \<open>\<open>create_server_socket\<close> of this program.\<close>

definition hybrid_server_socket :: "kernel \<Rightarrow> int \<Rightarrow> ('o, 'd) world \<Rightarrow> int \<times> ('o, 'd) world" where
  "hybrid_server_socket K port w = (case sys_newfd K SysSocket w of
     (Inl e, w1) \<Rightarrow> (-1, w1)
   | (Inr f, w1) \<Rightarrow> (case sys_ok K (SysSetsockopt f) w1 of
       (Some e, w2) \<Rightarrow> (-1, sys_close f w2)
     | (None, w2) \<Rightarrow> (case set_nonblocking K f w2 of (r, w3) \<Rightarrow>
         if r < 0 then (-1, sys_close f w3)
         else (case sys_ok K (SysBind f port) w3 of
             (Some e, w4) \<Rightarrow> (-1, sys_close f w4)
           | (None, w4) \<Rightarrow> (case sys_ok K (SysListen f 1024) w4 of
               (Some e, w5) \<Rightarrow> (-1, sys_close f w5)
             | (None, w5) \<Rightarrow> (f, w5))))))"

text \<open>The joins at the end of \<open>main\<close>.\<close>

fun join_workers :: "(hthread \<Rightarrow> hybrid \<Rightarrow> hybrid option) \<Rightarrow> nat list \<Rightarrow> hybrid \<Rightarrow> hybrid res option" where
  "join_workers J [] s = Some (Inr s)"
| "join_workers J (i # is) s = xbind (Some (worker_at i s)) (\<lambda>k.
     xbind (join_if J (wk_thread k) (WorkerThread i) s) (join_workers J is))"

definition hybrid_main ::
  "(hthread \<Rightarrow> hybrid \<Rightarrow> hybrid option) \<Rightarrow> kernel \<Rightarrow> int option \<Rightarrow> int option \<Rightarrow> hybrid \<Rightarrow> (int \<times> hybrid) res option" where
  "hybrid_main J K arg1 arg2 s =
     (let n = (case arg1 of None \<Rightarrow> 4 | Some n \<Rightarrow> n);
          port = (case arg2 of None \<Rightarrow> DEFAULT_PORT | Some p \<Rightarrow> p)
      in if arg1 \<noteq> None \<and> (n \<le> 0 \<or> MAX_WORKER_THREADS < n) then Some (Inr (1, s))
         else if arg1 \<noteq> None \<and> arg2 \<noteq> None \<and> (port \<le> 0 \<or> 65535 < port) then Some (Inr (1, s))
         else case mt_proactor_init K n s of (r, s1) \<Rightarrow>
           if r < 0 then Some (Inr (1, s1))
           else case hybrid_server_socket K port (hwd s1) of (l, w2) \<Rightarrow>
             let s2 = s1\<lparr>hwd := w2, mtp := (mtp s1)\<lparr>mt_listen_fd := l\<rparr>\<rparr> in
             if l < 0 then xbind (mt_proactor_stop J K s2) (\<lambda>(_, s'). Some (Inr (1, s')))
             else xbind (mt_proactor_start J K s2) (\<lambda>(r3, s3).
               if r3 < 0
               then xbind (mt_proactor_stop J K (s3\<lparr>hwd := sys_close (mt_listen_fd (mtp s3)) (hwd s3)\<rparr>)) (\<lambda>(_, s'). Some (Inr (1, s')))
               else xbind (join_if J True AcceptThread s3) (\<lambda>s4.
                 xbind (join_workers J [0..<num_workers (mtp s4)] s4) (\<lambda>s5.
                 xbind (mt_proactor_stop J K s5) (\<lambda>(_, s'). Some (Inr (0, s')))))))"

end
