(* ===== verification/HybridStart.thy ===== *)
theory HybridStart
  imports HybridReach HybridLife
begin

text \<open>
  The hybrid proactor that \<open>mt_proactor_init\<close> and \<open>mt_proactor_start\<close> set up satisfies the
  invariant, and \<open>mt_proactor_stop\<close> frees what the invariant accounts for.
\<close>

section \<open>Starting\<close>

text \<open>What the loop that starts the workers keeps, up to a failure, which closes the last epoll instance.\<close>

definition start_frame :: "hybrid \<Rightarrow> hybrid \<Rightarrow> bool" where
  "start_frame s s' \<longleftrightarrow> heap (hwd s') = heap (hwd s) \<and> next_addr (hwd s') = next_addr (hwd s)
     \<and> (\<forall>ep f i. interest (hwd s') ep f = Some i \<longrightarrow> interest (hwd s) ep f = Some i) \<and> haios s' = haios s
     \<and> num_workers (mtp s') = num_workers (mtp s) \<and> next_worker (mtp s') = next_worker (mtp s)
     \<and> mt_exit_event_fd (mtp s') = mt_exit_event_fd (mtp s) \<and> mt_running (mtp s') = mt_running (mtp s)"

definition idle_workers :: "nat \<Rightarrow> hybrid \<Rightarrow> bool" where
  "idle_workers n s \<longleftrightarrow> (\<exists>ks. mt_workers (mtp s) = Ptr ks \<and> length ks = n \<and> (\<forall>k\<in>set ks. wk_connections k = NULL))"

lemma start_frame_trans: "start_frame s s1 \<Longrightarrow> start_frame s1 s2 \<Longrightarrow> start_frame s s2"
  unfolding start_frame_def by auto

lemma idle_set_worker:
  assumes "idle_workers n s" and "i < n" and "wk_connections k = NULL"
  shows "idle_workers n (set_worker i k s)"
  using assms by (auto simp: idle_workers_def set_worker_def dest: set_update_subset_insert [THEN subsetD])

lemma idle_world [simp]: "idle_workers n (s\<lparr>hwd := w\<rparr>) = idle_workers n s"
  by (simp add: idle_workers_def)

lemma start_worker_facts:
  assumes idle: "idle_workers n s" and i: "i < n"
  obtains b s' where "start_worker K i s = Inr (b, s')" and "idle_workers n s'" and "start_frame s s'"
proof -
  obtain ks where ks: "mt_workers (mtp s) = Ptr ks" "length ks = n" "\<forall>k\<in>set ks. wk_connections k = NULL"
    using idle by (auto simp: idle_workers_def)
  let ?k = "(ks ! i)\<lparr>wk_id := i, wk_running := True\<rparr>"
  have at: "worker_at i s = Inr (ks ! i)" using worker_at_Ptr [OF ks(1)] i ks(2) by simp
  have k: "wk_connections (ks ! i) = NULL" using ks i by simp
  have iw: "idle_workers n (set_worker i k s)" if "wk_connections k = NULL" for k by (rule idle_set_worker [OF idle i that])
  have fr: "start_frame s ((set_worker i k s)\<lparr>hwd := w\<rparr>)"
    if "heap w = heap (hwd s)" "next_addr w = next_addr (hwd s)"
      "\<forall>ep f i. interest w ep f = Some i \<longrightarrow> interest (hwd s) ep f = Some i" for k w
    using that by (simp add: start_frame_def set_worker_def)
  obtain r1 w1 where w1: "sys_ok K SysIoSetup (hwd s) = (r1, w1)" by fastforce
  obtain r2 w2 where w2: "sys_newfd K SysEpollCreate w1 = (r2, w2)" by fastforce
  obtain r3 w3 where w3: "sys_ok K SysThread w2 = (r3, w3)" by fastforce
  have f: "heap w1 = heap (hwd s)" "next_addr w1 = next_addr (hwd s)" "interest w1 = interest (hwd s)"
    "heap w2 = heap (hwd s)" "next_addr w2 = next_addr (hwd s)" "interest w2 = interest (hwd s)"
    "heap w3 = heap (hwd s)" "next_addr w3 = next_addr (hwd s)" "interest w3 = interest (hwd s)"
    using w1 w2 w3 by (auto simp: sys_ok_def sys_newfd_def)
  show ?thesis
  proof (cases r1)
    case (Some e)
    then have "start_worker K i s = Inr (False, (set_worker i ?k s)\<lparr>hwd := w1\<rparr>)"
      using at w1 by (simp add: start_worker_def Let_def)
    then show ?thesis by (rule that) (use k f iw fr in simp_all)
  next
    case None
    show ?thesis
    proof (cases r2)
      case (Inl e)
      then have "start_worker K i s = Inr (False, (set_worker i (?k\<lparr>wk_aio_ctx := True, wk_epoll_fd := -1\<rparr>) s)\<lparr>hwd := emit SysIoDestroy w2\<rparr>)"
        using at w1 w2 None by (simp add: start_worker_def Let_def)
      then show ?thesis by (rule that) (use k f iw fr in simp_all)
    next
      case (Inr ep)
      show ?thesis
      proof (cases r3)
        case (Some e)
        then have "start_worker K i s = Inr (False, (set_worker i (?k\<lparr>wk_aio_ctx := True, wk_epoll_fd := ep\<rparr>) s)
            \<lparr>hwd := emit SysIoDestroy (sys_close ep w3)\<rparr>)"
          using at w1 w2 w3 None Inr by (simp add: start_worker_def Let_def)
        then show ?thesis by (rule that) (use k f iw fr in \<open>simp_all split: if_splits\<close>)
      next
        case r3: None
        then have "start_worker K i s = Inr (True, (set_worker i (?k\<lparr>wk_aio_ctx := True, wk_epoll_fd := ep, wk_thread := True\<rparr>) s)
            \<lparr>hwd := w3\<rparr>)"
          using at w1 w2 w3 None Inr by (simp add: start_worker_def Let_def)
        then show ?thesis by (rule that) (use k f iw fr in simp_all)
      qed
    qed
  qed
qed

lemma start_workers_facts:
  assumes "idle_workers n s" and "set is \<subseteq> {..<n}"
  shows "\<exists>b s'. hybrid_start_workers K is s = Inr (b, s') \<and> idle_workers n s' \<and> start_frame s s'"
  using assms
proof (induction "is" arbitrary: s)
  case Nil
  then show ?case by (auto simp: start_frame_def)
next
  case (Cons i "is")
  obtain b s1 where s1: "start_worker K i s = Inr (b, s1)" "idle_workers n s1" "start_frame s s1"
    by (rule start_worker_facts [OF Cons.prems(1)]) (use Cons.prems(2) in auto)
  show ?case
  proof (cases b)
    case False
    then show ?thesis using s1 by auto
  next
    case True
    obtain c s2 where "hybrid_start_workers K is s1 = Inr (c, s2)" "idle_workers n s2" "start_frame s1 s2"
      using Cons.IH [OF s1(2)] Cons.prems(2) by auto
    then show ?thesis using s1 True start_frame_trans by auto
  qed
qed

text \<open>A proactor without connections satisfies the invariant.\<close>

definition hybrid_started :: "hybrid \<Rightarrow> hsys" where
  "hybrid_started h = \<lparr>hyb = h, hpcs = replicate (num_workers (mtp h)) HEnter, apc = ATop\<rparr>"

lemma empty_hybrid_inv:
  assumes ks: "mt_workers (mtp h) = Ptr ks" "length ks = n" "\<forall>k\<in>set ks. wk_connections k = NULL"
    and n: "0 < n" "num_workers (mtp h) = n" "next_worker (mtp h) < n" and q: "haios h = replicate n empty_aio"
    and w: "heap (hwd h) = Map.empty" "interest (hwd h) = (\<lambda>_ _. None)" and d: "distinct (map wk_epoll_fd ks)"
  shows "hybrid_inv n (mt_exit_event_fd (mtp h)) (hybrid_started h) (replicate n [])"
proof -
  have "worker_inv ex (hwd h) HEnter (ks ! i) empty_aio []" if "i < n" for i ex
    using that ks w by (simp add: worker_inv_def hinv_def interest_ok_def pc_ok_def aio_known_def empty_aio_def aio_ok_def)
  moreover have "wk_epoll_fd (ks ! i) \<noteq> wk_epoll_fd (ks ! j)" if "i < n" "j < n" "i \<noteq> j" for i j
    using d that ks(2) by (simp add: distinct_conv_nth)
  ultimately have "workers_inv n ex (hwd h) (replicate n HEnter) ks (replicate n empty_aio) (replicate n [])" for ex
    using ks(2) by (simp add: workers_inv_def)
  then show ?thesis using ks n q by (simp add: hybrid_inv_def hybrid_started_def)
qed

lemma init_facts:
  assumes "mt_proactor_init K m s = (0, s')"
  shows "0 < m" and "idle_workers (nat m) s'" and "num_workers (mtp s') = nat m" and "next_worker (mtp s') = 0"
    and "heap (hwd s') = heap (hwd s)" and "interest (hwd s') = interest (hwd s)" and "haios s' = replicate (nat m) empty_aio"
  using assms by (auto simp: mt_proactor_init_def idle_workers_def zero_mt_proactor_def zero_worker_def sys_block_def
      sys_newfd_def Let_def split: if_splits prod.splits sum.splits bool.splits)

lemma start_facts:
  assumes run: "mt_proactor_start J K s = Some (Inr (0, s'))" and idle: "idle_workers n s" and n: "num_workers (mtp s) = n"
  shows "idle_workers n s'" and "start_frame s s'"
proof -
  have range: "set [0..<n] \<subseteq> {..<n}" by auto
  obtain b s1 where s1: "hybrid_start_workers K [0..<n] s = Inr (b, s1)" "idle_workers n s1" "start_frame s s1"
    using start_workers_facts [OF idle, of "[0..<n]" K] range by blast
  have fail: "xbind (mt_proactor_stop J K x) (\<lambda>(_, s'). Some (Inr (-1 :: int, s'))) \<noteq> Some (Inr (0, s'))" for x
    by (cases "mt_proactor_stop J K x" rule: option.exhaust) (auto simp: split_def elim!: xbind.elims)
  have b: b using run s1(1) n fail by (auto simp: mt_proactor_start_def Let_def split: if_splits)
  have "s' = s1\<lparr>hwd := snd (sys_ok K SysThread (hwd s1)), mtp := (mtp s1)\<lparr>accept_thread := True\<rparr>\<rparr>"
    using run s1(1) n b fail by (auto simp: mt_proactor_start_def Let_def split: prod.splits option.splits)
  then have "idle_workers n s'" "start_frame s1 s'"
    using s1(2) by (simp_all add: idle_workers_def start_frame_def sys_ok_def)
  then show "idle_workers n s'" "start_frame s s'" using start_frame_trans s1(3) by auto
qed

lemma started_hybrid_inv:
  assumes init: "mt_proactor_init K0 m s0 = (0, s1)" and start: "mt_proactor_start J K0 (s1\<lparr>mtp := (mtp s1)\<lparr>mt_listen_fd := l\<rparr>, hwd := w\<rparr>) = Some (Inr (0, h))"
    and w: "heap w = Map.empty" "interest w = (\<lambda>_ _. None)" and d: "distinct (map wk_epoll_fd (deref (mt_workers (mtp h))))"
  shows "\<exists>Ls. hybrid_inv (nat m) (mt_exit_event_fd (mtp h)) (hybrid_started h) Ls"
proof -
  note i = init_facts [OF init]
  let ?s = "s1\<lparr>mtp := (mtp s1)\<lparr>mt_listen_fd := l\<rparr>, hwd := w\<rparr>"
  have idle: "idle_workers (nat m) ?s" using i(2) by (simp add: idle_workers_def)
  note st = start_facts [OF start idle] 
  have fr: "start_frame ?s h" by (rule st(2)) (use i in simp)
  obtain ks where ks: "mt_workers (mtp h) = Ptr ks" "length ks = nat m" "\<forall>k\<in>set ks. wk_connections k = NULL"
    using st(1) i(3) by (auto simp: idle_workers_def)
  have "interest (hwd h) = (\<lambda>_ _. None)"
  proof (intro ext)
    show "interest (hwd h) ep f = None" for ep f
      using fr w(2) by (cases "interest (hwd h) ep f") (auto simp: start_frame_def)
  qed
  then have "hybrid_inv (nat m) (mt_exit_event_fd (mtp h)) (hybrid_started h) (replicate (nat m) [])"
    by (intro empty_hybrid_inv [OF ks]) (use i fr w d ks(1) in \<open>simp_all add: start_frame_def\<close>)
  then show ?thesis by blast
qed

section \<open>Stopping\<close>

text \<open>The loop that frees the connections of a worker.\<close>

definition close_and_free :: "(addr \<Rightarrow> mt_connection option) \<Rightarrow> addr list \<Rightarrow> sysev list" where
  "close_and_free H L = concat (map (\<lambda>a. case H a of None \<Rightarrow> [] | Some c \<Rightarrow> [SysClose (mt_fd c), SysFree a]) L)"

lemma close_and_free_cong: "(\<And>a. a \<in> set L \<Longrightarrow> H a = H' a) \<Longrightarrow> close_and_free H L = close_and_free H' L"
  by (simp add: close_and_free_def cong: map_cong)

lemma free_list_spec:
  assumes "linked (next_conn (heap w)) p L" and "distinct L" and "length L \<le> n"
    and "\<And>a. a \<in> set L \<Longrightarrow> \<exists>c. heap w a = Some c \<and> 0 \<le> mt_fd c"
  shows "\<exists>w'. free_list n p w = Inr w' \<and> heap w' = (\<lambda>a. if a \<in> set L then None else heap w a)
    \<and> next_addr w' = next_addr w \<and> trace w' = trace w @ close_and_free (heap w) L"
  using assms
proof (induction L arbitrary: n p w)
  case Nil
  then show ?case by (cases n) (auto simp: close_and_free_def)
next
  case (Cons a L)
  obtain m where n: "n = Suc m" using Cons.prems(3) by (cases n) auto
  obtain q where q: "next_conn (heap w) a = Some q" "linked (next_conn (heap w)) q L" and p: "p = Ptr a"
    using Cons.prems(1) by (auto split: option.splits)
  obtain c where c: "heap w a = Some c" "0 \<le> mt_fd c" using Cons.prems(4) by auto
  have mq: "mt_next c = q" using q(1) c(1) by (simp add: next_conn_def)
  define v where "v = emit (SysFree a) (sys_close (mt_fd c) w\<lparr>heap := (heap w)(a := None)\<rparr>)"
  have v: "heap v = (heap w)(a := None)" "next_addr v = next_addr w" "trace v = trace w @ [SysClose (mt_fd c), SysFree a]"
    by (simp_all add: v_def)
  have a: "a \<notin> set L" using Cons.prems(2) by simp
  have same: "heap v b = heap w b" if "b \<in> set L" for b using a that by (auto simp: v(1))
  have "\<exists>w'. free_list m q v = Inr w' \<and> heap w' = (\<lambda>b. if b \<in> set L then None else heap v b)
    \<and> next_addr w' = next_addr v \<and> trace w' = trace v @ close_and_free (heap v) L"
  proof (rule Cons.IH)
    have "next_conn (heap v) b = next_conn (heap w) b" if "b \<in> set L" for b
      using same [OF that] by (simp add: next_conn_def)
    then show "linked (next_conn (heap v)) q L"
      using q(2) linked_cong [of L "next_conn (heap v)" "next_conn (heap w)"] by blast
    show "\<exists>d. heap v b = Some d \<and> 0 \<le> mt_fd d" if "b \<in> set L" for b
      using Cons.prems(4) [of b] same [OF that] that by simp
  qed (use Cons.prems(2, 3) n in auto)
  then obtain w' where w': "free_list m q v = Inr w'" "heap w' = (\<lambda>b. if b \<in> set L then None else heap v b)"
      "next_addr w' = next_addr v" "trace w' = trace v @ close_and_free (heap v) L"
    by blast
  have "close_and_free (heap v) L = close_and_free (heap w) L" by (rule close_and_free_cong [OF same])
  then have "trace w' = trace w @ close_and_free (heap w) (a # L)"
    using w'(4) v(3) c(1) by (simp add: close_and_free_def)
  moreover have "free_list n p w = Inr w'" using n p c mq w'(1) by (simp add: v_def)
  moreover have "heap w' = (\<lambda>b. if b \<in> set (a # L) then None else heap w b)" using w'(2) v(1) by auto
  moreover have "next_addr w' = next_addr w" using w'(3) v(2) by simp
  ultimately show ?case by blast
qed

lemma drain_world:
  "drain K n q w = (q', w') \<Longrightarrow> heap w' = heap w \<and> next_addr w' = next_addr w \<and> (\<exists>ev. trace w' = trace w @ ev)"
proof (induction n arbitrary: q w)
  case 0
  then show ?case by (auto simp: io_getevents_def split: sum.splits)
next
  case (Suc n)
  obtain r q1 w1 where r: "io_getevents K HYBRID_MAX_EVENTS q w = (r, q1, w1)" by (metis prod_cases3)
  then have w1: "heap w1 = heap w \<and> next_addr w1 = next_addr w \<and> (\<exists>ev. trace w1 = trace w @ ev)"
    by (auto simp: io_getevents_def split: sum.splits)
  show ?case
  proof (cases "(q', w') = (q1, w1)")
    case True
    then show ?thesis using w1 by simp
  next
    case False
    then have "drain K n q1 w1 = (q', w')" using Suc.prems r by (auto split: sum.splits if_splits)
    then show ?thesis using Suc.IH w1 by fastforce
  qed
qed

lemma release_spec:
  assumes ks: "mt_workers (mtp h) = Ptr ks" and i: "i < length ks"
    and hv: "hinv \<lparr>wrk = ks ! i, hmem = hwd h, haio = haios h ! i\<rparr> L"
  shows "\<exists>k q w. release_worker K i h = Inr ((set_worker i k h)\<lparr>hwd := w, haios := (haios h)[i := q]\<rparr>)
    \<and> heap w = (\<lambda>a. if a \<in> set L then None else heap (hwd h) a) \<and> next_addr w = next_addr (hwd h)
    \<and> (\<exists>ev. trace w = trace (hwd h) @ ev @ close_and_free (heap (hwd h)) L)"
proof -
  let ?k = "ks ! i" and ?q = "haios h ! i"
  define w1 where "w1 = (if 0 \<le> wk_epoll_fd ?k then sys_close (wk_epoll_fd ?k) (hwd h) else hwd h)"
  obtain q2 w2 where qw: "reap_context K ?k ?q w1 = (q2, w2)" by (rule prod.exhaust)
  have w1: "heap w1 = heap (hwd h)" "next_addr w1 = next_addr (hwd h)" "\<exists>ev. trace w1 = trace (hwd h) @ ev"
    by (simp_all add: w1_def)
  have w2: "heap w2 = heap (hwd h)" "next_addr w2 = next_addr (hwd h)" "\<exists>ev. trace w2 = trace (hwd h) @ ev"
  proof -
    have "heap w2 = heap w1 \<and> next_addr w2 = next_addr w1 \<and> (\<exists>ev. trace w2 = trace w1 @ ev)"
    proof (cases "wk_aio_ctx ?k")
      case True
      obtain q' w' where d: "drain K (length (finished ?q)) ?q w1 = (q', w')" by (rule prod.exhaust)
      then have "w2 = emit SysIoDestroy w'" using qw True by (simp add: reap_context_def)
      then show ?thesis using drain_world [OF d] by auto
    next
      case False
      then show ?thesis using qw by (simp add: reap_context_def)
    qed
    then show "heap w2 = heap (hwd h)" "next_addr w2 = next_addr (hwd h)" "\<exists>ev. trace w2 = trace (hwd h) @ ev"
      using w1 by auto
  qed
  have "\<exists>w'. free_list (next_addr w2) (wk_connections ?k) w2 = Inr w' \<and> heap w' = (\<lambda>a. if a \<in> set L then None else heap w2 a)
    \<and> next_addr w' = next_addr w2 \<and> trace w' = trace w2 @ close_and_free (heap w2) L"
  proof (rule free_list_spec)
    show "linked (next_conn (heap w2)) (wk_connections ?k) L" using hinvD(1) [OF hv] w2 by simp
    show "distinct L" using hinvD(5) [OF hv] .
    show "length L \<le> next_addr w2" using list_short [OF hv] w2 by simp
    show "\<exists>c. heap w2 a = Some c \<and> 0 \<le> mt_fd c" if "a \<in> set L" for a
      using hinv_live [OF hv that] hinvD(4) [OF hv] w2 by (auto simp: conn_ok_def)
  qed
  then obtain w3 where w3: "free_list (next_addr w2) (wk_connections ?k) w2 = Inr w3"
      "heap w3 = (\<lambda>a. if a \<in> set L then None else heap w2 a)" "next_addr w3 = next_addr w2"
      "trace w3 = trace w2 @ close_and_free (heap w2) L"
    by blast
  let ?k' = "?k\<lparr>wk_epoll_fd := (if 0 \<le> wk_epoll_fd ?k then -1 else wk_epoll_fd ?k), wk_aio_ctx := False, wk_connections := NULL\<rparr>"
  have "release_worker K i h = Inr ((set_worker i ?k' h)\<lparr>hwd := w3, haios := (haios h)[i := q2]\<rparr>)"
    using w3(1) qw unfolding w1_def
    by (cases "0 \<le> wk_epoll_fd ?k") (simp_all add: release_worker_def on_worker_def worker_at_Ptr [OF ks i] release_context_def)
  moreover have "heap w3 = (\<lambda>a. if a \<in> set L then None else heap (hwd h) a)" using w3(2) unfolding w2(1) .
  moreover have "next_addr w3 = next_addr (hwd h)" using w3(3) w2(2) by simp
  moreover have "\<exists>ev. trace w3 = trace (hwd h) @ ev @ close_and_free (heap (hwd h)) L" using w3(4) w2(1, 3) by auto
  ultimately show ?thesis by blast
qed

text \<open>The workers that are still to be released.\<close>

definition unreleased :: "nat list \<Rightarrow> hybrid \<Rightarrow> addr list list \<Rightarrow> bool" where
  "unreleased is h Ls \<longleftrightarrow> (\<exists>ks. mt_workers (mtp h) = Ptr ks
     \<and> (\<forall>i\<in>set is. i < length ks \<and> hinv \<lparr>wrk = ks ! i, hmem = hwd h, haio = haios h ! i\<rparr> (Ls ! i))
     \<and> (\<forall>i\<in>set is. \<forall>j\<in>set is. i \<noteq> j \<longrightarrow> set (Ls ! i) \<inter> set (Ls ! j) = {}))"

text \<open>All threads have ended: \<open>pthread_join\<close> returns and changes nothing.\<close>

definition all_ended :: "hthread \<Rightarrow> hybrid \<Rightarrow> hybrid option" where
  "all_ended th s = Some s"

lemma unreleased_rest:
  assumes un: "unreleased (i # is) h Ls" and d: "i \<notin> set is"
    and h': "h' = (set_worker i k h)\<lparr>hwd := w, haios := (haios h)[i := q]\<rparr>"
    and w: "heap w = (\<lambda>a. if a \<in> set (Ls ! i) then None else heap (hwd h) a)" "next_addr w = next_addr (hwd h)"
  shows "unreleased is h' Ls"
proof -
  obtain ks where ks: "mt_workers (mtp h) = Ptr ks"
      and hv: "\<And>j. j \<in> set (i # is) \<Longrightarrow> j < length ks \<and> hinv \<lparr>wrk = ks ! j, hmem = hwd h, haio = haios h ! j\<rparr> (Ls ! j)"
      and dis: "\<And>j k. j \<in> set (i # is) \<Longrightarrow> k \<in> set (i # is) \<Longrightarrow> j \<noteq> k \<Longrightarrow> set (Ls ! j) \<inter> set (Ls ! k) = {}"
    using un unfolding unreleased_def by blast
  have "hinv \<lparr>wrk = ks ! j, hmem = w, haio = haios h ! j\<rparr> (Ls ! j)" if j: "j \<in> set is" for j
  proof (rule hinvI)
    have hj: "hinv \<lparr>wrk = ks ! j, hmem = hwd h, haio = haios h ! j\<rparr> (Ls ! j)" using hv j by simp
    have ji: "set (Ls ! j) \<inter> set (Ls ! i) = {}" using dis [of j i] j d by auto
    have "next_conn (heap w) b = next_conn (heap (hwd h)) b" if "b \<in> set (Ls ! j)" for b
      using ji that w(1) by (auto simp: next_conn_def)
    then show "linked (next_conn (heap (hmem \<lparr>wrk = ks ! j, hmem = w, haio = haios h ! j\<rparr>)))
        (wk_connections (wrk \<lparr>wrk = ks ! j, hmem = w, haio = haios h ! j\<rparr>)) (Ls ! j)"
      using hinvD(1) [OF hj] linked_cong [of "Ls ! j" "next_conn (heap w)" "next_conn (heap (hwd h))"] by simp
    show "set (Ls ! j) \<subseteq> dom (heap (hmem \<lparr>wrk = ks ! j, hmem = w, haio = haios h ! j\<rparr>))"
      using hinvD(2) [OF hj] ji w(1) by (auto simp: dom_def)
    show "a < next_addr (hmem \<lparr>wrk = ks ! j, hmem = w, haio = haios h ! j\<rparr>) \<and> conn_ok c"
      if "heap (hmem \<lparr>wrk = ks ! j, hmem = w, haio = haios h ! j\<rparr>) a = Some c" for a c
      using that hinvD(3, 4) [OF hj] w by (auto split: if_splits)
    show "aio_ok (haio \<lparr>wrk = ks ! j, hmem = w, haio = haios h ! j\<rparr>)" using hinvD(6) [OF hj] by simp
  qed
  then show ?thesis
    unfolding unreleased_def h' using ks hv dis d
    by (intro exI [of _ "ks[i := k]"]) (auto simp: set_worker_def nth_list_update)
qed

lemma stop_workers_spec:
  assumes "unreleased is h Ls" and "distinct is"
  shows "\<exists>h'. stop_workers all_ended K is h = Some (Inr h')
    \<and> heap (hwd h') = (\<lambda>a. if \<exists>i\<in>set is. a \<in> set (Ls ! i) then None else heap (hwd h) a)
    \<and> (\<exists>ev. trace (hwd h') = trace (hwd h) @ ev
         \<and> (\<forall>i\<in>set is. \<forall>a\<in>set (Ls ! i). \<forall>c. heap (hwd h) a = Some c \<longrightarrow> SysClose (mt_fd c) \<in> set ev \<and> SysFree a \<in> set ev))
    \<and> mt_listen_fd (mtp h') = mt_listen_fd (mtp h) \<and> mt_exit_event_fd (mtp h') = mt_exit_event_fd (mtp h)
    \<and> mt_running (mtp h') = mt_running (mtp h)"
  using assms
proof (induction "is" arbitrary: h)
  case Nil
  then show ?case by simp
next
  case (Cons i "is")
  obtain ks where ks: "mt_workers (mtp h) = Ptr ks" and i: "i < length ks"
      and hv: "hinv \<lparr>wrk = ks ! i, hmem = hwd h, haio = haios h ! i\<rparr> (Ls ! i)"
    using Cons.prems(1) unfolding unreleased_def by auto
  let ?k = "(ks ! i)\<lparr>wk_running := False\<rparr>"
  let ?h0 = "set_worker i ?k h"
  define h1 where "h1 = (if wk_thread ?k then ?h0\<lparr>hwd := emit SysJoin (hwd ?h0)\<rparr> else ?h0)"
  have join: "join_if all_ended (wk_thread (ks ! i)) (WorkerThread i) ?h0 = Some (Inr h1)"
    by (simp add: join_if_def all_ended_def h1_def)
  have h1: "mt_workers (mtp h1) = Ptr (ks[i := ?k])" "heap (hwd h1) = heap (hwd h)" "next_addr (hwd h1) = next_addr (hwd h)"
    "haios h1 = haios h" "mtp h1 = mtp ?h0" "\<exists>ev. trace (hwd h1) = trace (hwd h) @ ev"
    using ks by (simp_all add: set_worker_def h1_def)
  obtain ev1 where ev1: "trace (hwd h1) = trace (hwd h) @ ev1" using h1(6) by blast
  have i1: "i < length (ks[i := ?k])" using i by simp
  have hv1: "hinv \<lparr>wrk = ks[i := ?k] ! i, hmem = hwd h1, haio = haios h1 ! i\<rparr> (Ls ! i)"
    using hv h1(2-4) i by (simp add: hinv_def)
  obtain k q w where rel: "release_worker K i h1 = Inr ((set_worker i k h1)\<lparr>hwd := w, haios := (haios h1)[i := q]\<rparr>)"
      "heap w = (\<lambda>a. if a \<in> set (Ls ! i) then None else heap (hwd h1) a)" "next_addr w = next_addr (hwd h1)"
      "\<exists>ev. trace w = trace (hwd h1) @ ev @ close_and_free (heap (hwd h1)) (Ls ! i)"
    using release_spec [OF h1(1) i1 hv1, of K] by blast
  obtain ev2 where ev2: "trace w = trace (hwd h) @ ev1 @ ev2 @ close_and_free (heap (hwd h)) (Ls ! i)"
    using rel(4) ev1 h1(2) by auto
  let ?h2 = "(set_worker i k h1)\<lparr>hwd := w, haios := (haios h1)[i := q]\<rparr>"
  have h2: "?h2 = (set_worker i k h)\<lparr>hwd := w, haios := (haios h)[i := q]\<rparr>"
    using ks by (simp add: set_worker_def h1_def)
  have w: "heap w = (\<lambda>a. if a \<in> set (Ls ! i) then None else heap (hwd h) a)" "next_addr w = next_addr (hwd h)"
    unfolding rel(2, 3) h1(2, 3) by simp_all
  have un: "unreleased is ?h2 Ls"
    by (rule unreleased_rest [OF Cons.prems(1) _ h2 w]) (use Cons.prems(2) in simp)
  have dist: "distinct is" using Cons.prems(2) by simp
  obtain h' ev3 where h': "stop_workers all_ended K is ?h2 = Some (Inr h')"
      "heap (hwd h') = (\<lambda>a. if \<exists>i\<in>set is. a \<in> set (Ls ! i) then None else heap (hwd ?h2) a)"
      "trace (hwd h') = trace (hwd ?h2) @ ev3"
      "\<forall>i\<in>set is. \<forall>a\<in>set (Ls ! i). \<forall>c. heap (hwd ?h2) a = Some c \<longrightarrow> SysClose (mt_fd c) \<in> set ev3 \<and> SysFree a \<in> set ev3"
      "mt_listen_fd (mtp h') = mt_listen_fd (mtp ?h2)" "mt_exit_event_fd (mtp h') = mt_exit_event_fd (mtp ?h2)"
      "mt_running (mtp h') = mt_running (mtp ?h2)"
    using Cons.IH [OF un dist] by (elim exE conjE) (rule that, assumption+)
  have run: "stop_workers all_ended K (i # is) h = Some (Inr h')"
    using worker_at_Ptr [OF ks i] join rel(1) h'(1) by simp
  have own: "SysClose (mt_fd c) \<in> set (close_and_free (heap (hwd h)) (Ls ! i)) \<and> SysFree a \<in> set (close_and_free (heap (hwd h)) (Ls ! i))"
    if "a \<in> set (Ls ! i)" "heap (hwd h) a = Some c" for a c
    using that by (force simp: close_and_free_def)
  have rest: "SysClose (mt_fd c) \<in> set ev3 \<and> SysFree a \<in> set ev3"
    if "j \<in> set is" "a \<in> set (Ls ! j)" "heap (hwd h) a = Some c" for j a c
  proof -
    have "set (Ls ! j) \<inter> set (Ls ! i) = {}"
      using Cons.prems that(1) unfolding unreleased_def by (metis distinct.simps(2) list.set_intros)
    then have "heap (hwd ?h2) a = Some c" using w(1) that by auto
    then show ?thesis using h'(4) that by blast
  qed
  have tr: "trace (hwd h') = trace (hwd h) @ (ev1 @ ev2 @ close_and_free (heap (hwd h)) (Ls ! i) @ ev3)"
    using h'(3) ev2 by simp
  have hp: "heap (hwd h') = (\<lambda>a. if \<exists>j\<in>set (i # is). a \<in> set (Ls ! j) then None else heap (hwd h) a)"
    using h'(2) w(1) by auto
  have fields: "mt_listen_fd (mtp h') = mt_listen_fd (mtp h)" "mt_exit_event_fd (mtp h') = mt_exit_event_fd (mtp h)"
      "mt_running (mtp h') = mt_running (mtp h)"
    using h'(5-7) h1(5) by (simp_all add: set_worker_def)
  show ?case
    by (rule exI [of _ h'], intro conjI run hp exI [of _ "ev1 @ ev2 @ close_and_free (heap (hwd h)) (Ls ! i) @ ev3"] tr fields)
      (use own rest in auto)
qed

text \<open>The whole of \<open>mt_proactor_stop\<close> when the threads have ended.\<close>

lemma stop_spec:
  assumes run: "mt_running (mtp h)" and un: "unreleased [0..<num_workers (mtp h)] h Ls"
    and all: "dom (heap (hwd h)) \<subseteq> (\<Union>i<num_workers (mtp h). set (Ls ! i))"
  shows "\<exists>h'. mt_proactor_stop all_ended K h = Some (Inr (0, h')) \<and> heap (hwd h') = Map.empty \<and> mt_workers (mtp h') = NULL
    \<and> \<not> mt_running (mtp h') \<and> mt_listen_fd (mtp h') < 0 \<and> mt_exit_event_fd (mtp h') < 0
    \<and> (\<exists>ev. trace (hwd h') = trace (hwd h) @ ev
         \<and> (\<forall>a c. heap (hwd h) a = Some c \<longrightarrow> SysClose (mt_fd c) \<in> set ev \<and> SysFree a \<in> set ev)
         \<and> (0 \<le> mt_listen_fd (mtp h) \<longrightarrow> SysClose (mt_listen_fd (mtp h)) \<in> set ev))"
proof -
  define h2 where "h2 = (if accept_thread (mtp h) then (begin_stop h)\<lparr>hwd := emit SysJoin (hwd (begin_stop h))\<rparr> else begin_stop h)"
  have join: "join_if all_ended (accept_thread (mtp h)) AcceptThread (begin_stop h) = Some (Inr h2)"
    by (simp add: join_if_def all_ended_def h2_def)
  have f: "heap (hwd h2) = heap (hwd h)" "next_addr (hwd h2) = next_addr (hwd h)"
      "mtp h2 = (mtp h)\<lparr>mt_running := False\<rparr>" "haios h2 = haios h" "\<exists>ev. trace (hwd h2) = trace (hwd h) @ ev"
    by (simp_all add: h2_def begin_stop_def)
  obtain ev2 where ev2: "trace (hwd h2) = trace (hwd h) @ ev2" using f(5) by blast
  let ?is = "[0..<num_workers (mtp h)]"
  have un2: "unreleased ?is h2 Ls"
    using un unfolding unreleased_def f(3, 4) hinv_def by (simp add: f(1, 2))
  obtain h3 ev3 where h3: "stop_workers all_ended K ?is h2 = Some (Inr h3)"
      "heap (hwd h3) = (\<lambda>a. if \<exists>i\<in>set ?is. a \<in> set (Ls ! i) then None else heap (hwd h2) a)"
      "trace (hwd h3) = trace (hwd h2) @ ev3"
      "\<forall>i\<in>set ?is. \<forall>a\<in>set (Ls ! i). \<forall>c. heap (hwd h2) a = Some c \<longrightarrow> SysClose (mt_fd c) \<in> set ev3 \<and> SysFree a \<in> set ev3"
      "mt_listen_fd (mtp h3) = mt_listen_fd (mtp h2)" "mt_exit_event_fd (mtp h3) = mt_exit_event_fd (mtp h2)"
      "mt_running (mtp h3) = mt_running (mtp h2)"
    using stop_workers_spec [OF un2 distinct_upt, where K = K] by (elim exE conjE) (rule that, assumption+)
  have where_: "\<exists>i\<in>set ?is. a \<in> set (Ls ! i)" if "heap (hwd h) a = Some c" for a c
    using all that by (fastforce simp: dom_def)
  have empty: "heap (hwd h3) = Map.empty"
  proof
    show "heap (hwd h3) a = None" for a
      using where_ [of a] unfolding h3(2) f(1) by (cases "heap (hwd h) a") auto
  qed
  let ?h' = "release_main h3"
  have main: "heap (hwd ?h') = heap (hwd h3)" "mt_workers (mtp ?h') = NULL" "mt_listen_fd (mtp ?h') < 0"
      "mt_exit_event_fd (mtp ?h') < 0" "mt_running (mtp ?h') = mt_running (mtp h3)"
      "\<exists>ev. trace (hwd ?h') = trace (hwd h3) @ ev \<and> (0 \<le> mt_listen_fd (mtp h3) \<longrightarrow> SysClose (mt_listen_fd (mtp h3)) \<in> set ev)"
    by (simp_all add: release_main_def Let_def)
  obtain ev6 where ev6: "trace (hwd ?h') = trace (hwd h3) @ ev6"
      "0 \<le> mt_listen_fd (mtp h3) \<longrightarrow> SysClose (mt_listen_fd (mtp h3)) \<in> set ev6"
    using main(6) by blast
  have n: "num_workers (mtp h2) = num_workers (mtp h)" using f(3) by simp
  have "mt_proactor_stop all_ended K h = Some (Inr (0, ?h'))"
    using run join h3(1) n by (simp add: mt_proactor_stop_def)
  moreover have "trace (hwd ?h') = trace (hwd h) @ (ev2 @ ev3 @ ev6)" using ev2 h3(3) ev6(1) by simp
  moreover have "SysClose (mt_fd c) \<in> set (ev2 @ ev3 @ ev6) \<and> SysFree a \<in> set (ev2 @ ev3 @ ev6)" if "heap (hwd h) a = Some c" for a c
    using where_ [OF that] h3(4) that f(1) by auto
  moreover have "0 \<le> mt_listen_fd (mtp h) \<longrightarrow> SysClose (mt_listen_fd (mtp h)) \<in> set (ev2 @ ev3 @ ev6)"
    using ev6(2) h3(5) f(3) by simp
  moreover have "\<not> mt_running (mtp ?h')" using main(5) h3(7) f(3) by simp
  moreover have "heap (hwd ?h') = Map.empty" using main(1) empty by simp
  ultimately show ?thesis using main(2-4)
    by (intro exI [of _ ?h'] conjI exI [of _ "ev2 @ ev3 @ ev6"]) simp_all
qed

end
