(* ===== verification/Registry.thy ===== *)
theory Registry
  imports Prelude
begin

text \<open>
  The contract of a set of connections from which single connections are removed: what the three
  servers rely on when they close connections. \<open>discard_all\<close> removes several.
\<close>

fun discard_all :: "('a \<Rightarrow> 's \<Rightarrow> 's res) \<Rightarrow> 'a list \<Rightarrow> 's \<Rightarrow> 's res" where
  "discard_all d [] s = Inr s"
| "discard_all d (a # as) s = rbind (d a s) (discard_all d as)"

locale registry =
  fixes invar :: "'s \<Rightarrow> bool"
    and members :: "'s \<Rightarrow> 'a set"
    and discard :: "'a \<Rightarrow> 's \<Rightarrow> 's res"
  assumes discard_member: "invar s \<Longrightarrow> a \<in> members s \<Longrightarrow>
      \<exists>s'. discard a s = Inr s' \<and> invar s' \<and> members s' = members s - {a}"
begin

lemma discard_all_members:
  "invar s \<Longrightarrow> distinct as \<Longrightarrow> set as \<subseteq> members s \<Longrightarrow>
   \<exists>s'. discard_all discard as s = Inr s' \<and> invar s' \<and> members s' = members s - set as"
proof (induction as arbitrary: s)
  case Nil
  then show ?case by simp
next
  case (Cons a as)
  obtain s1 where s1: "discard a s = Inr s1" "invar s1" "members s1 = members s - {a}"
    using discard_member [of s a] Cons.prems by auto
  have "set as \<subseteq> members s1" using Cons.prems s1(3) by auto
  then obtain s2 where "discard_all discard as s1 = Inr s2" "invar s2" "members s2 = members s1 - set as"
    using Cons.IH [OF s1(2)] Cons.prems(2) by auto
  then show ?case using s1 by auto
qed

text \<open>The order does not matter for what is left.\<close>

lemma discard_all_order:
  assumes "invar s" and "distinct as" and "distinct bs" and "set as = set bs" and "set as \<subseteq> members s"
  shows "\<exists>s1 s2. discard_all discard as s = Inr s1 \<and> discard_all discard bs s = Inr s2 \<and> members s1 = members s2
    \<and> members s1 = members s - set as \<and> invar s1 \<and> invar s2"
proof -
  obtain s1 where "discard_all discard as s = Inr s1" "invar s1" "members s1 = members s - set as"
    using discard_all_members [OF assms(1, 2, 5)] by blast
  moreover obtain s2 where "discard_all discard bs s = Inr s2" "invar s2" "members s2 = members s - set bs"
    using discard_all_members [OF assms(1, 3)] assms(4, 5) by blast
  ultimately show ?thesis using assms(4) by blast
qed

end

end
