(* ===== verification/Registries.thy ===== *)
theory Registries
  imports Registry ReactorLoop ProactorSafety HybridInv
begin

text \<open>
  The three servers keep the contract \<open>registry\<close> with \<open>handle_close_event\<close>,
  \<open>proactor_remove_connection\<close> and \<open>mt_remove_connection_safe\<close>.
\<close>

section \<open>The connections of a reactor thread\<close>

definition thread_good :: "fd list \<Rightarrow> rstate \<Rightarrow> bool" where
  "thread_good H st \<longleftrightarrow> good H (fst st) (snd st)"

definition thread_conns :: "rstate \<Rightarrow> addr set" where
  "thread_conns st = owned (fst st)"

interpretation thread_registry: registry "thread_good H" thread_conns "\<lambda>a. handle_close_event K (Ptr a)" for H K
proof
  fix st a assume inv: "thread_good H st" and a: "a \<in> thread_conns st"
  obtain t w where st: "st = (t, w)" by (cases st)
  have g: "good H t w" and o: "a \<in> owned t" using inv a by (simp_all add: st thread_good_def thread_conns_def)
  obtain c where c: "heap w a = Some c" using g o by (auto simp: good_def inv_mem_def)
  obtain t' w' where "handle_close_event K (Ptr a) (t, w) = Inr (t', w')" "good H t' w'" "owned t' = owned t - {a}"
    using close_good [OF g o c, of K] by blast
  then show "\<exists>st'. handle_close_event K (Ptr a) st = Inr st' \<and> thread_good H st' \<and> thread_conns st' = thread_conns st - {a}"
    by (auto simp: st thread_good_def thread_conns_def)
qed

section \<open>The descriptors of the proactor's table\<close>

definition table_inv :: "pstate \<Rightarrow> bool" where
  "table_inv s \<longleftrightarrow> (\<exists>rest D. pinv s rest D)"

definition table_fds :: "pstate \<Rightarrow> fd set" where
  "table_fds s = {f. 0 \<le> f \<and> nat f < length (deref (ctx_table (pro s))) \<and> deref (ctx_table (pro s)) ! nat f \<noteq> NULL}"

interpretation table_registry: registry table_inv table_fds "proactor_remove_connection K" for K
proof
  fix s f assume "table_inv s" and f: "f \<in> table_fds s"
  then obtain rest D where inv: "pinv s rest D" by (auto simp: table_inv_def)
  obtain t0 where t0: "ctx_table (pro s) = Ptr t0" using inv by (rule pinvE)
  show "\<exists>s'. proactor_remove_connection K f s = Inr s' \<and> table_inv s' \<and> table_fds s' = table_fds s - {f}"
    using inv
  proof (cases rule: remove_cases [where K = K and f = f])
    case nothing_there
    then show ?thesis using f t0 by (auto simp: table_fds_def)
  next
    case (removed s' c h x t)
    have "table_inv s'" using keeps_pinv [OF removed(2)] by (auto simp: table_inv_def)
    moreover have "table_fds s' = table_fds s - {f}"
      using removed(3-5, 10) by (auto simp: table_fds_def nth_list_update nat_eq_iff split: if_splits)
    ultimately show ?thesis using removed(1) by blast
  qed
qed

section \<open>The connections of a worker of the hybrid proactor\<close>

definition worker_good :: "hstate \<Rightarrow> bool" where
  "worker_good s \<longleftrightarrow> (\<exists>L. hinv s L)"

text \<open>The visited addresses of the list.\<close>

definition worker_conns :: "hstate \<Rightarrow> addr set" where
  "worker_conns s = set (walk (next_addr (hmem s)) (next_conn (heap (hmem s))) (wk_connections (wrk s)))"

lemma worker_conns_eq:
  assumes "hinv s L"
  shows "worker_conns s = set L"
proof -
  have "set L \<subseteq> {..<next_addr (hmem s)}" using hinvD(2, 3) [OF assms] by auto
  then have "card (set L) \<le> card {..<next_addr (hmem s)}" by (rule card_mono [OF finite_lessThan])
  then have "length L \<le> next_addr (hmem s)" using hinvD(5) [OF assms] by (simp add: distinct_card)
  then show ?thesis unfolding worker_conns_def using walk_linked [OF hinvD(1) [OF assms]] by simp
qed

interpretation worker_registry: registry worker_good worker_conns "\<lambda>a. mt_remove_connection_safe K (Ptr a)" for K
proof
  fix s a assume "worker_good s" and a: "a \<in> worker_conns s"
  then obtain L where inv: "hinv s L" by (auto simp: worker_good_def)
  have aL: "a \<in> set L" using a worker_conns_eq [OF inv] by simp
  obtain c where c: "heap (hmem s) a = Some c" using hinv_live [OF inv aL] by blast
  obtain s' where s': "mt_remove_connection_safe K (Ptr a) s = Inr s'" "hstep s L s' (remove1 a L)"
    by (rule remove_spec [OF inv aL c])
  have inv': "hinv s' (remove1 a L)" by (rule hstepD(1) [OF s'(2)])
  have "worker_conns s' = worker_conns s - {a}"
    using worker_conns_eq [OF inv] worker_conns_eq [OF inv'] hinvD(5) [OF inv] by simp
  then show "\<exists>s'. mt_remove_connection_safe K (Ptr a) s = Inr s' \<and> worker_good s' \<and> worker_conns s' = worker_conns s - {a}"
    using s'(1) inv' by (auto simp: worker_good_def)
qed

end
