(* ===== verification/HybridProps.thy ===== *)
theory HybridProps
  imports HybridStart Registries
begin

text \<open>The properties of the hybrid proactor, with their witnesses.\<close>

section \<open>A concrete worker\<close>

text \<open>One connection with descriptor 6 at address 0; the \<open>n\<close>-th call reads \<open>rd n\<close> and writes \<open>wr n\<close>.\<close>

definition demo_hybrid_kernel :: "(nat \<Rightarrow> errno + u8 list) \<Rightarrow> (nat \<Rightarrow> errno + nat) \<Rightarrow> kernel" where
  "demo_hybrid_kernel rd wr = \<lparr>k_alloc = \<lambda>_. True, k_ok = \<lambda>_. None, k_flags = \<lambda>_. Inr 0, k_newfd = \<lambda>n. Inr (n + 3),
     k_read = rd, k_write = wr, k_poll = \<lambda>_. Inr [], k_clock = \<lambda>_. (0, 0), k_spur = \<lambda>_. False,
     k_submit = \<lambda>_. 1, k_events = \<lambda>_. Inr 64\<rparr>"

definition demo_mt_conn :: mt_connection where
  "demo_mt_conn = zero_mt_connection\<lparr>mt_fd := 6, readable := True, writable := True, ref_count := 1\<rparr>"

definition demo_hworld :: hworld where
  "demo_hworld = \<lparr>heap = [0 \<mapsto> demo_mt_conn], next_addr = 1, interest = \<lambda>_ _. None, trace = []\<rparr>"

definition demo_worker :: worker_context where
  "demo_worker = zero_worker\<lparr>wk_thread := True, wk_running := True, wk_epoll_fd := 3, wk_aio_ctx := True, wk_connections := Ptr 0\<rparr>"

definition demo_hstate :: hstate where
  "demo_hstate = \<lparr>wrk = demo_worker, hmem = demo_hworld, haio = empty_aio\<rparr>"

lemma demo_conn_at: "heap (hmem demo_hstate) 0 = Some demo_mt_conn"
  by (simp add: demo_hstate_def demo_hworld_def)

lemma demo_hinv: "hinv demo_hstate [0]"
proof (rule hinvI)
  show "linked (next_conn (heap (hmem demo_hstate))) (wk_connections (wrk demo_hstate)) [0]"
    by (simp add: demo_hstate_def demo_hworld_def demo_worker_def demo_mt_conn_def zero_mt_connection_def next_conn_def)
  show "set [0] \<subseteq> dom (heap (hmem demo_hstate))" by (simp add: demo_hstate_def demo_hworld_def)
  show "a < next_addr (hmem demo_hstate) \<and> conn_ok c" if "heap (hmem demo_hstate) a = Some c" for a c
    using that by (auto simp: demo_hstate_def demo_hworld_def demo_mt_conn_def zero_mt_connection_def conn_ok_def split: if_splits)
  show "aio_ok (haio demo_hstate)" by (simp add: demo_hstate_def empty_aio_def aio_ok_def)
qed

section \<open>All threads together\<close>











lemmas hrun_defs [model_defs] = Let_def ready_def reported_def List.map_filter_def set_interest_def
  sys_epoll_add_def sys_epoll_del_def sys_epoll_wait_def sys_getfl_def sys_setfl_def sys_close_def sys_alloc_def sys_free_def
  sys_clock_def sys_read_def sys_write_def store_def put_def load_def set_nonblocking_def hybrid_started_def
  mt_create_connection_def zero_mt_connection_def mt_add_connection_to_worker_def update_conn_def on_worker_def pick_worker_def
  mt_send_welcome_message_def length_welcome HYBRID_BUFFER_SIZE_def HYBRID_MAX_EVENTS_def mt_try_write_def mt_try_read_def touch_def
  count_success_def count_operation_def count_eagain_def worker_enter_def hybrid_goes_on_def hybrid_event_def
  mt_handle_connection_event_def mt_remove_connection_safe_def unlink_def empty_aio_def





section \<open>Events\<close>

text \<open>C8: A worker handles an event of one of its connections. It uses the connection after it was freed
  exactly when the event reports no error or hang-up, reports it readable, and either the echo of what is
  read cannot be written, or the read ends the connection (end of file or an error) and the event also
  reports it writable. In all other cases the handler returns, the connection is still in the list or is
  closed, freed and taken out of it, and no other connection is lost.\<close>

theorem hybrid_event_faults:
  assumes inv: "hinv s L" and aL: "a \<in> set L" and a: "heap (hmem s) a = Some c"
  shows "(mt_handle_connection_event K a ev s = Inl UseAfterFree \<longleftrightarrow>
      ev AND (EPOLLERR OR EPOLLHUP OR EPOLLRDHUP) = 0 \<and> ev AND EPOLLIN \<noteq> 0
      \<and> (case sys_read K (mt_fd c) 4095 (hmem s) of
           (Inl e, w) \<Rightarrow> e \<noteq> EAGAIN \<and> ev AND EPOLLOUT \<noteq> 0
         | (Inr bs, w) \<Rightarrow> if bs = [] then ev AND EPOLLOUT \<noteq> 0
             else length bs < 4090 \<and> writable c \<and> hard_error (fst (sys_write K (mt_fd c) (hybrid_prefix @ bs) w))))
    \<and> (mt_handle_connection_event K a ev s \<noteq> Inl UseAfterFree \<longrightarrow>
       (\<exists>s'. mt_handle_connection_event K a ev s = Inr s'
          \<and> (hinv s' L \<or> hinv s' (remove1 a L) \<and> heap (hmem s') a = None)))"
proof -
  have hz: "event_hazard K c ev (hmem s) \<longleftrightarrow>
      ev AND (EPOLLERR OR EPOLLHUP OR EPOLLRDHUP) = 0 \<and> ev AND EPOLLIN \<noteq> 0
      \<and> (case sys_read K (mt_fd c) 4095 (hmem s) of
           (Inl e, w) \<Rightarrow> e \<noteq> EAGAIN \<and> ev AND EPOLLOUT \<noteq> 0
         | (Inr bs, w) \<Rightarrow> if bs = [] then ev AND EPOLLOUT \<noteq> 0
             else length bs < 4090 \<and> writable c \<and> hard_error (fst (sys_write K (mt_fd c) (hybrid_prefix @ bs) w)))"
    unfolding event_hazard_def read_faults_def read_kills_def echo_kills_def
    by (cases "sys_read K (mt_fd c) 4095 (hmem s)"; cases "fst (sys_read K (mt_fd c) 4095 (hmem s))") simp_all
  show ?thesis
  proof (cases "event_hazard K c ev (hmem s)")
    case True
    then show ?thesis using event_fault [OF inv aL a True] hz by simp
  next
    case False
    obtain s' L' where s': "mt_handle_connection_event K a ev s = Inr s'" "hstep s L s' L'" "L' = L \<or> L' = remove1 a L"
      by (rule event_ok [OF inv aL a False])
    have "heap (hmem s') a = None" if "L' = remove1 a L"
      using hstep_removed [OF s'(2) aL] that hinvD(5) [OF inv] by simp
    then show ?thesis using s' hstepD(1) [OF s'(2)] hz False by auto
  qed
qed

theorem hybrid_event_faults_witness:
  "mt_handle_connection_event (demo_hybrid_kernel (\<lambda>_. Inr []) (\<lambda>_. Inr 4096)) 0 (EPOLLIN OR EPOLLOUT) demo_hstate = Inl UseAfterFree
   \<and> mt_handle_connection_event (demo_hybrid_kernel (\<lambda>_. Inr [120]) (\<lambda>_. Inl EPIPE)) 0 EPOLLIN demo_hstate = Inl UseAfterFree
   \<and> mt_handle_connection_event (demo_hybrid_kernel (\<lambda>_. Inr []) (\<lambda>_. Inr 4096)) 0 EPOLLIN demo_hstate \<noteq> Inl UseAfterFree"
  using hybrid_event_faults [OF demo_hinv _ demo_conn_at, of "demo_hybrid_kernel (\<lambda>_. Inr []) (\<lambda>_. Inr 4096)" "EPOLLIN OR EPOLLOUT"]
    hybrid_event_faults [OF demo_hinv _ demo_conn_at, of "demo_hybrid_kernel (\<lambda>_. Inr [120]) (\<lambda>_. Inl EPIPE)" EPOLLIN]
    hybrid_event_faults [OF demo_hinv _ demo_conn_at, of "demo_hybrid_kernel (\<lambda>_. Inr []) (\<lambda>_. Inr 4096)" EPOLLIN]
  by (simp add: sys_read_def sys_write_def Let_def demo_hybrid_kernel_def demo_mt_conn_def zero_mt_connection_def)

text \<open>An event with input, and one that says the connection is writable.\<close>

lemma input_stream:
  assumes inv: "hinv s L" and aL: "a \<in> set L" and a: "heap (hmem s) a = Some c"
    and ev: "ev AND (EPOLLERR OR EPOLLHUP OR EPOLLRDHUP) = 0"
    and h: "ev AND EPOLLIN \<noteq> 0 \<and> ev AND EPOLLOUT = 0 \<and> sys_read K (mt_fd c) 4095 (hmem s) = (Inr bs, w) \<and> bs \<noteq> []
        \<and> length bs < 4090 \<and> \<not> (writable c \<and> hard_error (fst (sys_write K (mt_fd c) (hybrid_prefix @ bs) w)))"
  shows "\<exists>s' c'. mt_handle_connection_event K a ev s = Inr s' \<and> hinv s' L \<and> heap (hmem s') a = Some c'
      \<and> sent (mt_fd c) (trace (hmem s')) @ pending_bytes c' = sent (mt_fd c) (trace (hmem s)) @ hybrid_prefix @ bs
      \<and> (\<forall>f. f \<noteq> mt_fd c \<longrightarrow> sent f (trace (hmem s')) = sent f (trace (hmem s)))"
proof -
  let ?c = "c\<lparr>readable := True\<rparr>"
  let ?s = "s\<lparr>hmem := put a ?c (hmem s)\<rparr>"
  have st: "hstep s L ?s L" by (rule flag_step(1) [OF inv aL a])
  have "\<not> read_kills K c (hmem s)" "\<not> read_faults K c (hmem s)"
    using h by (auto simp: read_kills_def read_faults_def echo_kills_def)
  then have nk: "\<not> read_kills K ?c (hmem ?s)" and nf: "\<not> read_faults K ?c (hmem ?s)"
    by (simp_all add: read_cases_put)
  have rd: "fst (sys_read K (mt_fd ?c) 4095 (hmem ?s)) = Inr bs" using h by (simp add: sys_read_put)
  have a1: "heap (hmem ?s) a = Some ?c" and r: "readable ?c" by simp_all
  show ?thesis
  proof (rule try_read_live [OF hstepD(1) [OF st] aL a1 r nk nf])
    fix s' c'
    assume s': "mt_try_read K a ?s = Inr s'" "hstep ?s L s' L" "heap (hmem s') a = Some c'"
      and stream: "sent (mt_fd ?c) (trace (hmem s')) @ pending_bytes c' = sent (mt_fd ?c) (trace (hmem ?s))
         @ (case fst (sys_read K (mt_fd ?c) 4095 (hmem ?s)) of Inl e \<Rightarrow> pending_bytes ?c
            | Inr bs \<Rightarrow> if length bs < 4090 then hybrid_prefix @ bs else pending_bytes ?c)"
      and other: "\<And>f. f \<noteq> mt_fd ?c \<Longrightarrow> sent f (trace (hmem s')) = sent f (trace (hmem ?s))"
    have "sent (mt_fd c) (trace (hmem s')) @ pending_bytes c' = sent (mt_fd c) (trace (hmem s)) @ hybrid_prefix @ bs"
      using stream h unfolding rd by simp
    moreover have "mt_handle_connection_event K a ev s = Inr s'"
      unfolding mt_handle_connection_event_def using ev h a s'(1) by (simp add: update_conn_Some)
    ultimately show ?thesis
      using s'(3) other hstepD(1) [OF s'(2)] by (intro exI [of _ s'] exI [of _ c']) simp
  qed
qed

lemma output_stream:
  assumes inv: "hinv s L" and aL: "a \<in> set L" and a: "heap (hmem s) a = Some c"
    and ev: "ev AND (EPOLLERR OR EPOLLHUP OR EPOLLRDHUP) = 0"
    and h: "ev AND EPOLLIN = 0 \<and> ev AND EPOLLOUT \<noteq> 0 \<and> \<not> hard_error (fst (sys_write K (mt_fd c) (pending_bytes c) (hmem s)))"
  shows "\<exists>s' c'. mt_handle_connection_event K a ev s = Inr s' \<and> hinv s' L \<and> heap (hmem s') a = Some c'
      \<and> sent (mt_fd c) (trace (hmem s')) @ pending_bytes c' = sent (mt_fd c) (trace (hmem s)) @ pending_bytes c
      \<and> (\<forall>f. f \<noteq> mt_fd c \<longrightarrow> sent f (trace (hmem s')) = sent f (trace (hmem s)))"
proof -
  let ?c = "c\<lparr>writable := True\<rparr>"
  let ?s = "s\<lparr>hmem := put a ?c (hmem s)\<rparr>"
  have st: "hstep s L ?s L" by (rule flag_step(2) [OF inv aL a])
  have p: "pending_bytes ?c = pending_bytes c" by (simp add: pending_bytes_def)
  have nk: "\<not> write_kills K ?c (hmem ?s)" using h by (simp add: write_kills_def p sys_write_put)
  have a1: "heap (hmem ?s) a = Some ?c" by simp
  obtain s' c' where s': "mt_try_write K a ?s = Inr s'" "hstep ?s L s' L" "heap (hmem s') a = Some c'"
      "sent (mt_fd ?c) (trace (hmem s')) @ pending_bytes c' = sent (mt_fd ?c) (trace (hmem ?s)) @ pending_bytes ?c"
      "\<And>f. f \<noteq> mt_fd ?c \<Longrightarrow> sent f (trace (hmem s')) = sent f (trace (hmem ?s))"
    using try_write_live [OF hstepD(1) [OF st] aL a1 nk] by metis
  have "mt_handle_connection_event K a ev s = Inr s'"
    unfolding mt_handle_connection_event_def using ev h a s'(1) by (simp add: update_conn_Some)
  then show ?thesis
    using s'(3-5) hstepD(1) [OF s'(2)] p by (intro exI [of _ s'] exI [of _ c']) simp
qed

text \<open>C9: What a connection of the hybrid proactor sends. When an event reports only input and the read brings
  fewer than 4090 bytes whose echo can be written or must wait, then what was sent and what is still pending
  afterwards is what was sent before, the prefix and the bytes; bytes that were still pending are lost. When
  an event reports only that the connection is writable and the write does not fail, sent and pending bytes
  together stay the same. Nothing is sent on any other descriptor.\<close>

theorem hybrid_echo_stream:
  assumes inv: "hinv s L" and aL: "a \<in> set L" and a: "heap (hmem s) a = Some c"
    and ev: "ev AND (EPOLLERR OR EPOLLHUP OR EPOLLRDHUP) = 0"
  shows "(ev AND EPOLLIN \<noteq> 0 \<and> ev AND EPOLLOUT = 0 \<and> sys_read K (mt_fd c) 4095 (hmem s) = (Inr bs, w) \<and> bs \<noteq> []
        \<and> length bs < 4090 \<and> \<not> (writable c \<and> hard_error (fst (sys_write K (mt_fd c) (hybrid_prefix @ bs) w)))
      \<longrightarrow> (\<exists>s' c'. mt_handle_connection_event K a ev s = Inr s' \<and> hinv s' L \<and> heap (hmem s') a = Some c'
            \<and> sent (mt_fd c) (trace (hmem s')) @ pending_bytes c' = sent (mt_fd c) (trace (hmem s)) @ hybrid_prefix @ bs
            \<and> (\<forall>f. f \<noteq> mt_fd c \<longrightarrow> sent f (trace (hmem s')) = sent f (trace (hmem s)))))
    \<and> (ev AND EPOLLIN = 0 \<and> ev AND EPOLLOUT \<noteq> 0
        \<and> \<not> hard_error (fst (sys_write K (mt_fd c) (pending_bytes c) (hmem s)))
      \<longrightarrow> (\<exists>s' c'. mt_handle_connection_event K a ev s = Inr s' \<and> hinv s' L \<and> heap (hmem s') a = Some c'
            \<and> sent (mt_fd c) (trace (hmem s')) @ pending_bytes c' = sent (mt_fd c) (trace (hmem s)) @ pending_bytes c
            \<and> (\<forall>f. f \<noteq> mt_fd c \<longrightarrow> sent f (trace (hmem s')) = sent f (trace (hmem s)))))"
  using input_stream [OF inv aL a ev] output_stream [OF inv aL a ev] by blast

theorem hybrid_echo_stream_witness:
  "(\<exists>s' c'. mt_handle_connection_event (demo_hybrid_kernel (\<lambda>_. Inr [120]) (\<lambda>_. Inr 3)) 0 EPOLLIN demo_hstate = Inr s'
      \<and> heap (hmem s') 0 = Some c' \<and> sent 6 (trace (hmem s')) @ pending_bytes c' = hybrid_prefix @ [120])
   \<and> (\<exists>s' c'. mt_handle_connection_event (demo_hybrid_kernel (\<lambda>_. Inr [120]) (\<lambda>_. Inr 3)) 0 EPOLLOUT demo_hstate = Inr s'
      \<and> heap (hmem s') 0 = Some c' \<and> sent 6 (trace (hmem s')) @ pending_bytes c' = [])"
proof -
  let ?K = "demo_hybrid_kernel (\<lambda>_. Inr [120]) (\<lambda>_. Inr 3)" and ?w = "emit (SysRead 6 (Inr [120])) (hmem demo_hstate)"
  have r: "sys_read ?K (mt_fd demo_mt_conn) 4095 (hmem demo_hstate) = (Inr [120], ?w)"
    by (simp add: sys_read_def Let_def demo_hybrid_kernel_def demo_mt_conn_def)
  have w: "fst (sys_write ?K f bs v) = Inr (min 3 (length bs))" for f bs and v :: hworld
    by (simp add: sys_write_def demo_hybrid_kernel_def)
  have z: "mt_fd demo_mt_conn = 6" "pending_bytes demo_mt_conn = []" "trace (hmem demo_hstate) = []"
    by (simp_all add: demo_mt_conn_def pending_bytes_def zero_mt_connection_def demo_hstate_def demo_hworld_def)
  show ?thesis
    using hybrid_echo_stream [OF demo_hinv _ demo_conn_at, of EPOLLIN ?K "[120]" ?w]
      hybrid_echo_stream [OF demo_hinv _ demo_conn_at, of EPOLLOUT ?K "[120]" ?w] r w
    by (auto simp: z)
qed

end
