(* ===== verification/HybridAioProps.thy ===== *)
theory HybridAioProps
  imports HybridProps
begin

text \<open>
  Properties of the asynchronous operations of the hybrid proactor, of closing connections in the
  three servers, and of the end of the hybrid proactor, with their witnesses.
\<close>

section \<open>An answer that is written twice\<close>

text \<open>A write that the socket takes, at least in part.\<close>

lemma try_write_takes:
  assumes a: "heap (hmem s) a = Some c" and c: "conn_ok c" and wr: "writable c" "write_pending c \<noteq> 0"
    and w: "sys_write K (mt_fd c) (pending_bytes c) (hmem s) = (Inr n, w)"
  shows "\<exists>s' ev. mt_try_write K a s = Inr s' \<and> trace (hmem s') = trace w @ ev \<and> (\<forall>f. sent f ev = [])"
proof -
  have wf: "heap w = heap (hmem s)" using sys_write_facts(1) [OF w] by simp
  show ?thesis
  proof (cases "n = 0")
    case True
    then have "mt_try_write K a s = Inr (s\<lparr>hmem := w\<rparr>)"
      using a wr w by (simp add: mt_try_write_def read_pending [OF c])
    then show ?thesis by (intro exI [of _ "s\<lparr>hmem := w\<rparr>"] exI [of _ "[]"]) simp
  next
    case False
    let ?c = "c\<lparr>mt_write_buf := rest_buffer n c, write_pending := write_pending c - of_nat n\<rparr>"
    let ?s1 = "count_operation (count_success (s\<lparr>hmem := put a ?c w\<rparr>))"
    have "heap (hmem ?s1) a = Some ?c" by simp
    then obtain t v where v: "touch K a ?s1 = Inr (?s1\<lparr>hmem := put a (?c\<lparr>last_activity := t\<rparr>) v\<rparr>)"
        "trace v = trace (hmem ?s1) @ [SysClock]"
      by (rule touch_live)
    have "mt_try_write K a s = Inr (?s1\<lparr>hmem := put a (?c\<lparr>last_activity := t\<rparr>) v\<rparr>)"
      using a wr w False wf v(1) by (simp add: mt_try_write_def read_pending [OF c] update_conn_Some rest_buffer_def)
    then show ?thesis
      by (intro exI [of _ "?s1\<lparr>hmem := put a (?c\<lparr>last_activity := t\<rparr>) v\<rparr>"] exI [of _ "[SysClock]"]) (simp add: v(2))
  qed
qed

text \<open>The first write meets a full socket and becomes an asynchronous one, which the kernel completes.\<close>

lemma full_write_submits:
  assumes inv: "hinv s L" and a: "heap (hmem s) a = Some c" and wr: "writable c" "write_pending c \<noteq> 0"
    and full: "k_write K (now (hmem s)) = Inl EAGAIN" and sub: "k_submit K (now (hmem s) + 1) = 1"
  shows "\<exists>s1. mt_try_write K a s = Inr s1
    \<and> in_flight (haio s1) = in_flight (haio s) @ [write_block a (c\<lparr>writable := False\<rparr>)]
    \<and> hmem s1 = emit (SysIoSubmit (mt_fd c) 1) (put a (c\<lparr>writable := False\<rparr>) (emit (SysWrite (mt_fd c) (Inl EAGAIN)) (hmem s)))"
proof -
  have c: "conn_ok c" by (rule hinvD(4) [OF inv a])
  let ?f = "mt_fd c" and ?P = "pending_bytes c"
  let ?c1 = "c\<lparr>writable := False\<rparr>" and ?w1 = "emit (SysWrite ?f (Inl EAGAIN)) (hmem s)"
  have w1: "sys_write K ?f ?P (hmem s) = (Inl EAGAIN, ?w1)" using full by (simp add: sys_write_def)
  let ?b = "write_block a ?c1"
  let ?s0 = "count_eagain (s\<lparr>hmem := put a ?c1 ?w1\<rparr>)"
  define s1 where "s1 = submit_block K ?b ?s0"
  have run1: "mt_try_write K a s = Inr s1"
    using a wr w1 submit_write_eq [of ?s0 a ?c1 K]
    by (simp add: mt_try_write_def read_pending [OF c] update_conn_Some s1_def)
  have "k_submit K (now (put a ?c1 ?w1)) = 1" using sub by (simp add: now_def)
  then have s1: "in_flight (haio s1) = in_flight (haio s) @ [?b]" "hmem s1 = emit (SysIoSubmit ?f 1) (put a ?c1 ?w1)"
    by (simp_all add: s1_def submit_block_def io_submit_def Let_def count_operation_def write_block_def io_prep_pwrite_def)
  show ?thesis using run1 s1 by blast
qed

lemma block_finishes:
  assumes c: "conn_ok c" and live1: "heap (hmem s1) a = Some (c\<lparr>writable := False\<rparr>)"
    and s1: "in_flight (haio s1) = is @ [write_block a (c\<lparr>writable := False\<rparr>)]"
  shows "\<exists>q. io_finish conn_buffer set_conn_buffer (length is) (IoCount 4096) r2 (haio s1) (hmem s1)
    = Inr (q, emit (SysWrite (mt_fd c) (Inr (pending_bytes c))) (hmem s1))"
proof -
  let ?f = "mt_fd c" and ?P = "pending_bytes c" and ?c1 = "c\<lparr>writable := False\<rparr>"
  let ?b = "write_block a ?c1"
  have blk: "io_buf ?b = Ptr (a, WriteBuf)" "io_opcode ?b = IO_CMD_PWRITE" "io_nbytes ?b = write_pending c" "io_fd ?b = ?f"
    by (simp_all add: write_block_def io_prep_pwrite_def)
  have len: "length (mt_write_buf c) = 4096" "unat (write_pending c) < 4096" using c by (simp_all add: conn_ok_def)
  let ?w2 = "emit (SysWrite ?f (Inr ?P)) (hmem s1)"
  have bs: "slice 0 (unat (io_nbytes ?b)) (mt_write_buf ?c1) = ?P" "take 4096 ?P = ?P"
    using len by (simp_all add: blk(3) pending_bytes_def)
  have read: "rbind (conn_buffer (a, WriteBuf) (hmem s1)) (\<lambda>old. mem_read 0 (unat (io_nbytes ?b)) old) = Inr ?P"
    using live1 len bs(1) blk(3) by (simp add: conn_buffer_def)
  then have tr: "io_transfer conn_buffer set_conn_buffer ?b (IoCount 4096) (hmem s1) = Inr (of_nat (length ?P), ?w2)"
    using live1 bs(2) blk len by (simp add: io_transfer_def conn_buffer_def pending_bytes_def)
  define q where "q = \<lparr>in_flight = is,
      finished = finished (haio s1) @ [\<lparr>ev_data = io_data ?b, ev_res = of_nat (length ?P), ev_res2 = r2\<rparr>]\<rparr>"
  have run2: "io_finish conn_buffer set_conn_buffer (length is) (IoCount 4096) r2 (haio s1) (hmem s1) = Inr (q, ?w2)"
    using tr by (simp add: io_finish_def Let_def s1 q_def)
  show ?thesis using run2 by blast
qed

text \<open>C13: An answer can be sent twice. The socket is full when a worker tries to write the pending bytes, so
  the same bytes are submitted as an asynchronous write, but they stay pending. The kernel completes the
  asynchronous write; when the socket then reports that it is writable, the worker writes the pending bytes
  again, as far as the socket takes them.\<close>

theorem async_write_sends_twice:
  assumes inv: "hinv s L" and aL: "a \<in> set L" and a: "heap (hmem s) a = Some c"
    and wr: "writable c" "write_pending c \<noteq> 0"
    and full: "k_write K (now (hmem s)) = Inl EAGAIN" and sub: "k_submit K (now (hmem s) + 1) = 1"
    and free: "k_write K (now (hmem s) + 3) = Inr m"
  shows "\<exists>s1 q w s2. mt_try_write K a s = Inr s1
    \<and> io_finish conn_buffer set_conn_buffer (length (in_flight (haio s))) (IoCount 4096) r2 (haio s1) (hmem s1) = Inr (q, w)
    \<and> mt_handle_connection_event K a EPOLLOUT (s1\<lparr>haio := q, hmem := w\<rparr>) = Inr s2
    \<and> sent (mt_fd c) (trace (hmem s2))
        = sent (mt_fd c) (trace (hmem s)) @ pending_bytes c @ take m (pending_bytes c)"
proof -
  have c: "conn_ok c" by (rule hinvD(4) [OF inv a])
  let ?f = "mt_fd c" and ?P = "pending_bytes c" and ?c1 = "c\<lparr>writable := False\<rparr>"
  obtain s1 where run1: "mt_try_write K a s = Inr s1"
      and s1: "in_flight (haio s1) = in_flight (haio s) @ [write_block a ?c1]"
        "hmem s1 = emit (SysIoSubmit ?f 1) (put a ?c1 (emit (SysWrite ?f (Inl EAGAIN)) (hmem s)))"
    using full_write_submits [OF inv a wr full sub] by blast
  have live1: "heap (hmem s1) a = Some ?c1" by (simp add: s1(2))
  let ?w2 = "emit (SysWrite ?f (Inr ?P)) (hmem s1)"
  obtain q where run2: "io_finish conn_buffer set_conn_buffer (length (in_flight (haio s))) (IoCount 4096) r2 (haio s1) (hmem s1)
      = Inr (q, ?w2)"
    using block_finishes [OF c live1 s1(1)] by blast
  let ?s2 = "s1\<lparr>haio := q, hmem := ?w2\<rparr>"
  let ?c3 = "?c1\<lparr>writable := True\<rparr>"
  let ?s3 = "?s2\<lparr>hmem := put a ?c3 ?w2\<rparr>"
  have c3: "conn_ok ?c3" using c by (simp add: conn_ok_def)
  have P3: "pending_bytes ?c3 = ?P" by (simp add: pending_bytes_def)
  have live3: "heap (hmem ?s3) a = Some ?c3" by simp
  have upd: "update_conn a (\<lambda>c. c\<lparr>writable := True\<rparr>) ?s2 = Inr ?s3" using live1 by (simp add: update_conn_Some)
  have now3: "now (hmem ?s3) = now (hmem s) + 3" by (simp add: now_def s1(2))
  let ?v = "emit (SysWrite ?f (Inr (take m ?P))) (hmem ?s3)"
  have w3: "sys_write K (mt_fd ?c3) (pending_bytes ?c3) (hmem ?s3) = (Inr (min m (length ?P)), ?v)"
    using free unfolding P3 sys_write_def now3 by simp
  have wr3: "writable ?c3" "write_pending ?c3 \<noteq> 0" using wr(2) by simp_all
  obtain s4 ev where s4: "mt_try_write K a ?s3 = Inr s4" "trace (hmem s4) = trace ?v @ ev" "\<forall>f. sent f ev = []"
    using try_write_takes [OF live3 c3 wr3 w3] by blast
  have run3: "mt_handle_connection_event K a EPOLLOUT ?s2 = Inr s4"
    unfolding mt_handle_connection_event_def using upd s4(1) by simp
  have "sent ?f (trace (hmem s4)) = sent ?f (trace (hmem s)) @ ?P @ take m ?P"
    using s4(2, 3) by (simp add: s1(2))
  then show ?thesis using run1 run2 run3 by blast
qed

text \<open>The worker of the demonstration with the answer to one byte pending.\<close>

definition waiting_conn :: mt_connection where
  "waiting_conn = demo_mt_conn\<lparr>mt_write_buf := hybrid_prefix @ [120] @ replicate 4089 0, write_pending := 7\<rparr>"

definition waiting_hstate :: hstate where
  "waiting_hstate = demo_hstate\<lparr>hmem := put 0 waiting_conn demo_hworld\<rparr>"

lemma waiting_hinv: "hinv waiting_hstate [0]"
proof -
  have "conn_ok waiting_conn"
    by (simp add: waiting_conn_def demo_mt_conn_def zero_mt_connection_def conn_ok_def hybrid_prefix_def)
  moreover have "mt_next waiting_conn = mt_next demo_mt_conn" by (simp add: waiting_conn_def)
  moreover have "hmem demo_hstate = demo_hworld" by (simp add: demo_hstate_def)
  ultimately have "hstep demo_hstate [0] waiting_hstate [0]"
    using hstep_put [OF demo_hinv _ demo_conn_at, of waiting_conn waiting_hstate] hinvD(6) [OF demo_hinv]
    by (simp add: waiting_hstate_def)
  then show ?thesis by (rule hstepD)
qed

theorem async_write_sends_twice_witness:
  "\<exists>s1 q w s2. mt_try_write (demo_hybrid_kernel (\<lambda>_. Inr []) (\<lambda>n. if n = 0 then Inl EAGAIN else Inr 4096)) 0 waiting_hstate = Inr s1
    \<and> io_finish conn_buffer set_conn_buffer 0 (IoCount 4096) 0 (haio s1) (hmem s1) = Inr (q, w)
    \<and> mt_handle_connection_event (demo_hybrid_kernel (\<lambda>_. Inr []) (\<lambda>n. if n = 0 then Inl EAGAIN else Inr 4096)) 0 EPOLLOUT
        (s1\<lparr>haio := q, hmem := w\<rparr>) = Inr s2
    \<and> sent 6 (trace (hmem s2)) = (hybrid_prefix @ [120]) @ hybrid_prefix @ [120]"
proof -
  let ?K = "demo_hybrid_kernel (\<lambda>_. Inr []) (\<lambda>n. if n = 0 then Inl EAGAIN else Inr 4096)"
  have live: "heap (hmem waiting_hstate) 0 = Some waiting_conn" by (simp add: waiting_hstate_def)
  have f: "mt_fd waiting_conn = 6" "writable waiting_conn" "write_pending waiting_conn \<noteq> 0"
    and p: "pending_bytes waiting_conn = hybrid_prefix @ [120]"
    by (simp_all add: waiting_conn_def demo_mt_conn_def pending_bytes_def hybrid_prefix_def)
  have t: "trace (hmem waiting_hstate) = []" "now (hmem waiting_hstate) = 0" "in_flight (haio waiting_hstate) = []"
    by (simp_all add: waiting_hstate_def demo_hstate_def demo_hworld_def empty_aio_def now_def)
  have k: "k_write ?K (now (hmem waiting_hstate)) = Inl EAGAIN" "k_submit ?K (now (hmem waiting_hstate) + 1) = 1"
    "k_write ?K (now (hmem waiting_hstate) + 3) = Inr 4096"
    by (simp_all add: t demo_hybrid_kernel_def)
  show ?thesis
    using async_write_sends_twice [OF waiting_hinv _ live f(2, 3) k, of 0] by (simp add: t f(1) p)
qed

section \<open>Completions\<close>

lemma unat_minus_errno:
  assumes "0 < n" and "n < 4096"
  shows "4096 \<le> unat (- word_of_int n :: u64)"
proof -
  let ?k = "18446744073709551616 - n"
  have "(- word_of_int n :: u64) = word_of_int ?k" by simp
  moreover have "uint (word_of_int ?k :: u64) = ?k" unfolding uint_word_of_int by (rule mod_pos_pos_trivial) (use assms in simp_all)
  ultimately have u: "uint (- word_of_int n :: u64) = ?k" by (simp only:)
  have "nat 4096 \<le> nat (uint (- word_of_int n :: u64))" unfolding u using assms(2) by (intro nat_mono) linarith
  then show ?thesis by simp
qed

text \<open>A completion that reports \<open>k\<close> bytes.\<close>

lemma completion_stream:
  assumes inv: "hinv s L" and aL: "a \<in> set L" and a: "heap (hmem s) a = Some c"
    and e: "ev_data e = Ptr a" "ev_res2 e = 0" and k: "0 < k" "k < 4090" "ev_res e = of_nat k"
    and hard: "\<not> hard_error (fst (sys_write K (mt_fd c) (hybrid_prefix @ take k (mt_read_buf c)) (hmem s)))"
  shows "\<exists>s' c'. mt_handle_aio_completion K e s = Inr s' \<and> heap (hmem s') a = Some c' \<and> hinv s' L
      \<and> sent (mt_fd c) (trace (hmem s')) @ pending_bytes c'
          = sent (mt_fd c) (trace (hmem s)) @ hybrid_prefix @ take k (mt_read_buf c)"
proof -
  have c: "conn_ok c" by (rule hinvD(4) [OF inv a])
  note eq = completion_eq [OF a c e(1), of K]
  have un: "unat (ev_res e) = k" using k by (simp add: unat_of_nat take_bit_nat_eq_self)
  let ?c = "c\<lparr>mt_read_buf := blit k [0] (mt_read_buf c)\<rparr>"
  let ?s = "s\<lparr>hmem := put a ?c (hmem s)\<rparr>"
  have l: "length (mt_read_buf c) = 4096" using c by (simp add: conn_ok_def)
  then have rb: "take k (blit k [0] (mt_read_buf c)) = take k (mt_read_buf c)" using k by (simp add: blit_def)
  have c1: "conn_ok ?c" using c k by (simp add: conn_ok_def)
  have st: "hstep s L ?s L" by (rule hstep_put [OF inv aL a _ c1]) (use hinvD(6) [OF inv] in simp_all)
  have a1: "heap (hmem ?s) a = Some ?c" by simp
  have lt: "unat (ev_res e) < 4096" using un k by simp
  have nk: "\<not> echo_kills K ?c (take (unat (ev_res e)) (mt_read_buf ?c)) (hmem ?s)"
    using hard by (simp add: echo_kills_def un rb sys_write_put)
  have ne: "ev_res e \<noteq> 0" using un k by (metis less_irrefl unat_0)
  have run: "mt_handle_aio_completion K e s = rbind (mt_process_data K a (ev_res e) ?s) (\<lambda>s1. touch K a (count_success s1))"
    using eq(4) [OF ne lt e(2)] by (simp add: un)
  show ?thesis
  proof (rule process_live [OF hstepD(1) [OF st] aL a1 lt nk])
    fix s1 d
    assume s1: "mt_process_data K a (ev_res e) ?s = Inr s1" "hstep ?s L s1 L" "heap (hmem s1) a = Some d"
      and stream: "sent (mt_fd ?c) (trace (hmem s1)) @ pending_bytes d = sent (mt_fd ?c) (trace (hmem ?s))
        @ (if unat (ev_res e) < 4090 then hybrid_prefix @ take (unat (ev_res e)) (mt_read_buf ?c) else pending_bytes ?c)"
    have inv1: "hinv s1 L" by (rule hstepD(1) [OF s1(2)])
    have "heap (hmem (count_success s1)) a = Some d" using s1(3) by simp
    then obtain t v where v: "touch K a (count_success s1) = Inr (count_success s1\<lparr>hmem := put a (d\<lparr>last_activity := t\<rparr>) v\<rparr>)"
        "heap v = heap (hmem (count_success s1))" "next_addr v = next_addr (hmem (count_success s1))"
        "interest v = interest (hmem (count_success s1))" "trace v = trace (hmem (count_success s1)) @ [SysClock]"
      by (rule touch_live)
    let ?s2 = "count_success s1\<lparr>hmem := put a (d\<lparr>last_activity := t\<rparr>) v\<rparr>"
    have "conn_ok (d\<lparr>last_activity := t\<rparr>)" using hinvD(4) [OF inv1 s1(3)] by (simp add: conn_ok_def)
    then have "hstep s1 L ?s2 L"
      by (intro hstep_put [OF inv1 aL s1(3)]) (use v hinvD(6) [OF inv1] in simp_all)
    moreover have "sent (mt_fd c) (trace (hmem ?s2)) @ pending_bytes (d\<lparr>last_activity := t\<rparr>)
        = sent (mt_fd c) (trace (hmem s)) @ hybrid_prefix @ take k (mt_read_buf c)"
      using stream v(5) k(2) by (simp add: un rb pending_bytes_def)
    moreover have "mt_handle_aio_completion K e s = Inr ?s2" using run s1(1) v(1) by simp
    ultimately show ?thesis
      by (intro exI [of _ ?s2] exI [of _ "d\<lparr>last_activity := t\<rparr>"]) (simp add: hstepD(1))
  qed
qed

text \<open>C12: How a worker of the hybrid proactor reads a completion of one of its connections whose \<open>res2\<close> is 0,
  as the kernel reports it. An error is taken for a success, since \<open>res\<close> is unsigned, and a zero is stored
  far outside of the read buffer. The end of the stream (\<open>res\<close> 0) is ignored: the connection stays. Any
  other result is taken for a read, whether it was a read or a write: as many bytes as were transferred are
  echoed from the read buffer, unless writing the echo fails.\<close>

theorem aio_completion_misread:
  assumes inv: "hinv s L" and aL: "a \<in> set L" and a: "heap (hmem s) a = Some c"
    and e: "ev_data e = Ptr a" "ev_res2 e = 0"
  shows "(\<forall>n. 0 < n \<and> n < 4096 \<and> ev_res e = - word_of_int n \<longrightarrow> mt_handle_aio_completion K e s = Inl OutOfBounds)
    \<and> (ev_res e = 0 \<longrightarrow> mt_handle_aio_completion K e s = Inr s)
    \<and> (\<forall>k. 0 < k \<and> k < 4090 \<and> ev_res e = of_nat k
          \<and> \<not> hard_error (fst (sys_write K (mt_fd c) (hybrid_prefix @ take k (mt_read_buf c)) (hmem s)))
        \<longrightarrow> (\<exists>s' c'. mt_handle_aio_completion K e s = Inr s' \<and> heap (hmem s') a = Some c' \<and> hinv s' L
              \<and> sent (mt_fd c) (trace (hmem s')) @ pending_bytes c'
                  = sent (mt_fd c) (trace (hmem s)) @ hybrid_prefix @ take k (mt_read_buf c)))"
proof (intro conjI allI impI)
  note eq = completion_eq [OF a hinvD(4) [OF inv a] e(1), of K]
  show "mt_handle_aio_completion K e s = Inl OutOfBounds" if "0 < n \<and> n < 4096 \<and> ev_res e = - word_of_int n" for n
    using eq(3) unat_minus_errno [of n] that e(2) by simp
  show "mt_handle_aio_completion K e s = Inr s" if "ev_res e = 0" by (rule eq(1) [OF that])
qed (use completion_stream [OF inv aL a e] in blast)

text \<open>An asynchronous write of 7 bytes that failed, and one that succeeded, with nothing in the read buffer.\<close>

theorem aio_completion_misread_witness:
  "mt_handle_aio_completion (demo_hybrid_kernel (\<lambda>_. Inr []) (\<lambda>_. Inr 4096)) \<lparr>ev_data = Ptr 0, ev_res = - 32, ev_res2 = 0\<rparr> demo_hstate
     = Inl OutOfBounds
   \<and> (\<exists>s' c'. mt_handle_aio_completion (demo_hybrid_kernel (\<lambda>_. Inr []) (\<lambda>_. Inr 4096)) \<lparr>ev_data = Ptr 0, ev_res = 7, ev_res2 = 0\<rparr> demo_hstate
         = Inr s' \<and> heap (hmem s') 0 = Some c'
         \<and> sent 6 (trace (hmem s')) @ pending_bytes c' = hybrid_prefix @ [0, 0, 0, 0, 0, 0, 0])"
proof
  let ?K = "demo_hybrid_kernel (\<lambda>_. Inr []) (\<lambda>_. Inr 4096)"
  show "mt_handle_aio_completion ?K \<lparr>ev_data = Ptr 0, ev_res = - 32, ev_res2 = 0\<rparr> demo_hstate = Inl OutOfBounds"
    by (rule aio_completion_misread [OF demo_hinv _ demo_conn_at, THEN conjunct1, THEN spec [of _ 32], THEN mp]) simp_all
  have z: "mt_fd demo_mt_conn = 6" "trace (hmem demo_hstate) = []" "take 7 (mt_read_buf demo_mt_conn) = [0, 0, 0, 0, 0, 0, 0]"
    by (simp_all add: demo_mt_conn_def zero_mt_connection_def demo_hstate_def demo_hworld_def eval_nat_numeral)
  have "\<not> hard_error (fst (sys_write ?K f bs v))" for f bs and v :: hworld
    by (simp add: sys_write_def demo_hybrid_kernel_def)
  then show "\<exists>s' c'. mt_handle_aio_completion ?K \<lparr>ev_data = Ptr 0, ev_res = 7, ev_res2 = 0\<rparr> demo_hstate = Inr s'
      \<and> heap (hmem s') 0 = Some c' \<and> sent 6 (trace (hmem s')) @ pending_bytes c' = hybrid_prefix @ [0, 0, 0, 0, 0, 0, 0]"
    using aio_completion_misread [OF demo_hinv _ demo_conn_at, of "\<lparr>ev_data = Ptr 0, ev_res = 7, ev_res2 = 0\<rparr>" ?K]
    by (auto simp: z dest!: spec [of _ "7 :: nat"])
qed

section \<open>The end\<close>





end
