(* ===== verification/ClosingProps.thy ===== *)
theory ClosingProps
  imports ReactorProps ProactorEcho HybridAioProps
begin

text \<open>The closing of connections in the three servers, through their common contract \<open>registry\<close>.\<close>

text \<open>C14: In each server any of its connections can be closed in any order. A reactor thread with
  \<open>handle_close_event\<close>, the proactor with \<open>proactor_remove_connection\<close> and a worker of the hybrid
  proactor with \<open>mt_remove_connection_safe\<close>: closing several different connections never faults, keeps the
  invariant, and leaves exactly the others.\<close>

theorem closing_in_any_order:
  shows "(good H t w \<and> distinct as \<and> set as \<subseteq> owned t \<longrightarrow>
      (\<exists>t' w'. discard_all (\<lambda>a. handle_close_event K (Ptr a)) as (t, w) = Inr (t', w') \<and> good H t' w' \<and> owned t' = owned t - set as))
    \<and> (pinv p rest D \<and> distinct fs \<and> set fs \<subseteq> table_fds p \<longrightarrow>
      (\<exists>p'. discard_all (proactor_remove_connection K) fs p = Inr p' \<and> table_inv p' \<and> table_fds p' = table_fds p - set fs))
    \<and> (hinv s L \<and> distinct cs \<and> set cs \<subseteq> set L \<longrightarrow>
      (\<exists>s' L'. discard_all (\<lambda>a. mt_remove_connection_safe K (Ptr a)) cs s = Inr s' \<and> hinv s' L' \<and> set L' = set L - set cs))"
proof (intro conjI impI)
  assume h: "good H t w \<and> distinct as \<and> set as \<subseteq> owned t"
  then obtain st where "discard_all (\<lambda>a. handle_close_event K (Ptr a)) as (t, w) = Inr st" "thread_good H st"
      "thread_conns st = thread_conns (t, w) - set as"
    using thread_registry.discard_all_members [of H "(t, w)" as K] by (auto simp: thread_good_def thread_conns_def)
  then show "\<exists>t' w'. discard_all (\<lambda>a. handle_close_event K (Ptr a)) as (t, w) = Inr (t', w') \<and> good H t' w' \<and> owned t' = owned t - set as"
    by (cases st) (auto simp: thread_good_def thread_conns_def)
next
  assume h: "pinv p rest D \<and> distinct fs \<and> set fs \<subseteq> table_fds p"
  then have "table_inv p" by (auto simp: table_inv_def)
  then show "\<exists>p'. discard_all (proactor_remove_connection K) fs p = Inr p' \<and> table_inv p' \<and> table_fds p' = table_fds p - set fs"
    using table_registry.discard_all_members [of p fs K] h by blast
next
  assume h: "hinv s L \<and> distinct cs \<and> set cs \<subseteq> set L"
  then have g: "worker_good s" "worker_conns s = set L" using worker_conns_eq by (auto simp: worker_good_def)
  obtain s' where s': "discard_all (\<lambda>a. mt_remove_connection_safe K (Ptr a)) cs s = Inr s'" "worker_good s'"
      "worker_conns s' = worker_conns s - set cs"
    using worker_registry.discard_all_members [of s cs K] g h by auto
  obtain L' where "hinv s' L'" using s'(2) by (auto simp: worker_good_def)
  then show "\<exists>s' L'. discard_all (\<lambda>a. mt_remove_connection_safe K (Ptr a)) cs s = Inr s' \<and> hinv s' L' \<and> set L' = set L - set cs"
    using s' g(2) worker_conns_eq by metis
qed

theorem closing_in_any_order_witness:
  "(\<exists>t' w'. discard_all (\<lambda>a. handle_close_event (demo_kernel (\<lambda>_. Inl 11)) (Ptr a)) [0] (demo_thread, demo_world) = Inr (t', w')
      \<and> owned t' = owned demo_thread - {0})
   \<and> (\<exists>p'. discard_all (proactor_remove_connection (demo_kernel (\<lambda>_. Inl 11))) [6] demo_pstate = Inr p'
      \<and> table_fds p' = table_fds demo_pstate - {6})
   \<and> (\<exists>s' L'. discard_all (\<lambda>a. mt_remove_connection_safe (demo_kernel (\<lambda>_. Inl 11)) (Ptr a)) [0] demo_hstate = Inr s' \<and> hinv s' L'
      \<and> L' = [])"
proof -
  let ?K = "demo_kernel (\<lambda>_. Inl 11)"
  have o: "0 \<in> owned demo_thread" by (auto simp: owned_def slots_def demo_thread_def MAX_CONNECTIONS_def)
  have f: "6 \<in> table_fds demo_pstate" by (simp add: table_fds_def demo_pstate_def)
  note c = closing_in_any_order [of "[]" demo_thread demo_world "[0]" ?K demo_pstate "[2]" "{}" "[6]" demo_hstate "[0]" "[0]"]
  show ?thesis
  proof (intro conjI)
    show "\<exists>t' w'. discard_all (\<lambda>a. handle_close_event ?K (Ptr a)) [0] (demo_thread, demo_world) = Inr (t', w')
        \<and> owned t' = owned demo_thread - {0}"
      using c o demo_good by fastforce
    show "\<exists>p'. discard_all (proactor_remove_connection ?K) [6] demo_pstate = Inr p' \<and> table_fds p' = table_fds demo_pstate - {6}"
      using c f demo_pstate_inv by fastforce
    show "\<exists>s' L'. discard_all (\<lambda>a. mt_remove_connection_safe ?K (Ptr a)) [0] demo_hstate = Inr s' \<and> hinv s' L' \<and> L' = []"
      using c demo_hinv by fastforce
  qed
qed

end
