(* ===== verification/Spec2Isabelle.thy ===== *)
theory Spec2Isabelle
  imports ReactorSysProps RingConc ClosingProps
begin

text \<open>
  A model of the three echo servers under \<open>src/codes/network\<close>, with their correctness properties.

  \<^bold>\<open>The programs\<close>

  \<^item> \<open>reactor/\<close>: an accepting thread hands every new descriptor, round robin, to one of up to
    16 reactor threads through a lock-free ring buffer per thread. A reactor thread runs an
    edge-triggered epoll loop over the connections in its slots and echoes what they send.
  \<^item> \<open>proactor/\<close>: the dispatcher thread accepts connections and reaps completed asynchronous
    operations; the completion handlers submit new operations to a pool, from which worker threads
    take them and give them to the kernel (\<open>io_submit\<close>). Connections are a table indexed by the
    descriptor.
  \<^item> \<open>proactor_epoll/\<close>: the accepting thread gives every connection, round robin, to a worker
    thread with its own epoll instance and AIO context. A worker reads and writes directly and falls
    back on asynchronous operations after \<open>EAGAIN\<close>. The connections of a worker are a linked list.

  \<^bold>\<open>Foundations\<close>

  \<^item> \<open>Prelude\<close>: words of the widths of the C types, faults (undefined behaviour of the C code) as
    the left part of a sum, blocks of memory as lists. An access out of bounds, a use after free, a
    second free, a null or uninitialised pointer and a walk that does not end are faults. An \<open>int\<close>
    that carries a descriptor, a return code or an \<open>errno\<close> is unbounded.
  \<^item> \<open>Kernel\<close>: the heap of a process and its system calls. The answers are functions of the
    time of the call and otherwise arbitrary, so a theorem over all \<open>K\<close> holds for every behaviour
    of the environment. Addresses are not reused, so a use after free is always seen.
  \<^item> \<open>Aio\<close>: \<open>io_submit\<close>, \<open>io_getevents\<close> and the kernel's own step, which moves the
    bytes of an operation some time after its submission. \<open>res\<close> and \<open>res2\<close> of an event are
    unsigned 64-bit words, as \<open>libaio.h\<close> declares them.
  \<^item> \<open>HeapList\<close>: linked lists in the heap.

  \<^bold>\<open>The reactor server\<close>

  \<^item> \<open>RingQueue\<close> (\<open>ring_queue.c\<close>, \<open>ring_queue.h\<close>): every operation as one thread runs it,
    with 32-bit indices that wrap. \<open>RingConc\<close>: one producer and one consumer, interleaved at every
    load, swap and buffer access. The steps are sequentially consistent, the default of C11 atomics.
  \<^item> \<open>ReactorConn\<close> (\<open>connection_create\<close>, \<open>thread_add_connection\<close> and the read, write
    and close handlers of \<open>reactor.c\<close>), \<open>ReactorThread\<close> (\<open>reactor_thread_main\<close>,
    \<open>process_new_connections_batch\<close>, the timeout), \<open>Reactor\<close> (\<open>reactor_create\<close>,
    \<open>reactor_add_connection\<close>, \<open>reactor_run\<close>, \<open>reactor_stop\<close>, \<open>reactor_destroy\<close>, the statistics) and
    \<open>ReactorServer\<close> (\<open>server.c\<close>).
  \<^item> \<open>ReactorSystem\<close> interleaves the accepting thread, the reactor threads and the main thread; one
    pass of the loop of a reactor thread is one step.

  \<^bold>\<open>The proactor server\<close>

  \<^item> \<open>Proactor\<close> (the data of \<open>proactor.h\<close>, the operation pool and the connection table),
    \<open>ProactorServer\<close> (\<open>async_server_proactor.c\<close>: completion handlers, new connections,
    listening socket), \<open>ProactorLoop\<close> (\<open>dispatcher_thread_func\<close>, \<open>worker_thread_func\<close> and the
    signal handler) and \<open>ProactorLife\<close> (\<open>proactor_init\<close>, \<open>proactor_start\<close>, \<open>proactor_stop\<close>,
    \<open>cleanup_proactor_resources\<close>, \<open>main\<close>).
  \<^item> \<open>proactor_act\<close> interleaves the dispatcher, the workers, the kernel and the signal handler. A
    step is one system call of a loop, the handling of one event or completion, the critical section
    that takes an operation, its submission, or the message after a submitted write.

  \<^bold>\<open>The hybrid server\<close>

  \<^item> \<open>Hybrid\<close> (\<open>hybrid_proactor.h\<close>; connections, events, asynchronous operations, completions),
    \<open>HybridLoop\<close> (\<open>worker_thread_func\<close>, \<open>accept_thread_func\<close>, the signal handler) and
    \<open>HybridLife\<close> (\<open>mt_proactor_init\<close>, \<open>mt_proactor_start\<close>, \<open>mt_proactor_stop\<close> and
    \<open>efficient_hybrid_server.c\<close>).
  \<^item> \<open>hybrid_act\<close> interleaves the accepting thread, the workers, the kernel and the signal handler;
    a step is one system call of a loop, one event, one completion, the addition of one connection,
    or its welcome message. \<open>set_nonblock\<close> of this program does the same as the function in
    \<open>reactor.c\<close>: \<open>set_nonblocking\<close>.

  \<^bold>\<open>Contracts\<close>

  \<^item> \<open>bounded_fifo\<close> in \<open>Fifo\<close>, a queue with a capacity, and \<open>weak_cas\<close>, the ring buffer under
    disturbed swaps that still end; \<open>RingQueue\<close> shows that the second gives the first.
  \<^item> \<open>lifo_pool\<close> in \<open>HeapList\<close>, a pool that returns the last element first; \<open>ProactorPool\<close>
    shows it of \<open>pending_ops\<close>.
  \<^item> \<open>registry\<close> in \<open>Registry\<close>, a set of connections that can be removed one by one; \<open>Registries\<close>
    shows it of a reactor thread, of the proactor and of a worker of the hybrid proactor.

  \<^bold>\<open>What is shown\<close>

  \<^item> Ring buffer, in \<open>RingProps\<close> and \<open>RingConc\<close>: refinement of a bounded queue, batch calls against
    single calls, exactly when a call returns; with two threads the order of delivery, when a delivered
    value is the pushed one, and two interleavings in which it is not.
  \<^item> Reactor, with the invariant \<open>good\<close> of a thread in \<open>ReactorSafety\<close> and \<open>ReactorLoop\<close> and
    \<open>sys_inv\<close> of the whole in \<open>ReactorSystem\<close>: memory safety of every interleaving, integrity of the
    echo, the idle timeout, no lost descriptor, stopping and destroying (\<open>ReactorProps\<close>,
    \<open>ReactorSysProps\<close>).
  \<^item> Proactor, with the invariant \<open>psys_inv\<close> in \<open>ProactorInv\<close>, \<open>ProactorSafety\<close> and
    \<open>ProactorSystem\<close>: who owns every operation, the only three faults and that they happen
    (\<open>ProactorProps\<close>), the answers to completed reads and to errors, the order of the pool, the end of
    the program (\<open>ProactorEcho\<close>, over \<open>ProactorStop\<close>).
  \<^item> Hybrid proactor, with the invariants \<open>hinv\<close> of a worker in \<open>HybridInv\<close> and \<open>hybrid_inv\<close> of the
    whole in \<open>HybridSystem\<close>: what an event does and exactly when it uses a freed connection
    (\<open>HybridEvent\<close>, \<open>HybridSafety\<close>), new connections (\<open>HybridAdd\<close>), every step of the threads
    (\<open>HybridReach\<close>), the initial state and stopping (\<open>HybridStart\<close>); the properties are in
    \<open>HybridProps\<close> and \<open>HybridAioProps\<close>.
  \<^item> All three, in \<open>ClosingProps\<close>: connections are closed in any order.

  \<^bold>\<open>Bounds\<close>

  \<^item> The retry loops of the ring buffer and the read loop of the reactor are partial functions
    whose value \<open>None\<close> means that they do not return; when they return is a theorem.
  \<^item> \<open>thread_passes\<close> and \<open>accept_passes\<close> make a given number of passes of a loop that runs until
    it is stopped; the properties hold for every number.
  \<^item> \<open>find_link\<close> and \<open>free_list\<close> walk a linked list with at most as many steps as addresses were ever
    allocated: a longer walk would visit a node twice, that is, go on for ever in the first case and
    use a freed node in the second. \<open>drain\<close> makes at most one call more than there are finished
    operations, since every call but the last removes one.

  \<^bold>\<open>Arguments for the rest of the process\<close>

  \<^item> \<open>J\<close>: what the other threads do until \<open>pthread_join\<close> returns; \<open>S\<close> and \<open>E\<close>: what they do
    while a \<open>main\<close> waits for the Enter key or sleeps; \<open>spur\<close>: which weak swaps fail without a
    reason; \<open>low32\<close>: the lower half of a pointer, which the hybrid proactor compares with a descriptor.

  \<^bold>\<open>Not modelled\<close>

  \<^item> What is printed, and client addresses, which are only printed. Where a message reads a block
    that may be freed, the read is modelled.
  \<^item> Mutexes and condition variables: the critical section is one step. In the hybrid proactor the
    steps of two threads inside one call are not interleaved; \<open>conn->lock\<close>, \<open>accept_lock\<close> and
    \<open>accept_cond\<close> are never used to protect anything.
  \<^item> \<open>mt_monitor_performance\<close>, which is declared but never defined, and fields that nothing reads.
  \<^item> The load generator \<open>proactor/test\<close>, the makefiles, and \<open>src/docs\<close>, whose header
    \<open>gateway_struct.h\<close> belongs to another system and only declares structures.
\<close>

end
